theory Spec2Isabelle
  imports Main
begin

section \<open>Blocks, as the analysis reads them\<close>

text \<open>
  Modelled from the spec: the declaration of \<open>SPIRBlock\<close> lives in a header that is not
  part of \<open>spirv_cfg.cpp\<close>. The terminators that matter to the traversal are \<open>Direct\<close>,
  \<open>Select\<close> and \<open>MultiSelect\<close>; every other terminator kind (return, unreachable, ...)
  takes the \<open>default\<close> branch of each \<open>switch\<close> and is \<open>OtherTerminator\<close> here.
\<close>

datatype Terminator = Direct | Select | MultiSelect | OtherTerminator

datatype Merge = MergeNone | MergeLoop | MergeSelection

text \<open>
  Block identifiers are \<open>uint32_t\<close> in the source. They are only compared for equality
  and tested against 0, so \<open>nat\<close> is exact for them. A case of a \<open>MultiSelect\<close> is a
  pair (value, target block); the code reads \<open>target.block\<close>, the second component.
\<close>

record SPIRBlock =
  terminator :: Terminator
  merge :: Merge
  next_block :: nat
  merge_block :: nat
  true_block :: nat
  false_block :: nat
  cases :: "(nat \<times> nat) list"
  default_block :: nat

text \<open>
  The ways a call can fail to return a value: the fuel of the model ran out, the block
  store has no block of that identifier, or one of the three \<open>assert\<close>s of the source
  failed (in \<open>get_visit_order\<close>, in \<open>is_back_edge\<close>, in \<open>build_immediate_dominators\<close>).
\<close>

datatype error =
  OutOfFuel | BadBlock | VisitOrderAssert | BackEdgeAssert | DominatorAssert

text \<open>
  Modelled from the spec: \<open>compiler.get<SPIRBlock>(id)\<close> is defined outside
  \<open>spirv_cfg.cpp\<close>. The compiler's block store is a finite table from identifiers to
  blocks; identifier 0 is reserved as "no block" and never names one, and asking for an
  identifier that is not a block throws. \<open>None\<close> is the throw.
\<close>

definition get_block :: "(nat \<rightharpoonup> SPIRBlock) \<Rightarrow> nat \<Rightarrow> SPIRBlock option" where
  "get_block compiler block_id = (if block_id = 0 then None else compiler block_id)"

section \<open>The state of a CFG\<close>

text \<open>
  The hash maps of the class are partial maps. \<open>visit_order\<close> holds C++ \<open>int\<close>s;
  \<open>visit_count\<close> is incremented once for each block that finishes, so it stays far below
  the range where the \<open>uint32_t\<close> counter or its conversion to \<open>int\<close> would wrap, and is a
  \<open>nat\<close> here. The references \<open>compiler\<close> and \<open>func\<close> are constant; the functions below
  take the block store and the entry block as parameters.
\<close>

record CFG =
  visit_order :: "nat \<rightharpoonup> int"
  post_order :: "nat list"
  visit_count :: nat
  preceding_edges :: "nat \<rightharpoonup> nat list"
  succeeding_edges :: "nat \<rightharpoonup> nat list"
  immediate_dominators :: "nat \<rightharpoonup> nat"

text \<open>
  Modelled from the spec: a \<open>visit_order\<close> entry that \<open>operator[]\<close> creates starts out
  negative ("absent = unvisited"); the default value itself is declared in the header.
  \<open>visit_order_or_default\<close> is the value \<open>visit_order[block_id].get()\<close> reads.
\<close>

definition visit_order_or_default :: "CFG \<Rightarrow> nat \<Rightarrow> int" where
  "visit_order_or_default cfg block_id =
     (case visit_order cfg block_id of None \<Rightarrow> - 1 | Some v \<Rightarrow> v)"

text \<open>
  Modelled from the spec: \<open>get_visit_order\<close> and \<open>get_immediate_dominator\<close> are inline
  members of the header. The first asserts that the block was visited and finished, the
  second answers 0 ("none") for a block without an entry.
\<close>

definition get_visit_order :: "CFG \<Rightarrow> nat \<Rightarrow> error + nat" where
  "get_visit_order cfg block_id =
     (case visit_order cfg block_id of
        None \<Rightarrow> Inl VisitOrderAssert
      | Some v \<Rightarrow> if 0 < v then Inr (nat v) else Inl VisitOrderAssert)"

definition get_immediate_dominator :: "CFG \<Rightarrow> nat \<Rightarrow> nat" where
  "get_immediate_dominator cfg block_id =
     (case immediate_dominators cfg block_id of None \<Rightarrow> 0 | Some d \<Rightarrow> d)"

text \<open>Reading \<open>m[k]\<close> from an edge map: a missing key reads as the empty list.\<close>

definition edges_of :: "(nat \<rightharpoonup> nat list) \<Rightarrow> nat \<Rightarrow> nat list" where
  "edges_of m k = (case m k of None \<Rightarrow> [] | Some l \<Rightarrow> l)"

section \<open>CFG::find_common_dominator\<close>

text \<open>
  The \<open>while\<close> loop need not terminate on an arbitrary state, so the model takes fuel:
  one unit for each iteration. The loop test itself costs nothing.
\<close>

fun find_common_dominator :: "nat \<Rightarrow> CFG \<Rightarrow> nat \<Rightarrow> nat \<Rightarrow> error + nat" where
  "find_common_dominator 0 cfg a b = (if a = b then Inr a else Inl OutOfFuel)"
| "find_common_dominator (Suc fuel) cfg a b =
     (if a = b then Inr a
      else case get_visit_order cfg a of
        Inl e \<Rightarrow> Inl e
      | Inr va \<Rightarrow>
         (case get_visit_order cfg b of
            Inl e \<Rightarrow> Inl e
          | Inr vb \<Rightarrow>
             if va < vb
             then find_common_dominator fuel cfg (get_immediate_dominator cfg a) b
             else find_common_dominator fuel cfg a (get_immediate_dominator cfg b)))"

section \<open>CFG::add_branch\<close>

definition add_unique :: "nat list \<Rightarrow> nat \<Rightarrow> nat list" where
  "add_unique l v = (if v \<in> set l then l else l @ [v])"

definition add_branch :: "CFG \<Rightarrow> nat \<Rightarrow> nat \<Rightarrow> CFG" where
  "add_branch cfg from_id to_id =
     (let cfg1 = cfg\<lparr>preceding_edges := (preceding_edges cfg)
                   (to_id \<mapsto> add_unique (edges_of (preceding_edges cfg) to_id) from_id)\<rparr>
      in cfg1\<lparr>succeeding_edges := (succeeding_edges cfg1)
                   (from_id \<mapsto> add_unique (edges_of (succeeding_edges cfg1) from_id) to_id)\<rparr>)"

section \<open>CFG::is_back_edge and CFG::post_order_visit\<close>

definition is_back_edge :: "CFG \<Rightarrow> nat \<Rightarrow> error + bool" where
  "is_back_edge cfg to_id =
     (case visit_order cfg to_id of
        None \<Rightarrow> Inl BackEdgeAssert
      | Some v \<Rightarrow> Inr (v = 0))"

text \<open>The last three statements of \<open>post_order_visit\<close>: number the block and append it.\<close>

definition finish_block :: "CFG \<Rightarrow> nat \<Rightarrow> CFG" where
  "finish_block cfg block_id =
     cfg\<lparr>visit_count := Suc (visit_count cfg),
         visit_order := (visit_order cfg)(block_id \<mapsto> int (Suc (visit_count cfg))),
         post_order := post_order cfg @ [block_id]\<rparr>"

text \<open>
  The recursion is bounded by fuel: one unit for each nested call. \<open>visit_cases\<close> is the
  \<open>for\<close> loop over \<open>block.cases\<close>. Reading \<open>visit_order[block_id]\<close> creates a negative entry
  when there is none; the function either returns at once (the entry existed) or
  overwrites that entry with 0, so the fresh entry is never seen.
\<close>

fun post_order_visit :: "nat \<Rightarrow> (nat \<rightharpoonup> SPIRBlock) \<Rightarrow> CFG \<Rightarrow> nat \<Rightarrow> error + (bool \<times> CFG)"
  and visit_cases ::
    "nat \<Rightarrow> (nat \<rightharpoonup> SPIRBlock) \<Rightarrow> CFG \<Rightarrow> nat \<Rightarrow> (nat \<times> nat) list \<Rightarrow> error + CFG"
where
  "post_order_visit 0 compiler cfg block_id = Inl OutOfFuel"
| "post_order_visit (Suc fuel) compiler cfg block_id =
     (if 0 \<le> visit_order_or_default cfg block_id
      then (case is_back_edge cfg block_id of
              Inl e \<Rightarrow> Inl e
            | Inr back \<Rightarrow> Inr (\<not> back, cfg))
      else
        let cfg0 = cfg\<lparr>visit_order := (visit_order cfg)(block_id \<mapsto> 0)\<rparr> in
        case get_block compiler block_id of
          None \<Rightarrow> Inl BadBlock
        | Some block \<Rightarrow>
           (case
              (case terminator block of
                 Direct \<Rightarrow>
                   (case post_order_visit fuel compiler cfg0 (next_block block) of
                      Inl e \<Rightarrow> Inl e
                    | Inr (ok, cfg1) \<Rightarrow>
                        Inr (if ok then add_branch cfg1 block_id (next_block block) else cfg1))
               | Select \<Rightarrow>
                   (case post_order_visit fuel compiler cfg0 (true_block block) of
                      Inl e \<Rightarrow> Inl e
                    | Inr (ok, cfg1) \<Rightarrow>
                       (case post_order_visit fuel compiler
                               (if ok then add_branch cfg1 block_id (true_block block) else cfg1)
                               (false_block block) of
                          Inl e \<Rightarrow> Inl e
                        | Inr (ok2, cfg2) \<Rightarrow>
                            Inr (if ok2 then add_branch cfg2 block_id (false_block block)
                                 else cfg2)))
               | MultiSelect \<Rightarrow>
                   (case visit_cases fuel compiler cfg0 block_id (cases block) of
                      Inl e \<Rightarrow> Inl e
                    | Inr cfg1 \<Rightarrow>
                        if default_block block \<noteq> 0
                        then (case post_order_visit fuel compiler cfg1 (default_block block) of
                                Inl e \<Rightarrow> Inl e
                              | Inr (ok, cfg2) \<Rightarrow>
                                  Inr (if ok then add_branch cfg2 block_id (default_block block)
                                       else cfg2))
                        else Inr cfg1)
               | OtherTerminator \<Rightarrow> Inr cfg0)
            of
              Inl e \<Rightarrow> Inl e
            | Inr cfg3 \<Rightarrow>
                Inr (True,
                     finish_block
                       (if merge block = MergeLoop
                        then add_branch cfg3 block_id (merge_block block)
                        else cfg3)
                       block_id)))"
| "visit_cases fuel compiler cfg block_id [] = Inr cfg"
| "visit_cases fuel compiler cfg block_id (target # rest) =
     (case post_order_visit fuel compiler cfg (snd target) of
        Inl e \<Rightarrow> Inl e
      | Inr (ok, cfg1) \<Rightarrow>
          visit_cases fuel compiler
            (if ok then add_branch cfg1 block_id (snd target) else cfg1) block_id rest)"

section \<open>CFG::build_post_order_visit_order\<close>

text \<open>
  The constructor runs on a fresh object: every map is empty. The function clears
  \<open>visit_order\<close> and \<open>post_order\<close> and resets the counter; a boolean result of the visit
  is dropped.
\<close>

definition empty_CFG :: CFG where
  "empty_CFG = \<lparr>visit_order = Map.empty, post_order = [], visit_count = 0,
                preceding_edges = Map.empty, succeeding_edges = Map.empty,
                immediate_dominators = Map.empty\<rparr>"

definition build_post_order_visit_order ::
  "nat \<Rightarrow> (nat \<rightharpoonup> SPIRBlock) \<Rightarrow> nat \<Rightarrow> CFG \<Rightarrow> error + CFG" where
  "build_post_order_visit_order fuel compiler entry_block cfg =
     (case post_order_visit fuel compiler
             (cfg\<lparr>visit_count := 0, visit_order := Map.empty, post_order := []\<rparr>)
             entry_block of
        Inl e \<Rightarrow> Inl e
      | Inr (ok, cfg1) \<Rightarrow> Inr cfg1)"

section \<open>CFG::build_immediate_dominators\<close>

text \<open>
  \<open>fold_preds\<close> is the inner loop over the predecessors of one block. The \<open>assert\<close> is a
  branch of the model. \<open>immediate_dominators[block]\<close> creates an entry 0 when there is
  none; both branches then store into it, so only the stored value is kept.
\<close>

fun fold_preds :: "nat \<Rightarrow> CFG \<Rightarrow> nat \<Rightarrow> nat list \<Rightarrow> error + CFG" where
  "fold_preds fuel cfg block_id [] = Inr cfg"
| "fold_preds fuel cfg block_id (edge # rest) =
     (if get_immediate_dominator cfg block_id \<noteq> 0
      then (if get_immediate_dominator cfg edge = 0 then Inl DominatorAssert
            else case find_common_dominator fuel cfg block_id edge of
              Inl e \<Rightarrow> Inl e
            | Inr d \<Rightarrow>
                fold_preds fuel
                  (cfg\<lparr>immediate_dominators := (immediate_dominators cfg)(block_id \<mapsto> d)\<rparr>)
                  block_id rest)
      else fold_preds fuel
             (cfg\<lparr>immediate_dominators := (immediate_dominators cfg)(block_id \<mapsto> edge)\<rparr>)
             block_id rest)"

text \<open>
  \<open>dominator_loop\<close> is the outer loop; it is handed the blocks in the order the loop
  reads them, \<open>post_order[size - 1]\<close> first. \<open>preceding_edges[block]\<close> creates an empty
  list for a block that has none.
\<close>

fun dominator_loop :: "nat \<Rightarrow> CFG \<Rightarrow> nat list \<Rightarrow> error + CFG" where
  "dominator_loop fuel cfg [] = Inr cfg"
| "dominator_loop fuel cfg (block_id # rest) =
     (let cfg1 = cfg\<lparr>preceding_edges := (preceding_edges cfg)
                   (block_id \<mapsto> edges_of (preceding_edges cfg) block_id)\<rparr>;
          pred = edges_of (preceding_edges cfg1) block_id
      in if pred = [] then dominator_loop fuel cfg1 rest
         else case fold_preds fuel cfg1 block_id pred of
           Inl e \<Rightarrow> Inl e
         | Inr cfg2 \<Rightarrow> dominator_loop fuel cfg2 rest)"

definition build_immediate_dominators :: "nat \<Rightarrow> nat \<Rightarrow> CFG \<Rightarrow> error + CFG" where
  "build_immediate_dominators fuel entry_block cfg =
     dominator_loop fuel
       (cfg\<lparr>immediate_dominators := [entry_block \<mapsto> entry_block]\<rparr>)
       (rev (post_order cfg))"

section \<open>CFG::CFG, the constructor\<close>

definition CFG_build :: "nat \<Rightarrow> (nat \<rightharpoonup> SPIRBlock) \<Rightarrow> nat \<Rightarrow> error + CFG" where
  "CFG_build fuel compiler entry_block =
     (case build_post_order_visit_order fuel compiler entry_block empty_CFG of
        Inl e \<Rightarrow> Inl e
      | Inr cfg \<Rightarrow> build_immediate_dominators fuel entry_block cfg)"

section \<open>DominatorBuilder\<close>

record DominatorBuilder =
  dominator :: nat

definition add_block :: "nat \<Rightarrow> CFG \<Rightarrow> DominatorBuilder \<Rightarrow> nat \<Rightarrow> error + DominatorBuilder" where
  "add_block fuel cfg builder block_id =
     (if get_immediate_dominator cfg block_id = 0 then Inr builder
      else if dominator builder = 0 then Inr (builder\<lparr>dominator := block_id\<rparr>)
      else if block_id \<noteq> dominator builder
      then (case find_common_dominator fuel cfg block_id (dominator builder) of
              Inl e \<Rightarrow> Inl e
            | Inr d \<Rightarrow> Inr (builder\<lparr>dominator := d\<rparr>))
      else Inr builder)"

text \<open>
  \<open>lift_cases\<close> is the loop over \<open>block.cases\<close> in \<open>lift_continue_block_dominator\<close>; the
  flag \<open>back_edge_dominator\<close> is threaded through. Every target's visit order is read,
  whether or not the flag is already set.
\<close>

fun lift_cases :: "CFG \<Rightarrow> nat \<Rightarrow> bool \<Rightarrow> (nat \<times> nat) list \<Rightarrow> error + bool" where
  "lift_cases cfg order flag [] = Inr flag"
| "lift_cases cfg order flag (target # rest) =
     (case get_visit_order cfg (snd target) of
        Inl e \<Rightarrow> Inl e
      | Inr v \<Rightarrow> lift_cases cfg order (if order < v then True else flag) rest)"

definition lift_continue_block_dominator ::
  "(nat \<rightharpoonup> SPIRBlock) \<Rightarrow> nat \<Rightarrow> CFG \<Rightarrow> DominatorBuilder \<Rightarrow> error + DominatorBuilder" where
  "lift_continue_block_dominator compiler entry_block cfg builder =
     (if dominator builder = 0 then Inr builder
      else case get_block compiler (dominator builder) of
        None \<Rightarrow> Inl BadBlock
      | Some block \<Rightarrow>
         (case get_visit_order cfg (dominator builder) of
            Inl e \<Rightarrow> Inl e
          | Inr order \<Rightarrow>
             (case
                (case terminator block of
                   Direct \<Rightarrow>
                     (case get_visit_order cfg (next_block block) of
                        Inl e \<Rightarrow> Inl e
                      | Inr v \<Rightarrow> Inr (if order < v then True else False))
                 | Select \<Rightarrow>
                     (case get_visit_order cfg (true_block block) of
                        Inl e \<Rightarrow> Inl e
                      | Inr v \<Rightarrow>
                         (case get_visit_order cfg (false_block block) of
                            Inl e \<Rightarrow> Inl e
                          | Inr w \<Rightarrow>
                              Inr (if order < w then True
                                   else (if order < v then True else False))))
                 | MultiSelect \<Rightarrow>
                     (case lift_cases cfg order False (cases block) of
                        Inl e \<Rightarrow> Inl e
                      | Inr flag \<Rightarrow>
                          if default_block block \<noteq> 0
                          then (case get_visit_order cfg (default_block block) of
                                  Inl e \<Rightarrow> Inl e
                                | Inr v \<Rightarrow> Inr (if order < v then True else flag))
                          else Inr flag)
                 | OtherTerminator \<Rightarrow> Inr False)
              of
                Inl e \<Rightarrow> Inl e
              | Inr back_edge_dominator \<Rightarrow>
                  Inr (if back_edge_dominator then builder\<lparr>dominator := entry_block\<rparr>
                       else builder))))"

section \<open>Notions used to state the properties\<close>

text \<open>
  The branch targets of a block's terminator, in the order both \<open>switch\<close> statements of
  the source read them.
\<close>

definition branch_targets :: "SPIRBlock \<Rightarrow> nat list" where
  "branch_targets block =
     (case terminator block of
        Direct \<Rightarrow> [next_block block]
      | Select \<Rightarrow> [true_block block, false_block block]
      | MultiSelect \<Rightarrow>
          map snd (cases block) @ (if default_block block \<noteq> 0 then [default_block block] else [])
      | OtherTerminator \<Rightarrow> [])"

text \<open>The finishing index of a block, 0 when \<open>get_visit_order\<close> would assert.\<close>

definition order_of :: "CFG \<Rightarrow> nat \<Rightarrow> nat" where
  "order_of cfg block_id = (case get_visit_order cfg block_id of Inl e \<Rightarrow> 0 | Inr v \<Rightarrow> v)"

section \<open>Example inputs\<close>

definition make_block ::
  "Terminator \<Rightarrow> Merge \<Rightarrow> nat \<Rightarrow> nat \<Rightarrow> nat \<Rightarrow> nat \<Rightarrow> SPIRBlock" where
  "make_block t m nb mb tb fb =
     \<lparr>terminator = t, merge = m, next_block = nb, merge_block = mb,
      true_block = tb, false_block = fb, cases = [], default_block = 0\<rparr>"

text \<open>
  A do/while loop: entry 1 jumps to the loop header 2 (merge block 4), the header jumps to
  the body 3, and the body branches back to 2 or leaves to 4.
\<close>

definition do_while_blocks :: "nat \<rightharpoonup> SPIRBlock" where
  "do_while_blocks =
     [1 \<mapsto> make_block Direct MergeNone 2 0 0 0,
      2 \<mapsto> make_block Direct MergeLoop 3 4 0 0,
      3 \<mapsto> make_block Select MergeNone 0 0 2 4,
      4 \<mapsto> make_block OtherTerminator MergeNone 0 0 0 0]"

section \<open>The traversal as a relation\<close>

text \<open>
  Every terminator makes \<open>post_order_visit\<close> do the same thing with each of its branch
  targets in turn: visit it, and record the edge when the visit answers true.
  \<open>visit_targets\<close> is that loop over a list of targets.
\<close>

primrec visit_targets ::
  "nat \<Rightarrow> (nat \<rightharpoonup> SPIRBlock) \<Rightarrow> CFG \<Rightarrow> nat \<Rightarrow> nat list \<Rightarrow> error + CFG" where
  "visit_targets fuel compiler cfg block_id [] = Inr cfg"
| "visit_targets fuel compiler cfg block_id (t # ts) =
     (case post_order_visit fuel compiler cfg t of
        Inl e \<Rightarrow> Inl e
      | Inr (ok, cfg1) \<Rightarrow>
          visit_targets fuel compiler
            (if ok then add_branch cfg1 block_id t else cfg1) block_id ts)"

definition mark_block :: "CFG \<Rightarrow> nat \<Rightarrow> CFG" where
  "mark_block cfg block_id = cfg\<lparr>visit_order := (visit_order cfg)(block_id \<mapsto> 0)\<rparr>"

definition loop_merge_edge :: "CFG \<Rightarrow> nat \<Rightarrow> SPIRBlock \<Rightarrow> CFG" where
  "loop_merge_edge cfg block_id block =
     (if merge block = MergeLoop then add_branch cfg block_id (merge_block block) else cfg)"

text \<open>
  The calls that return, as a relation without fuel: \<open>visits compiler cfg b ts cfg'\<close> holds
  when block \<open>b\<close>, being visited in state \<open>cfg\<close>, works through the targets \<open>ts\<close> and ends
  in state \<open>cfg'\<close>. A target is in progress (a back edge, nothing recorded), finished (the
  edge is recorded, no recursion) or new (it is marked, its own targets are worked
  through, the implied loop edge is added, it is numbered, and the edge to it recorded).
\<close>

inductive visits :: "(nat \<rightharpoonup> SPIRBlock) \<Rightarrow> CFG \<Rightarrow> nat \<Rightarrow> nat list \<Rightarrow> CFG \<Rightarrow> bool"
  for compiler :: "nat \<rightharpoonup> SPIRBlock" where
  visits_Nil: "visits compiler cfg b [] cfg"
| visits_back:
    "visit_order cfg t = Some 0 \<Longrightarrow> visits compiler cfg b ts cfg' \<Longrightarrow>
     visits compiler cfg b (t # ts) cfg'"
| visits_cross:
    "visit_order cfg t = Some v \<Longrightarrow> 0 < v \<Longrightarrow>
     visits compiler (add_branch cfg b t) b ts cfg' \<Longrightarrow>
     visits compiler cfg b (t # ts) cfg'"
| visits_fresh:
    "visit_order_or_default cfg t < 0 \<Longrightarrow> get_block compiler t = Some block \<Longrightarrow>
     visits compiler (mark_block cfg t) t (branch_targets block) cfg1 \<Longrightarrow>
     visits compiler (add_branch (finish_block (loop_merge_edge cfg1 t block) t) b t) b ts cfg' \<Longrightarrow>
     visits compiler cfg b (t # ts) cfg'"

section \<open>Invariants of the traversal\<close>

text \<open>
  An edge from \<open>f\<close> to \<open>t\<close> is forward when \<open>t\<close> is finished and \<open>f\<close> is still in progress or
  finished later; it is a loop edge when \<open>f\<close> is a loop header with merge block \<open>t\<close>.
\<close>

definition forward_edge :: "CFG \<Rightarrow> nat \<Rightarrow> nat \<Rightarrow> bool" where
  "forward_edge cfg f t \<longleftrightarrow>
     (\<exists>vt vf. visit_order cfg t = Some vt \<and> visit_order cfg f = Some vf \<and>
        0 < vt \<and> (vf = 0 \<or> vt < vf))"

definition is_loop_edge :: "(nat \<rightharpoonup> SPIRBlock) \<Rightarrow> nat \<Rightarrow> nat \<Rightarrow> bool" where
  "is_loop_edge compiler f t =
     (case get_block compiler f of
        None \<Rightarrow> False
      | Some block \<Rightarrow> merge block = MergeLoop \<and> merge_block block = t)"

text \<open>
  The invariant of the traversal, in pieces: the numbering of the finished blocks; every
  block that was entered is a block of the store; the two edge maps mirror each other
  and hold no duplicates; every finished loop header has its implied edge; every
  recorded edge is a loop edge or a forward edge; every finished block has a predecessor
  that finishes later.
\<close>

definition numbering_ok :: "CFG \<Rightarrow> bool" where
  "numbering_ok cfg \<longleftrightarrow>
     visit_count cfg = length (post_order cfg) \<and> distinct (post_order cfg) \<and>
     (\<forall>i < length (post_order cfg).
        visit_order cfg (post_order cfg ! i) = Some (int (Suc i))) \<and>
     (\<forall>b v. visit_order cfg b = Some v \<longrightarrow> v = 0 \<or> b \<in> set (post_order cfg))"

definition blocks_ok :: "(nat \<rightharpoonup> SPIRBlock) \<Rightarrow> CFG \<Rightarrow> bool" where
  "blocks_ok compiler cfg \<longleftrightarrow>
     (\<forall>b. visit_order cfg b \<noteq> None \<longrightarrow> get_block compiler b \<noteq> None)"

definition edges_ok :: "CFG \<Rightarrow> bool" where
  "edges_ok cfg \<longleftrightarrow>
     (\<forall>x y. y \<in> set (edges_of (succeeding_edges cfg) x) \<longleftrightarrow>
            x \<in> set (edges_of (preceding_edges cfg) y)) \<and>
     (\<forall>x. distinct (edges_of (succeeding_edges cfg) x)) \<and>
     (\<forall>x. distinct (edges_of (preceding_edges cfg) x))"

definition loops_ok :: "(nat \<rightharpoonup> SPIRBlock) \<Rightarrow> CFG \<Rightarrow> bool" where
  "loops_ok compiler cfg \<longleftrightarrow>
     (\<forall>b \<in> set (post_order cfg). \<forall>t. is_loop_edge compiler b t \<longrightarrow>
        t \<in> set (edges_of (succeeding_edges cfg) b))"

definition edge_kinds_ok :: "(nat \<rightharpoonup> SPIRBlock) \<Rightarrow> CFG \<Rightarrow> bool" where
  "edge_kinds_ok compiler cfg \<longleftrightarrow>
     (\<forall>f t. t \<in> set (edges_of (succeeding_edges cfg) f) \<longrightarrow>
        visit_order cfg f \<noteq> None \<and> (is_loop_edge compiler f t \<or> forward_edge cfg f t))"

definition later_pred :: "CFG \<Rightarrow> nat \<Rightarrow> bool" where
  "later_pred cfg b \<longleftrightarrow>
     (\<exists>x \<in> set (edges_of (preceding_edges cfg) b). forward_edge cfg x b)"

definition later_ok :: "CFG \<Rightarrow> bool" where
  "later_ok cfg \<longleftrightarrow> (\<forall>b \<in> set (post_order cfg). later_pred cfg b)"

definition dfs_inv :: "(nat \<rightharpoonup> SPIRBlock) \<Rightarrow> CFG \<Rightarrow> bool" where
  "dfs_inv compiler cfg \<longleftrightarrow>
     numbering_ok cfg \<and> blocks_ok compiler cfg \<and> edges_ok cfg \<and>
     loops_ok compiler cfg \<and> edge_kinds_ok compiler cfg"

definition same_in_progress :: "CFG \<Rightarrow> CFG \<Rightarrow> bool" where
  "same_in_progress cfg cfg' \<longleftrightarrow>
     (\<forall>x. visit_order cfg' x = Some 0 \<longleftrightarrow> visit_order cfg x = Some 0)"

definition grows :: "CFG \<Rightarrow> CFG \<Rightarrow> bool" where
  "grows cfg cfg' \<longleftrightarrow>
     (\<exists>new. post_order cfg' = post_order cfg @ new) \<and>
     (\<forall>x. visit_order cfg x \<noteq> None \<longrightarrow> visit_order cfg' x \<noteq> None)"

text \<open>What holds when the traversal from the entry block has returned.\<close>

definition dfs_done :: "(nat \<rightharpoonup> SPIRBlock) \<Rightarrow> nat \<Rightarrow> CFG \<Rightarrow> bool" where
  "dfs_done compiler entry_block cfg \<longleftrightarrow>
     dfs_inv compiler cfg \<and>
     (\<forall>x. visit_order cfg x \<noteq> Some 0) \<and>
     post_order cfg \<noteq> [] \<and> last (post_order cfg) = entry_block \<and>
     (\<forall>x \<in> set (post_order cfg). x \<noteq> entry_block \<longrightarrow> later_pred cfg x) \<and>
     (\<forall>x \<in> set (post_order cfg). \<forall>block. get_block compiler x = Some block \<longrightarrow>
        (\<forall>t \<in> set (branch_targets block). visit_order cfg t \<noteq> None))"

text \<open>The closure of the finished blocks under branch targets, as a traversal invariant.\<close>

definition targets_ok :: "(nat \<rightharpoonup> SPIRBlock) \<Rightarrow> CFG \<Rightarrow> bool" where
  "targets_ok compiler cfg \<longleftrightarrow>
     (\<forall>x \<in> set (post_order cfg). \<forall>block. get_block compiler x = Some block \<longrightarrow>
        (\<forall>t \<in> set (branch_targets block). visit_order cfg t \<noteq> None))"

text \<open>
  Two more invariants of the traversal: a block in progress has recorded forward edges
  only, and the predecessor recorded last for a finished block finishes later than the
  block.
\<close>

definition open_ok :: "CFG \<Rightarrow> bool" where
  "open_ok cfg \<longleftrightarrow>
     (\<forall>f t. t \<in> set (edges_of (succeeding_edges cfg) f) \<longrightarrow> visit_order cfg f = Some 0 \<longrightarrow>
        forward_edge cfg f t)"

definition last_later :: "CFG \<Rightarrow> nat \<Rightarrow> bool" where
  "last_later cfg b \<longleftrightarrow>
     edges_of (preceding_edges cfg) b \<noteq> [] \<and>
     forward_edge cfg (last (edges_of (preceding_edges cfg) b)) b"

definition last_ok :: "CFG \<Rightarrow> bool" where
  "last_ok cfg \<longleftrightarrow> (\<forall>b \<in> set (post_order cfg). last_later cfg b)"

section \<open>The flow graph of a block store\<close>

text \<open>
  The flow graph of a block store. A target edge leads from a block to a branch target
  of its terminator; a flow edge is a target edge or the implied edge of a loop header
  to its merge block. A path is a list of blocks with an edge from each one to the next.
\<close>

definition target_edge :: "(nat \<rightharpoonup> SPIRBlock) \<Rightarrow> nat \<Rightarrow> nat \<Rightarrow> bool" where
  "target_edge compiler f t =
     (case get_block compiler f of
        None \<Rightarrow> False
      | Some block \<Rightarrow> t \<in> set (branch_targets block))"

definition flow_edge :: "(nat \<rightharpoonup> SPIRBlock) \<Rightarrow> nat \<Rightarrow> nat \<Rightarrow> bool" where
  "flow_edge compiler f t \<longleftrightarrow> target_edge compiler f t \<or> is_loop_edge compiler f t"

fun path_in :: "(nat \<Rightarrow> nat \<Rightarrow> bool) \<Rightarrow> nat list \<Rightarrow> bool" where
  "path_in r [] = True"
| "path_in r [x] = True"
| "path_in r (x # y # ys) = (r x y \<and> path_in r (y # ys))"

text \<open>
  Block \<open>x\<close> is reachable from the entry block \<open>e\<close> when a path of target edges leads from
  \<open>e\<close> to \<open>x\<close>. The flow graph of the function with entry block \<open>e\<close> has the reachable
  blocks and the flow edges between them, the live edges: a block that no path of
  target edges reaches is never visited, whatever implied edge leads to it. Block \<open>h\<close>
  dominates block \<open>x\<close> when every path of live edges from \<open>e\<close> to \<open>x\<close> passes through \<open>h\<close>.
\<close>

definition reaches :: "(nat \<rightharpoonup> SPIRBlock) \<Rightarrow> nat \<Rightarrow> nat \<Rightarrow> bool" where
  "reaches compiler e x \<longleftrightarrow>
     (\<exists>p. p \<noteq> [] \<and> hd p = e \<and> last p = x \<and> path_in (target_edge compiler) p)"

definition live_edge :: "(nat \<rightharpoonup> SPIRBlock) \<Rightarrow> nat \<Rightarrow> nat \<Rightarrow> nat \<Rightarrow> bool" where
  "live_edge compiler e f t \<longleftrightarrow>
     reaches compiler e f \<and> reaches compiler e t \<and> flow_edge compiler f t"

definition dominates :: "(nat \<rightharpoonup> SPIRBlock) \<Rightarrow> nat \<Rightarrow> nat \<Rightarrow> nat \<Rightarrow> bool" where
  "dominates compiler e h x \<longleftrightarrow>
     (\<forall>p. p \<noteq> [] \<and> hd p = e \<and> last p = x \<and> path_in (live_edge compiler e) p \<longrightarrow> h \<in> set p)"

text \<open>
  Further pieces of the traversal invariant: every recorded edge is a flow edge of the
  store; every block that was entered is reachable; every branch target of a finished
  block is recorded as its successor unless the target was in progress when the block
  looked at it (it is then still in progress or has finished no earlier than the block);
  every dominator of a finished block is in progress or has finished after the block.
\<close>

definition flow_ok :: "(nat \<rightharpoonup> SPIRBlock) \<Rightarrow> CFG \<Rightarrow> bool" where
  "flow_ok compiler cfg \<longleftrightarrow>
     (\<forall>f t. t \<in> set (edges_of (succeeding_edges cfg) f) \<longrightarrow> flow_edge compiler f t)"

definition entered_ok :: "(nat \<rightharpoonup> SPIRBlock) \<Rightarrow> nat \<Rightarrow> CFG \<Rightarrow> bool" where
  "entered_ok compiler e cfg \<longleftrightarrow> (\<forall>x. visit_order cfg x \<noteq> None \<longrightarrow> reaches compiler e x)"

definition complete_ok :: "(nat \<rightharpoonup> SPIRBlock) \<Rightarrow> CFG \<Rightarrow> bool" where
  "complete_ok compiler cfg \<longleftrightarrow>
     (\<forall>x \<in> set (post_order cfg). \<forall>t. target_edge compiler x t \<longrightarrow>
        t \<in> set (edges_of (succeeding_edges cfg) x) \<or> visit_order cfg t = Some 0 \<or>
        (\<exists>vt vx. visit_order cfg t = Some vt \<and> visit_order cfg x = Some vx \<and> vx \<le> vt))"

definition dom_later :: "(nat \<rightharpoonup> SPIRBlock) \<Rightarrow> nat \<Rightarrow> CFG \<Rightarrow> bool" where
  "dom_later compiler e cfg \<longleftrightarrow>
     (\<forall>x m. dominates compiler e x m \<longrightarrow> x \<noteq> m \<longrightarrow> m \<in> set (post_order cfg) \<longrightarrow>
        visit_order cfg x = Some 0 \<or>
        (\<exists>vx vm. visit_order cfg x = Some vx \<and> visit_order cfg m = Some vm \<and> vm < vx))"

text \<open>
  The blocks in progress hold a path of live edges from the entry block to the block
  that is being visited.
\<close>

definition on_stack :: "(nat \<rightharpoonup> SPIRBlock) \<Rightarrow> nat \<Rightarrow> CFG \<Rightarrow> nat \<Rightarrow> bool" where
  "on_stack compiler e cfg b \<longleftrightarrow>
     (\<exists>p. p \<noteq> [] \<and> hd p = e \<and> last p = b \<and> path_in (live_edge compiler e) p \<and>
        (\<forall>y \<in> set p. visit_order cfg y = Some 0 \<and> reaches compiler e y))"

section \<open>Invariants of the dominator pass\<close>

text \<open>
  A dominator map leads upwards when every entry points to a block that has an entry
  itself and, unless it points to its own block, a larger visit order.
\<close>

definition dom_tree :: "CFG \<Rightarrow> bool" where
  "dom_tree c \<longleftrightarrow>
     (\<forall>p q. immediate_dominators c p = Some q \<longrightarrow>
        immediate_dominators c q \<noteq> None \<and> (q = p \<or> order_of c p < order_of c q))"

text \<open>
  While the predecessors of block \<open>b\<close> are folded: the entries of all other blocks lead
  upwards and belong to blocks that finished after \<open>b\<close>, and all of those have one. The
  entry of \<open>b\<close> is settled when it is \<open>b\<close> itself or a block with an entry.
\<close>

definition fold_inv :: "CFG \<Rightarrow> nat \<Rightarrow> bool" where
  "fold_inv c b \<longleftrightarrow>
     (\<forall>p q. immediate_dominators c p = Some q \<longrightarrow> p \<noteq> b \<longrightarrow>
        order_of c b < order_of c p \<and> immediate_dominators c q \<noteq> None \<and>
        (q = p \<or> order_of c p < order_of c q)) \<and>
     (\<forall>p. order_of c b < order_of c p \<longrightarrow> immediate_dominators c p \<noteq> None) \<and>
     0 < order_of c b \<and> order_of c 0 = 0"

definition settled :: "CFG \<Rightarrow> nat \<Rightarrow> bool" where
  "settled c b \<longleftrightarrow>
     (\<exists>q. immediate_dominators c b = Some q \<and> q \<noteq> 0 \<and>
        (q = b \<or> immediate_dominators c q \<noteq> None))"

definition fold_frame :: "CFG \<Rightarrow> CFG \<Rightarrow> nat \<Rightarrow> bool" where
  "fold_frame c c' b \<longleftrightarrow>
     visit_order c' = visit_order c \<and> post_order c' = post_order c \<and>
     visit_count c' = visit_count c \<and>
     preceding_edges c' = preceding_edges c \<and> succeeding_edges c' = succeeding_edges c \<and>
     (\<forall>p. p \<noteq> b \<longrightarrow> immediate_dominators c' p = immediate_dominators c p)"

text \<open>
  Between two rounds of the outer loop, with the blocks of visit order above \<open>k\<close> done:
  exactly those blocks have an entry, and the map leads upwards.
\<close>

definition loop_inv :: "CFG \<Rightarrow> nat \<Rightarrow> bool" where
  "loop_inv c k \<longleftrightarrow>
     (\<forall>p q. immediate_dominators c p = Some q \<longrightarrow>
        k < order_of c p \<and> q \<noteq> 0 \<and> immediate_dominators c q \<noteq> None \<and>
        (q = p \<or> order_of c p < order_of c q)) \<and>
     (\<forall>p. k < order_of c p \<longrightarrow> immediate_dominators c p \<noteq> None)"

definition same_graph :: "CFG \<Rightarrow> CFG \<Rightarrow> bool" where
  "same_graph d c \<longleftrightarrow>
     visit_order c = visit_order d \<and> post_order c = post_order d \<and>
     visit_count c = visit_count d \<and>
     succeeding_edges c = succeeding_edges d \<and>
     (\<forall>x. edges_of (preceding_edges c) x = edges_of (preceding_edges d) x)"

text \<open>What holds of a CFG the constructor has returned.\<close>

definition cfg_done :: "(nat \<rightharpoonup> SPIRBlock) \<Rightarrow> nat \<Rightarrow> CFG \<Rightarrow> bool" where
  "cfg_done compiler e cfg \<longleftrightarrow>
     dfs_done compiler e cfg \<and> loop_inv cfg 0 \<and> immediate_dominators cfg e = Some e"

text \<open>
  The entries of all blocks but \<open>b\<close> lead strictly upwards, except at the top visit
  order \<open>n\<close>, which only the entry block has.
\<close>

definition strict_above :: "CFG \<Rightarrow> nat \<Rightarrow> nat \<Rightarrow> bool" where
  "strict_above c b n \<longleftrightarrow>
     (\<forall>p q. immediate_dominators c p = Some q \<longrightarrow> p \<noteq> b \<longrightarrow>
        order_of c p < order_of c q \<or> order_of c p = n)"

definition well_set :: "CFG \<Rightarrow> nat \<Rightarrow> bool" where
  "well_set c b \<longleftrightarrow>
     (\<exists>q. immediate_dominators c b = Some q \<and> order_of c b < order_of c q \<and>
        immediate_dominators c q \<noteq> None)"

section \<open>Closed block stores\<close>

text \<open>
  A block store is closed when it is finite and every branch target of each of its
  blocks is a block of the store again.
\<close>

definition closed_store :: "(nat \<rightharpoonup> SPIRBlock) \<Rightarrow> bool" where
  "closed_store compiler \<longleftrightarrow>
     finite (dom compiler) \<and>
     (\<forall>b block. get_block compiler b = Some block \<longrightarrow>
        (\<forall>t \<in> set (branch_targets block). get_block compiler t \<noteq> None))"

definition unentered :: "(nat \<rightharpoonup> SPIRBlock) \<Rightarrow> CFG \<Rightarrow> nat set" where
  "unentered compiler cfg = {b \<in> dom compiler. visit_order cfg b = None}"

definition nonneg :: "CFG \<Rightarrow> bool" where
  "nonneg cfg \<longleftrightarrow> (\<forall>b v. visit_order cfg b = Some v \<longrightarrow> 0 \<le> v)"

definition entered_kept :: "CFG \<Rightarrow> CFG \<Rightarrow> bool" where
  "entered_kept cfg cfg' \<longleftrightarrow> (\<forall>x. visit_order cfg x \<noteq> None \<longrightarrow> visit_order cfg' x \<noteq> None)"

section \<open>Dominator chains\<close>

text \<open>
  Block \<open>h\<close> is on the dominator chain of block \<open>x\<close> when following \<open>immediate_dominators\<close>
  from \<open>x\<close> leads to \<open>h\<close> in zero or more steps.
\<close>

definition idom_step :: "CFG \<Rightarrow> nat \<Rightarrow> nat \<Rightarrow> bool" where
  "idom_step c x y \<longleftrightarrow> immediate_dominators c x = Some y"

definition on_chain :: "CFG \<Rightarrow> nat \<Rightarrow> nat \<Rightarrow> bool" where
  "on_chain c h x \<longleftrightarrow> (idom_step c)\<^sup>*\<^sup>* x h"

text \<open>
  What the dominator pass computes for a block \<open>b\<close> other than the entry block: every
  recorded predecessor of \<open>b\<close> finished later than \<open>b\<close>, and the entry of \<open>b\<close> is the lowest
  block that is on the dominator chains of all of them.
\<close>

definition lca_ok :: "CFG \<Rightarrow> CFG \<Rightarrow> nat \<Rightarrow> bool" where
  "lca_ok d c b \<longleftrightarrow>
     (\<forall>x \<in> set (edges_of (preceding_edges d) b). order_of d b < order_of d x) \<and>
     (\<exists>q. immediate_dominators c b = Some q \<and>
        (\<forall>x \<in> set (edges_of (preceding_edges d) b). on_chain c q x) \<and>
        (\<forall>h. (\<forall>x \<in> set (edges_of (preceding_edges d) b). on_chain c h x) \<longrightarrow> on_chain c h q))"

text \<open>
  The entry of \<open>b\<close> is usable when it is not set yet, or names a block other than \<open>b\<close>
  that has an entry of its own.
\<close>

definition usable :: "CFG \<Rightarrow> nat \<Rightarrow> bool" where
  "usable c b \<longleftrightarrow>
     get_immediate_dominator c b = 0 \<or>
     (\<exists>q. immediate_dominators c b = Some q \<and> q \<noteq> 0 \<and> q \<noteq> b \<and>
        immediate_dominators c q \<noteq> None)"

text \<open>
  With the predecessors \<open>seen\<close> folded: nothing is set when there are none; otherwise the
  entry of \<open>b\<close> is on the chain of each of them, and below every block that is on all of
  these chains.
\<close>

definition folded :: "CFG \<Rightarrow> nat \<Rightarrow> nat list \<Rightarrow> bool" where
  "folded c b seen \<longleftrightarrow>
     (if seen = [] then get_immediate_dominator c b = 0
      else \<exists>q. immediate_dominators c b = Some q \<and> q \<noteq> 0 \<and> q \<noteq> b \<and>
             immediate_dominators c q \<noteq> None \<and>
             (\<forall>x \<in> set seen. on_chain c q x) \<and>
             (\<forall>h. (\<forall>x \<in> set seen. on_chain c h x) \<longrightarrow> on_chain c h q))"

section \<open>Structured loops\<close>

text \<open>
  The loops of a function are structured when every reachable loop header whose merge
  block is reachable is another block than its merge block and dominates it.
\<close>

definition structured_loops :: "(nat \<rightharpoonup> SPIRBlock) \<Rightarrow> nat \<Rightarrow> bool" where
  "structured_loops compiler e \<longleftrightarrow>
     (\<forall>h m. reaches compiler e h \<and> reaches compiler e m \<and> is_loop_edge compiler h m \<longrightarrow>
        h \<noteq> m \<and> dominates compiler e h m)"

text \<open>Everything that is known of the state once the traversal has returned.\<close>

definition dfs_full :: "(nat \<rightharpoonup> SPIRBlock) \<Rightarrow> nat \<Rightarrow> CFG \<Rightarrow> bool" where
  "dfs_full compiler e c \<longleftrightarrow>
     dfs_done compiler e c \<and> flow_ok compiler c \<and> entered_ok compiler e c \<and>
     complete_ok compiler c \<and> dom_later compiler e c"

section \<open>Further example inputs\<close>

definition do_while_cfg :: CFG where
  "do_while_cfg =
     (case CFG_build 10 do_while_blocks 1 of Inl e \<Rightarrow> empty_CFG | Inr cfg \<Rightarrow> cfg)"


text \<open>
  A do/while loop with a branching body: entry 1 jumps to the loop header 2 (merge block
  6), the header jumps to block 3, which selects between blocks 4 and 5; both jump to the
  last block of the body, 7, which branches back to 2 or leaves to 6.
\<close>

definition do_while_branch_blocks :: "nat \<rightharpoonup> SPIRBlock" where
  "do_while_branch_blocks =
     [1 \<mapsto> make_block Direct MergeNone 2 0 0 0,
      2 \<mapsto> make_block Direct MergeLoop 3 6 0 0,
      3 \<mapsto> make_block Select MergeSelection 0 7 4 5,
      4 \<mapsto> make_block Direct MergeNone 7 0 0 0,
      5 \<mapsto> make_block Direct MergeNone 7 0 0 0,
      7 \<mapsto> make_block Select MergeNone 0 0 2 6,
      6 \<mapsto> make_block OtherTerminator MergeNone 0 0 0 0]"

definition do_while_branch_cfg :: CFG where
  "do_while_branch_cfg =
     (case CFG_build 15 do_while_branch_blocks 1 of Inl e \<Rightarrow> empty_CFG | Inr cfg \<Rightarrow> cfg)"






definition endless_loop_blocks :: "nat \<rightharpoonup> SPIRBlock" where
  "endless_loop_blocks =
     [1 \<mapsto> make_block Direct MergeNone 2 0 0 0,
      2 \<mapsto> make_block Direct MergeLoop 2 3 0 0,
      3 \<mapsto> make_block OtherTerminator MergeNone 0 0 0 0]"

definition endless_loop_cfg :: CFG where
  "endless_loop_cfg =
     (case CFG_build 10 endless_loop_blocks 1 of Inl e \<Rightarrow> empty_CFG | Inr cfg \<Rightarrow> cfg)"

text \<open>
  The state in which the visit of block 1 of the endless loop turns to its target 2, and
  the state in which the visit of block 2 returns.
\<close>

definition endless_loop_entered :: CFG where
  "endless_loop_entered = empty_CFG\<lparr>visit_order := [1 \<mapsto> 0]\<rparr>"

definition endless_loop_header_done :: CFG where
  "endless_loop_header_done =
     (case post_order_visit 9 endless_loop_blocks endless_loop_entered 2 of
        Inl e \<Rightarrow> empty_CFG | Inr (ok, cfg) \<Rightarrow> cfg)"


section \<open>The traversal function and the relation\<close>

lemma visit_cases_eq:
  "visit_cases fuel compiler cfg b cs = visit_targets fuel compiler cfg b (map snd cs)"
  by (induction cs arbitrary: cfg) (auto split: sum.splits)

lemma visit_targets_append:
  "visit_targets fuel compiler cfg b (xs @ ys) =
     (case visit_targets fuel compiler cfg b xs of
        Inl e \<Rightarrow> Inl e
      | Inr cfg1 \<Rightarrow> visit_targets fuel compiler cfg1 b ys)"
  by (induction xs arbitrary: cfg) (auto split: sum.splits)

lemma post_order_visit_seen:
  assumes "0 \<le> visit_order_or_default cfg t"
  shows "post_order_visit (Suc fuel) compiler cfg t = Inr (visit_order cfg t \<noteq> Some 0, cfg)"
  using assms
  by (auto simp: visit_order_or_default_def is_back_edge_def split: option.splits)

lemma post_order_visit_fresh:
  assumes "visit_order_or_default cfg t < 0"
  shows "post_order_visit (Suc fuel) compiler cfg t =
     (case get_block compiler t of
        None \<Rightarrow> Inl BadBlock
      | Some block \<Rightarrow>
         (case visit_targets fuel compiler (mark_block cfg t) t (branch_targets block) of
            Inl e \<Rightarrow> Inl e
          | Inr cfg3 \<Rightarrow> Inr (True, finish_block (loop_merge_edge cfg3 t block) t)))"
proof (cases "get_block compiler t")
  case None
  then show ?thesis using assms by simp
next
  case (Some block)
  show ?thesis
  proof (cases "terminator block")
    case Direct
    then show ?thesis using assms Some
      by (simp add: branch_targets_def mark_block_def loop_merge_edge_def Let_def
               split: sum.splits prod.splits)
  next
    case Select
    then show ?thesis using assms Some
      by (simp add: branch_targets_def mark_block_def loop_merge_edge_def Let_def
               split: sum.splits prod.splits)
  next
    case MultiSelect
    then show ?thesis using assms Some
      by (simp add: branch_targets_def mark_block_def loop_merge_edge_def Let_def
               visit_cases_eq visit_targets_append
               split: sum.splits prod.splits)
  next
    case OtherTerminator
    then show ?thesis using assms Some
      by (simp add: branch_targets_def mark_block_def loop_merge_edge_def Let_def
               split: sum.splits prod.splits)
  qed
qed

lemma visit_targets_visits:
  "visit_targets fuel compiler cfg b ts = Inr cfg' \<Longrightarrow> visits compiler cfg b ts cfg'"
proof (induction fuel arbitrary: cfg b ts cfg')
  case 0
  then show ?case by (cases ts) (auto intro: visits.intros)
next
  case (Suc fuel)
  from Suc.prems show ?case
  proof (induction ts arbitrary: cfg)
    case Nil
    then show ?case by (auto intro: visits.intros)
  next
    case (Cons t ts)
    show ?case
    proof (cases "0 \<le> visit_order_or_default cfg t")
      case True
      then obtain v where v: "visit_order cfg t = Some v" "0 \<le> v"
        by (auto simp: visit_order_or_default_def split: option.splits)
      show ?thesis
      proof (cases "v = 0")
        case True
        with v Cons.prems \<open>0 \<le> visit_order_or_default cfg t\<close>
        have "visit_targets (Suc fuel) compiler cfg b ts = Inr cfg'"
          by (simp add: post_order_visit_seen del: post_order_visit.simps)
        from Cons.IH [OF this] v True show ?thesis
          by (auto intro: visits_back)
      next
        case False
        with v Cons.prems \<open>0 \<le> visit_order_or_default cfg t\<close>
        have "visit_targets (Suc fuel) compiler (add_branch cfg b t) b ts = Inr cfg'"
          by (simp add: post_order_visit_seen del: post_order_visit.simps)
        from Cons.IH [OF this] v False show ?thesis
          by (auto intro: visits_cross)
      qed
    next
      case False
      then have fresh: "visit_order_or_default cfg t < 0" by simp
      from Cons.prems fresh obtain block cfg1 where
        blk: "get_block compiler t = Some block"
        and inner: "visit_targets fuel compiler (mark_block cfg t) t (branch_targets block) = Inr cfg1"
        and rest: "visit_targets (Suc fuel) compiler
                     (add_branch (finish_block (loop_merge_edge cfg1 t block) t) b t) b ts = Inr cfg'"
        by (auto simp: post_order_visit_fresh simp del: post_order_visit.simps
                 split: option.splits sum.splits)
      from Suc.IH [OF inner] Cons.IH [OF rest] fresh blk show ?thesis
        by (auto intro: visits_fresh)
    qed
  qed
qed

section \<open>The traversal keeps its invariant\<close>

subsection \<open>Field access\<close>

lemma add_branch_fields [simp]:
  "visit_order (add_branch cfg f t) = visit_order cfg"
  "post_order (add_branch cfg f t) = post_order cfg"
  "visit_count (add_branch cfg f t) = visit_count cfg"
  "immediate_dominators (add_branch cfg f t) = immediate_dominators cfg"
  by (simp_all add: add_branch_def Let_def)

lemma set_add_unique [simp]: "set (add_unique l v) = insert v (set l)"
  by (auto simp: add_unique_def)

lemma distinct_add_unique [simp]: "distinct (add_unique l v) = distinct l"
  by (auto simp: add_unique_def)

lemma add_branch_succ [simp]:
  "edges_of (succeeding_edges (add_branch cfg f t)) x =
     (if x = f then add_unique (edges_of (succeeding_edges cfg) f) t
      else edges_of (succeeding_edges cfg) x)"
  by (simp add: add_branch_def Let_def edges_of_def)

lemma add_branch_pred [simp]:
  "edges_of (preceding_edges (add_branch cfg f t)) y =
     (if y = t then add_unique (edges_of (preceding_edges cfg) t) f
      else edges_of (preceding_edges cfg) y)"
  by (simp add: add_branch_def Let_def edges_of_def)

lemma mark_block_fields [simp]:
  "visit_order (mark_block cfg b) = (visit_order cfg)(b \<mapsto> 0)"
  "post_order (mark_block cfg b) = post_order cfg"
  "visit_count (mark_block cfg b) = visit_count cfg"
  "preceding_edges (mark_block cfg b) = preceding_edges cfg"
  "succeeding_edges (mark_block cfg b) = succeeding_edges cfg"
  "immediate_dominators (mark_block cfg b) = immediate_dominators cfg"
  by (simp_all add: mark_block_def)

lemma finish_block_fields [simp]:
  "visit_order (finish_block cfg b) = (visit_order cfg)(b \<mapsto> int (Suc (visit_count cfg)))"
  "post_order (finish_block cfg b) = post_order cfg @ [b]"
  "visit_count (finish_block cfg b) = Suc (visit_count cfg)"
  "preceding_edges (finish_block cfg b) = preceding_edges cfg"
  "succeeding_edges (finish_block cfg b) = succeeding_edges cfg"
  "immediate_dominators (finish_block cfg b) = immediate_dominators cfg"
  by (simp_all add: finish_block_def)

lemma loop_merge_edge_fields [simp]:
  "visit_order (loop_merge_edge cfg b block) = visit_order cfg"
  "post_order (loop_merge_edge cfg b block) = post_order cfg"
  "visit_count (loop_merge_edge cfg b block) = visit_count cfg"
  "immediate_dominators (loop_merge_edge cfg b block) = immediate_dominators cfg"
  by (simp_all add: loop_merge_edge_def)

subsection \<open>Numbering\<close>

lemma numbering_finished:
  assumes "numbering_ok cfg" "b \<in> set (post_order cfg)"
  shows "\<exists>v. visit_order cfg b = Some v \<and> 0 < v \<and> v \<le> int (visit_count cfg)"
proof -
  from assms(2) obtain i where "i < length (post_order cfg)" "post_order cfg ! i = b"
    by (auto simp: in_set_conv_nth)
  with assms(1) show ?thesis by (auto simp: numbering_ok_def)
qed

lemma numbering_positive:
  assumes "numbering_ok cfg" "visit_order cfg b = Some v" "0 < v"
  shows "b \<in> set (post_order cfg)"
  using assms by (auto simp: numbering_ok_def)

lemma numbering_in_progress:
  assumes "numbering_ok cfg" "visit_order cfg b = Some 0"
  shows "b \<notin> set (post_order cfg)"
  using numbering_finished [OF assms(1)] assms(2) by fastforce

lemma numbering_fresh:
  assumes "numbering_ok cfg" "visit_order_or_default cfg b < 0"
  shows "visit_order cfg b = None"
proof (cases "visit_order cfg b")
  case None
  then show ?thesis .
next
  case (Some v)
  with assms(2) have neg: "v < 0" by (simp add: visit_order_or_default_def)
  from assms(1) Some have "v = 0 \<or> b \<in> set (post_order cfg)"
    by (auto simp: numbering_ok_def)
  with numbering_finished [OF assms(1)] Some neg show ?thesis by fastforce
qed

lemma numbering_add_branch [simp]:
  "numbering_ok (add_branch cfg f t) = numbering_ok cfg"
  by (simp add: numbering_ok_def)

lemma numbering_loop_merge_edge [simp]:
  "numbering_ok (loop_merge_edge cfg b block) = numbering_ok cfg"
  by (simp add: numbering_ok_def)

lemma numbering_mark:
  assumes "numbering_ok cfg" "visit_order cfg t = None"
  shows "numbering_ok (mark_block cfg t)"
proof -
  have "t \<notin> set (post_order cfg)"
    using numbering_finished [OF assms(1)] assms(2) by fastforce
  then have "\<forall>i < length (post_order cfg). post_order cfg ! i \<noteq> t"
    by (auto simp: in_set_conv_nth)
  with assms(1) show ?thesis
    by (auto simp: numbering_ok_def)
qed

lemma numbering_finish:
  assumes "numbering_ok cfg" "visit_order cfg t = Some 0"
  shows "numbering_ok (finish_block cfg t)"
proof -
  have notin: "t \<notin> set (post_order cfg)"
    by (rule numbering_in_progress [OF assms])
  then have ne: "\<forall>i < length (post_order cfg). post_order cfg ! i \<noteq> t"
    by (auto simp: in_set_conv_nth)
  have cnt: "visit_count cfg = length (post_order cfg)"
    using assms(1) by (simp add: numbering_ok_def)
  have "\<forall>i < length (post_order cfg @ [t]).
          ((visit_order cfg)(t \<mapsto> int (Suc (visit_count cfg)))) ((post_order cfg @ [t]) ! i)
            = Some (int (Suc i))"
  proof (intro allI impI)
    fix i assume "i < length (post_order cfg @ [t])"
    then consider "i < length (post_order cfg)" | "i = length (post_order cfg)"
      by fastforce
    then show "((visit_order cfg)(t \<mapsto> int (Suc (visit_count cfg)))) ((post_order cfg @ [t]) ! i)
            = Some (int (Suc i))"
    proof cases
      case 1
      with ne assms(1) show ?thesis by (simp add: nth_append numbering_ok_def)
    next
      case 2
      then show ?thesis by (simp add: cnt)
    qed
  qed
  with assms(1) notin cnt show ?thesis
    by (auto simp: numbering_ok_def)
qed

subsection \<open>Blocks\<close>

lemma blocks_add_branch [simp]: "blocks_ok compiler (add_branch cfg f t) = blocks_ok compiler cfg"
  by (simp add: blocks_ok_def)

lemma blocks_loop_merge_edge [simp]:
  "blocks_ok compiler (loop_merge_edge cfg b block) = blocks_ok compiler cfg"
  by (simp add: blocks_ok_def)

lemma blocks_mark:
  assumes "blocks_ok compiler cfg" "get_block compiler t = Some block"
  shows "blocks_ok compiler (mark_block cfg t)"
  using assms by (auto simp: blocks_ok_def)

lemma blocks_finish:
  assumes "blocks_ok compiler cfg" "visit_order cfg t = Some 0"
  shows "blocks_ok compiler (finish_block cfg t)"
  using assms by (auto simp: blocks_ok_def)

subsection \<open>Symmetric, duplicate-free edge lists\<close>

lemma edges_add_branch:
  assumes "edges_ok cfg"
  shows "edges_ok (add_branch cfg f t)"
  using assms by (auto simp: edges_ok_def)

lemma edges_loop_merge_edge:
  assumes "edges_ok cfg"
  shows "edges_ok (loop_merge_edge cfg b block)"
  using assms by (simp add: loop_merge_edge_def edges_add_branch)

lemma edges_mark [simp]: "edges_ok (mark_block cfg t) = edges_ok cfg"
  by (simp add: edges_ok_def)

lemma edges_finish [simp]: "edges_ok (finish_block cfg t) = edges_ok cfg"
  by (simp add: edges_ok_def)

subsection \<open>Loop headers\<close>

lemma loops_add_branch:
  assumes "loops_ok compiler cfg"
  shows "loops_ok compiler (add_branch cfg f t)"
  using assms by (auto simp: loops_ok_def)

lemma loops_mark [simp]: "loops_ok compiler (mark_block cfg t) = loops_ok compiler cfg"
  by (simp add: loops_ok_def)

lemma loops_finish:
  assumes "loops_ok compiler cfg" "get_block compiler t = Some block"
  shows "loops_ok compiler (finish_block (loop_merge_edge cfg t block) t)"
  using assms
  by (auto simp: loops_ok_def loop_merge_edge_def is_loop_edge_def)

subsection \<open>Forward edges\<close>

lemma forward_add_branch [simp]: "forward_edge (add_branch cfg f t) x y = forward_edge cfg x y"
  by (simp add: forward_edge_def)

lemma forward_loop_merge_edge [simp]:
  "forward_edge (loop_merge_edge cfg b block) x y = forward_edge cfg x y"
  by (simp add: forward_edge_def)

lemma forward_mark:
  assumes "forward_edge cfg f x" "visit_order cfg t = None"
  shows "forward_edge (mark_block cfg t) f x"
  using assms by (auto simp: forward_edge_def)

lemma forward_finish:
  assumes "numbering_ok cfg" "visit_order cfg t = Some 0" "forward_edge cfg f x"
  shows "forward_edge (finish_block cfg t) f x"
proof -
  from assms(3) obtain vt vf where v: "visit_order cfg x = Some vt" "visit_order cfg f = Some vf"
    "0 < vt" "vf = 0 \<or> vt < vf"
    by (auto simp: forward_edge_def)
  from v assms(2) have xt: "x \<noteq> t" by auto
  from numbering_positive [OF assms(1) v(1) v(3)] numbering_finished [OF assms(1)] v(1)
  have le: "vt \<le> int (visit_count cfg)" by fastforce
  show ?thesis
  proof (cases "f = t")
    case True
    with xt v le show ?thesis by (auto simp: forward_edge_def)
  next
    case False
    with xt v show ?thesis by (auto simp: forward_edge_def)
  qed
qed

lemma forward_new:
  assumes "visit_order cfg b = Some 0" "t \<noteq> b"
  shows "forward_edge (finish_block cfg t) b t"
  using assms by (auto simp: forward_edge_def)

lemma forward_cross:
  assumes "visit_order cfg b = Some 0" "visit_order cfg t = Some v" "0 < v"
  shows "forward_edge cfg b t"
  using assms by (auto simp: forward_edge_def)

subsection \<open>Every recorded edge is a loop edge or a forward edge\<close>

lemma kinds_mark:
  assumes "edge_kinds_ok compiler cfg" "visit_order cfg t = None"
  shows "edge_kinds_ok compiler (mark_block cfg t)"
  unfolding edge_kinds_ok_def
proof (intro allI impI)
  fix f x assume "x \<in> set (edges_of (succeeding_edges (mark_block cfg t)) f)"
  then have "x \<in> set (edges_of (succeeding_edges cfg) f)" by simp
  with assms(1) have "visit_order cfg f \<noteq> None"
    and "is_loop_edge compiler f x \<or> forward_edge cfg f x"
    by (auto simp: edge_kinds_ok_def)
  then show "visit_order (mark_block cfg t) f \<noteq> None \<and>
         (is_loop_edge compiler f x \<or> forward_edge (mark_block cfg t) f x)"
    using forward_mark [OF _ assms(2)] by auto
qed

lemma kinds_finish:
  assumes "edge_kinds_ok compiler cfg" "numbering_ok cfg" "visit_order cfg t = Some 0"
  shows "edge_kinds_ok compiler (finish_block cfg t)"
  unfolding edge_kinds_ok_def
proof (intro allI impI)
  fix f x assume "x \<in> set (edges_of (succeeding_edges (finish_block cfg t)) f)"
  then have "x \<in> set (edges_of (succeeding_edges cfg) f)" by simp
  with assms(1) have "visit_order cfg f \<noteq> None"
    and "is_loop_edge compiler f x \<or> forward_edge cfg f x"
    by (auto simp: edge_kinds_ok_def)
  then show "visit_order (finish_block cfg t) f \<noteq> None \<and>
         (is_loop_edge compiler f x \<or> forward_edge (finish_block cfg t) f x)"
    using forward_finish [OF assms(2,3)] by auto
qed

lemma kinds_add_forward:
  assumes "edge_kinds_ok compiler cfg" "forward_edge cfg f t"
  shows "edge_kinds_ok compiler (add_branch cfg f t)"
proof -
  from assms(2) have "visit_order cfg f \<noteq> None" by (auto simp: forward_edge_def)
  with assms show ?thesis by (auto simp: edge_kinds_ok_def)
qed

lemma kinds_loop_merge_edge:
  assumes "edge_kinds_ok compiler cfg" "get_block compiler t = Some block"
    "visit_order cfg t \<noteq> None"
  shows "edge_kinds_ok compiler (loop_merge_edge cfg t block)"
proof (cases "merge block = MergeLoop")
  case False
  with assms(1) show ?thesis by (simp add: loop_merge_edge_def)
next
  case True
  have loop: "is_loop_edge compiler t (merge_block block)"
    using True assms(2) by (simp add: is_loop_edge_def)
  show ?thesis
    unfolding edge_kinds_ok_def
  proof (intro allI impI)
    fix f x assume "x \<in> set (edges_of (succeeding_edges (loop_merge_edge cfg t block)) f)"
    then consider "x \<in> set (edges_of (succeeding_edges cfg) f)" | "f = t" "x = merge_block block"
      using True by (auto simp: loop_merge_edge_def split: if_splits)
    then show "visit_order (loop_merge_edge cfg t block) f \<noteq> None \<and>
       (is_loop_edge compiler f x \<or> forward_edge (loop_merge_edge cfg t block) f x)"
    proof cases
      case 1
      with assms(1) show ?thesis by (simp add: edge_kinds_ok_def)
    next
      case 2
      with loop assms(3) show ?thesis by simp
    qed
  qed
qed

subsection \<open>Every finished block has a predecessor that finishes later\<close>

lemma later_pred_add_branch:
  assumes "later_pred cfg x"
  shows "later_pred (add_branch cfg f t) x"
  using assms by (auto simp: later_pred_def)

lemma later_add_branch:
  assumes "later_ok cfg"
  shows "later_ok (add_branch cfg f t)"
  using assms by (auto simp: later_ok_def intro: later_pred_add_branch)

lemma later_loop_merge_edge:
  assumes "later_ok cfg"
  shows "later_ok (loop_merge_edge cfg b block)"
  using assms by (simp add: loop_merge_edge_def later_add_branch)

lemma later_mark:
  assumes "later_ok cfg" "visit_order cfg t = None"
  shows "later_ok (mark_block cfg t)"
  unfolding later_ok_def
proof
  fix x assume "x \<in> set (post_order (mark_block cfg t))"
  with assms(1) obtain p where "p \<in> set (edges_of (preceding_edges cfg) x)"
    and "forward_edge cfg p x"
    by (auto simp: later_ok_def later_pred_def)
  with forward_mark [OF _ assms(2)] show "later_pred (mark_block cfg t) x"
    by (auto simp: later_pred_def)
qed

lemma later_finish_link:
  assumes "later_ok cfg" "numbering_ok cfg" "visit_order cfg t = Some 0"
    "visit_order cfg b = Some 0" "t \<noteq> b"
  shows "later_ok (add_branch (finish_block cfg t) b t)"
  unfolding later_ok_def
proof
  fix x assume "x \<in> set (post_order (add_branch (finish_block cfg t) b t))"
  then consider "x \<in> set (post_order cfg)" | "x = t" by auto
  then show "later_pred (add_branch (finish_block cfg t) b t) x"
  proof cases
    case 1
    with assms(1) have "later_pred cfg x" by (simp add: later_ok_def)
    then have "later_pred (finish_block cfg t) x"
      using forward_finish [OF assms(2,3)] by (auto simp: later_pred_def)
    then show ?thesis by (rule later_pred_add_branch)
  next
    case 2
    with forward_new [OF assms(4,5)] show ?thesis
      by (auto simp: later_pred_def)
  qed
qed

subsection \<open>The traversal keeps the invariant\<close>

lemma dfs_inv_mark:
  assumes "dfs_inv compiler cfg" "visit_order cfg t = None" "get_block compiler t = Some block"
  shows "dfs_inv compiler (mark_block cfg t)"
  using assms
  by (auto simp: dfs_inv_def intro: numbering_mark blocks_mark kinds_mark)

lemma dfs_inv_cross:
  assumes "dfs_inv compiler cfg" "visit_order cfg b = Some 0" "visit_order cfg t = Some v" "0 < v"
  shows "dfs_inv compiler (add_branch cfg b t)"
  using assms forward_cross [OF assms(2-4)]
  by (auto simp: dfs_inv_def intro: edges_add_branch loops_add_branch kinds_add_forward)

lemma dfs_inv_finish_link:
  assumes "dfs_inv compiler cfg" "visit_order cfg t = Some 0" "visit_order cfg b = Some 0"
    "t \<noteq> b" "get_block compiler t = Some block"
  shows "dfs_inv compiler (add_branch (finish_block (loop_merge_edge cfg t block) t) b t)"
proof -
  let ?c1 = "loop_merge_edge cfg t block"
  let ?c2 = "finish_block ?c1 t"
  from assms(1) have n: "numbering_ok cfg" and bl: "blocks_ok compiler cfg"
    and e: "edges_ok cfg" and l: "loops_ok compiler cfg" and k: "edge_kinds_ok compiler cfg"
    by (auto simp: dfs_inv_def)
  have n1: "numbering_ok ?c1" using n by simp
  have t1: "visit_order ?c1 t = Some 0" and b1: "visit_order ?c1 b = Some 0"
    using assms(2,3) by simp_all
  have "numbering_ok ?c2" by (rule numbering_finish [OF n1 t1])
  moreover have "blocks_ok compiler ?c2"
    using blocks_finish [of compiler ?c1 t] bl t1 by simp
  moreover have "edges_ok (add_branch ?c2 b t)"
    using edges_loop_merge_edge [OF e] by (simp add: edges_add_branch)
  moreover have "loops_ok compiler (add_branch ?c2 b t)"
    by (rule loops_add_branch [OF loops_finish [OF l assms(5)]])
  moreover have "edge_kinds_ok compiler (add_branch ?c2 b t)"
  proof (rule kinds_add_forward)
    have "edge_kinds_ok compiler ?c1"
      by (rule kinds_loop_merge_edge [OF k assms(5)]) (simp add: assms(2))
    then show "edge_kinds_ok compiler ?c2"
      by (rule kinds_finish [OF _ n1 t1])
    show "forward_edge ?c2 b t" by (rule forward_new [OF b1 assms(4)])
  qed
  ultimately show ?thesis by (simp add: dfs_inv_def)
qed

lemma visits_invariant:
  assumes "visits compiler cfg b ts cfg'"
  shows "dfs_inv compiler cfg \<Longrightarrow> later_ok cfg \<Longrightarrow> visit_order cfg b = Some 0 \<Longrightarrow>
         dfs_inv compiler cfg' \<and> later_ok cfg' \<and> same_in_progress cfg cfg' \<and> grows cfg cfg' \<and>
         (\<forall>t \<in> set ts. visit_order cfg' t \<noteq> None)"
  using assms
proof (induction rule: visits.induct)
  case (visits_Nil cfg b)
  then show ?case by (simp add: same_in_progress_def grows_def)
next
  case (visits_back cfg t b ts cfg')
  from visits_back.IH [OF visits_back.prems] visits_back.hyps(1)
  show ?case by (auto simp: grows_def)
next
  case (visits_cross cfg t v b ts cfg')
  have "dfs_inv compiler (add_branch cfg b t)"
    by (rule dfs_inv_cross [OF visits_cross.prems(1,3) visits_cross.hyps(1,2)])
  moreover have "later_ok (add_branch cfg b t)"
    by (rule later_add_branch [OF visits_cross.prems(2)])
  moreover have "visit_order (add_branch cfg b t) b = Some 0"
    using visits_cross.prems(3) by simp
  ultimately have "dfs_inv compiler cfg' \<and> later_ok cfg' \<and>
      same_in_progress (add_branch cfg b t) cfg' \<and> grows (add_branch cfg b t) cfg' \<and>
      (\<forall>t \<in> set ts. visit_order cfg' t \<noteq> None)"
    by (rule visits_cross.IH)
  with visits_cross.hyps(1) show ?case
    by (auto simp: same_in_progress_def grows_def)
next
  case (visits_fresh cfg t block cfg1 b ts cfg')
  from visits_fresh.prems(1) have n: "numbering_ok cfg" by (simp add: dfs_inv_def)
  have none: "visit_order cfg t = None"
    by (rule numbering_fresh [OF n visits_fresh.hyps(1)])
  with visits_fresh.prems(3) have tb: "t \<noteq> b" by auto
  let ?c0 = "mark_block cfg t"
  have "dfs_inv compiler ?c0"
    by (rule dfs_inv_mark [OF visits_fresh.prems(1) none visits_fresh.hyps(2)])
  moreover have "later_ok ?c0" by (rule later_mark [OF visits_fresh.prems(2) none])
  moreover have "visit_order ?c0 t = Some 0" by simp
  ultimately have inner: "dfs_inv compiler cfg1" "later_ok cfg1" "same_in_progress ?c0 cfg1"
    "grows ?c0 cfg1" "\<forall>x \<in> set (branch_targets block). visit_order cfg1 x \<noteq> None"
    using visits_fresh.IH(1) by blast+
  from inner(3) have t1: "visit_order cfg1 t = Some 0"
    by (simp add: same_in_progress_def)
  from inner(3) visits_fresh.prems(3) tb have b1: "visit_order cfg1 b = Some 0"
    by (simp add: same_in_progress_def)
  let ?c1 = "loop_merge_edge cfg1 t block"
  let ?c3 = "add_branch (finish_block ?c1 t) b t"
  have "dfs_inv compiler ?c3"
    by (rule dfs_inv_finish_link [OF inner(1) t1 b1 tb visits_fresh.hyps(2)])
  moreover have "later_ok ?c3"
  proof (rule later_finish_link)
    show "later_ok ?c1" by (rule later_loop_merge_edge [OF inner(2)])
    show "numbering_ok ?c1" using inner(1) by (simp add: dfs_inv_def)
    show "visit_order ?c1 t = Some 0" using t1 by simp
    show "visit_order ?c1 b = Some 0" using b1 by simp
    show "t \<noteq> b" by (rule tb)
  qed
  moreover have "visit_order ?c3 b = Some 0" using b1 tb by simp
  ultimately have rest: "dfs_inv compiler cfg'" "later_ok cfg'" "same_in_progress ?c3 cfg'"
    "grows ?c3 cfg'" "\<forall>x \<in> set ts. visit_order cfg' x \<noteq> None"
    using visits_fresh.IH(2) by blast+
  have "same_in_progress cfg cfg'"
    using inner(3) rest(3) none by (auto simp: same_in_progress_def split: if_splits)
  moreover have "grows cfg cfg'"
    using inner(4) rest(4) by (auto simp: grows_def split: if_splits)
  moreover have "visit_order cfg' t \<noteq> None"
    using rest(4) by (auto simp: grows_def)
  ultimately show ?case using rest by simp
qed

lemma dfs_inv_finish:
  assumes "dfs_inv compiler cfg" "visit_order cfg t = Some 0" "get_block compiler t = Some block"
  shows "dfs_inv compiler (finish_block (loop_merge_edge cfg t block) t)"
proof -
  let ?c1 = "loop_merge_edge cfg t block"
  let ?c2 = "finish_block ?c1 t"
  from assms(1) have n: "numbering_ok cfg" and bl: "blocks_ok compiler cfg"
    and e: "edges_ok cfg" and l: "loops_ok compiler cfg" and k: "edge_kinds_ok compiler cfg"
    by (auto simp: dfs_inv_def)
  have n1: "numbering_ok ?c1" using n by simp
  have t1: "visit_order ?c1 t = Some 0" using assms(2) by simp
  have "numbering_ok ?c2" by (rule numbering_finish [OF n1 t1])
  moreover have "blocks_ok compiler ?c2"
    using blocks_finish [of compiler ?c1 t] bl t1 by simp
  moreover have "edges_ok ?c2"
    using edges_loop_merge_edge [OF e] by simp
  moreover have "loops_ok compiler ?c2"
    by (rule loops_finish [OF l assms(3)])
  moreover have "edge_kinds_ok compiler ?c2"
  proof (rule kinds_finish [OF _ n1 t1])
    show "edge_kinds_ok compiler ?c1"
      by (rule kinds_loop_merge_edge [OF k assms(3)]) (simp add: assms(2))
  qed
  ultimately show ?thesis by (simp add: dfs_inv_def)
qed

lemma later_pred_finish:
  assumes "numbering_ok cfg" "visit_order cfg t = Some 0" "later_pred cfg x"
  shows "later_pred (finish_block cfg t) x"
  using assms(3) forward_finish [OF assms(1,2)] by (auto simp: later_pred_def)

lemma empty_start:
  "dfs_inv compiler (empty_CFG\<lparr>visit_count := 0, visit_order := Map.empty, post_order := []\<rparr>)"
  "later_ok (empty_CFG\<lparr>visit_count := 0, visit_order := Map.empty, post_order := []\<rparr>)"
  by (simp_all add: dfs_inv_def numbering_ok_def blocks_ok_def edges_ok_def loops_ok_def
        edge_kinds_ok_def later_ok_def empty_CFG_def edges_of_def)

lemma targets_add_branch [simp]: "targets_ok compiler (add_branch cfg f t) = targets_ok compiler cfg"
  by (simp add: targets_ok_def)

lemma targets_grows:
  assumes "targets_ok compiler cfg" "\<forall>x. visit_order cfg x \<noteq> None \<longrightarrow> visit_order cfg' x \<noteq> None"
    "post_order cfg' = post_order cfg"
  shows "targets_ok compiler cfg'"
  using assms unfolding targets_ok_def by metis

lemma targets_finish:
  assumes "targets_ok compiler cfg" "get_block compiler t = Some block"
    "\<forall>x \<in> set (branch_targets block). visit_order cfg x \<noteq> None"
  shows "targets_ok compiler (finish_block (loop_merge_edge cfg t block) t)"
  using assms by (auto simp: targets_ok_def)

lemma visits_targets:
  assumes "visits compiler cfg b ts cfg'"
  shows "dfs_inv compiler cfg \<Longrightarrow> later_ok cfg \<Longrightarrow> visit_order cfg b = Some 0 \<Longrightarrow>
         targets_ok compiler cfg \<Longrightarrow> targets_ok compiler cfg'"
  using assms
proof (induction rule: visits.induct)
  case (visits_Nil cfg b)
  then show ?case by simp
next
  case (visits_back cfg t b ts cfg')
  then show ?case by simp
next
  case (visits_cross cfg t v b ts cfg')
  have "dfs_inv compiler (add_branch cfg b t)"
    by (rule dfs_inv_cross [OF visits_cross.prems(1,3) visits_cross.hyps(1,2)])
  moreover have "later_ok (add_branch cfg b t)"
    by (rule later_add_branch [OF visits_cross.prems(2)])
  moreover have "visit_order (add_branch cfg b t) b = Some 0"
    using visits_cross.prems(3) by simp
  moreover have "targets_ok compiler (add_branch cfg b t)"
    using visits_cross.prems(4) by simp
  ultimately show ?case by (rule visits_cross.IH)
next
  case (visits_fresh cfg t block cfg1 b ts cfg')
  from visits_fresh.prems(1) have n: "numbering_ok cfg" by (simp add: dfs_inv_def)
  have none: "visit_order cfg t = None"
    by (rule numbering_fresh [OF n visits_fresh.hyps(1)])
  with visits_fresh.prems(3) have tb: "t \<noteq> b" by auto
  let ?c0 = "mark_block cfg t"
  have i0: "dfs_inv compiler ?c0"
    by (rule dfs_inv_mark [OF visits_fresh.prems(1) none visits_fresh.hyps(2)])
  have l0: "later_ok ?c0" by (rule later_mark [OF visits_fresh.prems(2) none])
  have v0: "visit_order ?c0 t = Some 0" by simp
  have t0: "targets_ok compiler ?c0"
    by (rule targets_grows [OF visits_fresh.prems(4)]) simp_all
  from visits_invariant [OF visits_fresh.hyps(3) i0 l0 v0]
  have inner: "dfs_inv compiler cfg1" "later_ok cfg1" "same_in_progress ?c0 cfg1"
    "\<forall>x \<in> set (branch_targets block). visit_order cfg1 x \<noteq> None"
    by blast+
  have tg1: "targets_ok compiler cfg1" by (rule visits_fresh.IH(1) [OF i0 l0 v0 t0])
  from inner(3) have t1: "visit_order cfg1 t = Some 0"
    by (simp add: same_in_progress_def)
  from inner(3) visits_fresh.prems(3) tb have b1: "visit_order cfg1 b = Some 0"
    by (simp add: same_in_progress_def)
  let ?c1 = "loop_merge_edge cfg1 t block"
  let ?c3 = "add_branch (finish_block ?c1 t) b t"
  have "dfs_inv compiler ?c3"
    by (rule dfs_inv_finish_link [OF inner(1) t1 b1 tb visits_fresh.hyps(2)])
  moreover have "later_ok ?c3"
  proof (rule later_finish_link)
    show "later_ok ?c1" by (rule later_loop_merge_edge [OF inner(2)])
    show "numbering_ok ?c1" using inner(1) by (simp add: dfs_inv_def)
    show "visit_order ?c1 t = Some 0" using t1 by simp
    show "visit_order ?c1 b = Some 0" using b1 by simp
    show "t \<noteq> b" by (rule tb)
  qed
  moreover have "visit_order ?c3 b = Some 0" using b1 tb by simp
  moreover have "targets_ok compiler ?c3"
    using targets_finish [OF tg1 visits_fresh.hyps(2) inner(4)] by simp
  ultimately show ?case by (rule visits_fresh.IH(2))
qed

lemma dfs_result:
  assumes "build_post_order_visit_order fuel compiler entry_block empty_CFG = Inr cfg"
  shows "dfs_done compiler entry_block cfg"
proof -
  let ?init = "empty_CFG\<lparr>visit_count := 0, visit_order := Map.empty, post_order := []\<rparr>"
  from assms obtain ok where run: "post_order_visit fuel compiler ?init entry_block = Inr (ok, cfg)"
    by (auto simp: build_post_order_visit_order_def split: sum.splits)
  then obtain n where fuel: "fuel = Suc n" by (cases fuel) auto
  have fresh: "visit_order_or_default ?init entry_block < 0"
    by (simp add: visit_order_or_default_def)
  let ?c0 = "mark_block ?init entry_block"
  from run fresh obtain block cfg3 where
    blk: "get_block compiler entry_block = Some block"
    and inner: "visit_targets n compiler ?c0 entry_block (branch_targets block) = Inr cfg3"
    and cfg: "cfg = finish_block (loop_merge_edge cfg3 entry_block block) entry_block"
    unfolding fuel
    by (auto simp: post_order_visit_fresh simp del: post_order_visit.simps
             split: option.splits sum.splits)
  have vis: "visits compiler ?c0 entry_block (branch_targets block) cfg3"
    by (rule visit_targets_visits [OF inner])
  have none: "visit_order ?init entry_block = None" by simp
  have i0: "dfs_inv compiler ?c0" by (rule dfs_inv_mark [OF empty_start(1) none blk])
  have l0: "later_ok ?c0" by (rule later_mark [OF empty_start(2) none])
  have v0: "visit_order ?c0 entry_block = Some 0" by simp
  have t0: "targets_ok compiler ?c0" by (simp add: targets_ok_def)
  from visits_invariant [OF vis i0 l0 v0]
  have r: "dfs_inv compiler cfg3" "later_ok cfg3" "same_in_progress ?c0 cfg3"
    "\<forall>x \<in> set (branch_targets block). visit_order cfg3 x \<noteq> None"
    by blast+
  have tg: "targets_ok compiler cfg3" by (rule visits_targets [OF vis i0 l0 v0 t0])
  from r(3) have e3: "visit_order cfg3 entry_block = Some 0"
    and only: "\<forall>x. visit_order cfg3 x = Some 0 \<longrightarrow> x = entry_block"
    by (auto simp: same_in_progress_def split: if_splits)
  have n3: "numbering_ok (loop_merge_edge cfg3 entry_block block)"
    using r(1) by (simp add: dfs_inv_def)
  have "dfs_inv compiler cfg" unfolding cfg by (rule dfs_inv_finish [OF r(1) e3 blk])
  moreover have "\<forall>x. visit_order cfg x \<noteq> Some 0"
    unfolding cfg using only by auto
  moreover have "post_order cfg \<noteq> [] \<and> last (post_order cfg) = entry_block"
    unfolding cfg by simp
  moreover have "\<forall>x \<in> set (post_order cfg). x \<noteq> entry_block \<longrightarrow> later_pred cfg x"
  proof (intro ballI impI)
    fix x assume "x \<in> set (post_order cfg)" "x \<noteq> entry_block"
    then have "x \<in> set (post_order cfg3)" unfolding cfg by simp
    with r(2) have "later_pred (loop_merge_edge cfg3 entry_block block) x"
      using later_loop_merge_edge [OF r(2)] by (simp add: later_ok_def)
    then show "later_pred cfg x"
      unfolding cfg using later_pred_finish [OF n3] e3 by simp
  qed
  moreover have "targets_ok compiler cfg"
    unfolding cfg by (rule targets_finish [OF tg blk r(4)])
  ultimately show "dfs_done compiler entry_block cfg"
    by (simp add: dfs_done_def targets_ok_def)
qed

subsection \<open>Blocks in progress have forward edges only\<close>

lemma last_add_unique:
  "last (add_unique l v) = (if v \<in> set l then last l else v)"
  by (simp add: add_unique_def)

lemma add_unique_nonempty [simp]: "add_unique l v \<noteq> []"
  by (auto simp: add_unique_def)

lemma open_mark:
  assumes "open_ok cfg" "edge_kinds_ok compiler cfg" "visit_order cfg t = None"
  shows "open_ok (mark_block cfg t)"
  unfolding open_ok_def
proof (intro allI impI)
  fix f x assume e: "x \<in> set (edges_of (succeeding_edges (mark_block cfg t)) f)"
    and p: "visit_order (mark_block cfg t) f = Some 0"
  from e have e': "x \<in> set (edges_of (succeeding_edges cfg) f)" by simp
  with assms(2) have "visit_order cfg f \<noteq> None" by (auto simp: edge_kinds_ok_def)
  with assms(3) have "f \<noteq> t" by auto
  with p have "visit_order cfg f = Some 0" by simp
  with assms(1) e' have "forward_edge cfg f x" by (simp add: open_ok_def)
  then show "forward_edge (mark_block cfg t) f x" by (rule forward_mark [OF _ assms(3)])
qed

lemma open_add_forward:
  assumes "open_ok cfg" "forward_edge cfg b t"
  shows "open_ok (add_branch cfg b t)"
  using assms by (auto simp: open_ok_def)

lemma loop_merge_edge_succ:
  "f \<noteq> t \<Longrightarrow> edges_of (succeeding_edges (loop_merge_edge cfg t block)) f =
     edges_of (succeeding_edges cfg) f"
  by (simp add: loop_merge_edge_def)

lemma open_finish:
  assumes "open_ok cfg" "numbering_ok cfg" "visit_order cfg t = Some 0"
  shows "open_ok (finish_block (loop_merge_edge cfg t block) t)"
  unfolding open_ok_def
proof (intro allI impI)
  let ?c = "finish_block (loop_merge_edge cfg t block) t"
  fix f x assume e: "x \<in> set (edges_of (succeeding_edges ?c) f)"
    and p: "visit_order ?c f = Some 0"
  from p have ft: "f \<noteq> t" by (auto split: if_splits)
  with p have p': "visit_order cfg f = Some 0" by simp
  from e ft have "x \<in> set (edges_of (succeeding_edges cfg) f)"
    by (simp add: loop_merge_edge_succ)
  with assms(1) p' have "forward_edge cfg f x" by (simp add: open_ok_def)
  then have "forward_edge (loop_merge_edge cfg t block) f x" by simp
  moreover have "numbering_ok (loop_merge_edge cfg t block)" using assms(2) by simp
  moreover have "visit_order (loop_merge_edge cfg t block) t = Some 0" using assms(3) by simp
  ultimately show "forward_edge ?c f x" by (metis forward_finish)
qed

subsection \<open>The predecessor recorded last finishes later\<close>

lemma last_mark:
  assumes "last_ok cfg" "visit_order cfg t = None"
  shows "last_ok (mark_block cfg t)"
  using assms forward_mark [OF _ assms(2)]
  by (simp add: last_ok_def last_later_def)

lemma last_later_add_forward:
  assumes "last_later cfg x" "forward_edge cfg b t"
  shows "last_later (add_branch cfg b t) x"
  using assms by (auto simp: last_later_def last_add_unique)

lemma last_add_forward:
  assumes "last_ok cfg" "forward_edge cfg b t"
  shows "last_ok (add_branch cfg b t)"
  using assms by (auto simp: last_ok_def intro: last_later_add_forward)

lemma last_later_finish:
  assumes "last_later cfg x" "numbering_ok cfg" "visit_order cfg t = Some 0"
    "x \<in> set (post_order cfg)"
  shows "last_later (finish_block (loop_merge_edge cfg t block) t) x"
proof -
  let ?c1 = "loop_merge_edge cfg t block"
  have n1: "numbering_ok ?c1" using assms(2) by simp
  have t1: "visit_order ?c1 t = Some 0" using assms(3) by simp
  from numbering_finished [OF assms(2,4)] obtain v where
    v: "visit_order cfg x = Some v" "0 < v" "v \<le> int (visit_count cfg)" by blast
  with assms(3) have xt: "x \<noteq> t" by auto
  have new: "forward_edge (finish_block ?c1 t) t x"
    using v xt by (auto simp: forward_edge_def)
  have old: "forward_edge (finish_block ?c1 t) (last (edges_of (preceding_edges cfg) x)) x"
    using assms(1) forward_finish [OF n1 t1] by (simp add: last_later_def)
  show ?thesis
  proof (cases "merge block = MergeLoop \<and> merge_block block = x")
    case True
    then have "edges_of (preceding_edges ?c1) x = add_unique (edges_of (preceding_edges cfg) x) t"
      by (simp add: loop_merge_edge_def)
    with new old show ?thesis by (simp add: last_later_def last_add_unique)
  next
    case False
    then have "edges_of (preceding_edges ?c1) x = edges_of (preceding_edges cfg) x"
      by (auto simp: loop_merge_edge_def)
    with old assms(1) show ?thesis by (simp add: last_later_def)
  qed
qed

lemma last_finish_link:
  assumes l: "last_ok cfg" and o: "open_ok cfg" and e: "edges_ok cfg" and n: "numbering_ok cfg"
    and t: "visit_order cfg t = Some 0" and b: "visit_order cfg b = Some 0" and tb: "t \<noteq> b"
  shows "last_ok (add_branch (finish_block (loop_merge_edge cfg t block) t) b t)"
  unfolding last_ok_def
proof
  let ?c1 = "loop_merge_edge cfg t block"
  let ?c2 = "finish_block ?c1 t"
  fix x assume "x \<in> set (post_order (add_branch ?c2 b t))"
  then consider "x \<in> set (post_order cfg)" | "x = t" by auto
  then show "last_later (add_branch ?c2 b t) x"
  proof cases
    case 1
    with l have "last_later cfg x" by (simp add: last_ok_def)
    from last_later_finish [OF this n t 1] have "last_later ?c2 x" .
    moreover from numbering_in_progress [OF n t] 1 have "x \<noteq> t" by auto
    ultimately show ?thesis by (simp add: last_later_def)
  next
    case 2
    have "b \<notin> set (edges_of (preceding_edges cfg) t)"
    proof
      assume "b \<in> set (edges_of (preceding_edges cfg) t)"
      with e have "t \<in> set (edges_of (succeeding_edges cfg) b)" by (simp add: edges_ok_def)
      with o b have "forward_edge cfg b t" by (simp add: open_ok_def)
      with t show False by (auto simp: forward_edge_def)
    qed
    then have "b \<notin> set (edges_of (preceding_edges ?c1) t)"
      using tb by (auto simp: loop_merge_edge_def split: if_splits)
    then have "last (edges_of (preceding_edges (add_branch ?c2 b t)) t) = b"
      by (simp add: last_add_unique)
    moreover have "forward_edge ?c2 b t"
      using forward_new [of ?c1 b t] b tb by simp
    ultimately show ?thesis using 2 by (simp add: last_later_def)
  qed
qed

subsection \<open>The traversal keeps both\<close>

lemma visits_last:
  assumes "visits compiler cfg b ts cfg'"
  shows "dfs_inv compiler cfg \<Longrightarrow> later_ok cfg \<Longrightarrow> visit_order cfg b = Some 0 \<Longrightarrow>
         open_ok cfg \<Longrightarrow> last_ok cfg \<Longrightarrow> open_ok cfg' \<and> last_ok cfg'"
  using assms
proof (induction rule: visits.induct)
  case (visits_Nil cfg b)
  then show ?case by simp
next
  case (visits_back cfg t b ts cfg')
  then show ?case by simp
next
  case (visits_cross cfg t v b ts cfg')
  have f: "forward_edge cfg b t"
    by (rule forward_cross [OF visits_cross.prems(3) visits_cross.hyps(1,2)])
  have "dfs_inv compiler (add_branch cfg b t)"
    by (rule dfs_inv_cross [OF visits_cross.prems(1,3) visits_cross.hyps(1,2)])
  moreover have "later_ok (add_branch cfg b t)"
    by (rule later_add_branch [OF visits_cross.prems(2)])
  moreover have "visit_order (add_branch cfg b t) b = Some 0"
    using visits_cross.prems(3) by simp
  moreover have "open_ok (add_branch cfg b t)"
    by (rule open_add_forward [OF visits_cross.prems(4) f])
  moreover have "last_ok (add_branch cfg b t)"
    by (rule last_add_forward [OF visits_cross.prems(5) f])
  ultimately show ?case by (rule visits_cross.IH)
next
  case (visits_fresh cfg t block cfg1 b ts cfg')
  from visits_fresh.prems(1) have n: "numbering_ok cfg"
    and k: "edge_kinds_ok compiler cfg" by (simp_all add: dfs_inv_def)
  have none: "visit_order cfg t = None"
    by (rule numbering_fresh [OF n visits_fresh.hyps(1)])
  with visits_fresh.prems(3) have tb: "t \<noteq> b" by auto
  let ?c0 = "mark_block cfg t"
  have i0: "dfs_inv compiler ?c0"
    by (rule dfs_inv_mark [OF visits_fresh.prems(1) none visits_fresh.hyps(2)])
  have l0: "later_ok ?c0" by (rule later_mark [OF visits_fresh.prems(2) none])
  have v0: "visit_order ?c0 t = Some 0" by simp
  have o0: "open_ok ?c0" by (rule open_mark [OF visits_fresh.prems(4) k none])
  have s0: "last_ok ?c0" by (rule last_mark [OF visits_fresh.prems(5) none])
  from visits_invariant [OF visits_fresh.hyps(3) i0 l0 v0]
  have inner: "dfs_inv compiler cfg1" "later_ok cfg1" "same_in_progress ?c0 cfg1"
    by blast+
  from visits_fresh.IH(1) [OF i0 l0 v0 o0 s0]
  have o1: "open_ok cfg1" and s1: "last_ok cfg1" by simp_all
  from inner(1) have n1: "numbering_ok cfg1" and e1: "edges_ok cfg1"
    by (simp_all add: dfs_inv_def)
  from inner(3) have t1: "visit_order cfg1 t = Some 0"
    by (simp add: same_in_progress_def)
  from inner(3) visits_fresh.prems(3) tb have b1: "visit_order cfg1 b = Some 0"
    by (simp add: same_in_progress_def)
  let ?c1 = "loop_merge_edge cfg1 t block"
  let ?c2 = "finish_block ?c1 t"
  let ?c3 = "add_branch ?c2 b t"
  have "dfs_inv compiler ?c3"
    by (rule dfs_inv_finish_link [OF inner(1) t1 b1 tb visits_fresh.hyps(2)])
  moreover have "later_ok ?c3"
  proof (rule later_finish_link)
    show "later_ok ?c1" by (rule later_loop_merge_edge [OF inner(2)])
    show "numbering_ok ?c1" using n1 by simp
    show "visit_order ?c1 t = Some 0" using t1 by simp
    show "visit_order ?c1 b = Some 0" using b1 by simp
    show "t \<noteq> b" by (rule tb)
  qed
  moreover have "visit_order ?c3 b = Some 0" using b1 tb by simp
  moreover have "open_ok ?c3"
  proof (rule open_add_forward)
    show "open_ok ?c2" by (rule open_finish [OF o1 n1 t1])
    show "forward_edge ?c2 b t" using forward_new [of ?c1 b t] b1 tb by simp
  qed
  moreover have "last_ok ?c3"
    by (rule last_finish_link [OF s1 o1 e1 n1 t1 b1 tb])
  ultimately show ?case by (rule visits_fresh.IH(2))
qed

lemma dfs_result_last:
  assumes "build_post_order_visit_order fuel compiler entry_block empty_CFG = Inr cfg"
  shows "\<forall>x \<in> set (post_order cfg). x \<noteq> entry_block \<longrightarrow> last_later cfg x"
proof -
  let ?init = "empty_CFG\<lparr>visit_count := 0, visit_order := Map.empty, post_order := []\<rparr>"
  from assms obtain ok where run: "post_order_visit fuel compiler ?init entry_block = Inr (ok, cfg)"
    by (auto simp: build_post_order_visit_order_def split: sum.splits)
  then obtain n where fuel: "fuel = Suc n" by (cases fuel) auto
  have fresh: "visit_order_or_default ?init entry_block < 0"
    by (simp add: visit_order_or_default_def)
  let ?c0 = "mark_block ?init entry_block"
  from run fresh obtain block cfg3 where
    blk: "get_block compiler entry_block = Some block"
    and inner: "visit_targets n compiler ?c0 entry_block (branch_targets block) = Inr cfg3"
    and cfg: "cfg = finish_block (loop_merge_edge cfg3 entry_block block) entry_block"
    unfolding fuel
    by (auto simp: post_order_visit_fresh simp del: post_order_visit.simps
             split: option.splits sum.splits)
  have vis: "visits compiler ?c0 entry_block (branch_targets block) cfg3"
    by (rule visit_targets_visits [OF inner])
  have none: "visit_order ?init entry_block = None" by simp
  have i0: "dfs_inv compiler ?c0" by (rule dfs_inv_mark [OF empty_start(1) none blk])
  have l0: "later_ok ?c0" by (rule later_mark [OF empty_start(2) none])
  have v0: "visit_order ?c0 entry_block = Some 0" by simp
  have o0: "open_ok ?c0" by (simp add: open_ok_def empty_CFG_def edges_of_def)
  have s0: "last_ok ?c0" by (simp add: last_ok_def)
  from visits_invariant [OF vis i0 l0 v0]
  have r: "dfs_inv compiler cfg3" "same_in_progress ?c0 cfg3" by blast+
  from visits_last [OF vis i0 l0 v0 o0 s0] have s3: "last_ok cfg3" by simp
  from r(2) have e3: "visit_order cfg3 entry_block = Some 0"
    by (simp add: same_in_progress_def)
  from r(1) have n3: "numbering_ok cfg3" by (simp add: dfs_inv_def)
  show ?thesis
  proof (intro ballI impI)
    fix x assume "x \<in> set (post_order cfg)" "x \<noteq> entry_block"
    then have x: "x \<in> set (post_order cfg3)" unfolding cfg by simp
    with s3 have "last_later cfg3 x" by (simp add: last_ok_def)
    from last_later_finish [OF this n3 e3 x] show "last_later cfg x" unfolding cfg .
  qed
qed

section \<open>The traversal and the flow graph\<close>

subsection \<open>Paths, reachable blocks and dominating blocks\<close>

lemma path_in_snoc:
  "p \<noteq> [] \<Longrightarrow> path_in r (p @ [y]) \<longleftrightarrow> path_in r p \<and> r (last p) y"
  by (induction r p rule: path_in.induct) auto

lemma path_in_mono:
  assumes "\<And>x y. r x y \<Longrightarrow> s x y"
  shows "path_in r p \<Longrightarrow> path_in s p"
  by (induction p rule: induct_list012) (auto intro: assms)

lemma target_flow: "target_edge compiler x y \<Longrightarrow> flow_edge compiler x y"
  by (simp add: flow_edge_def)

lemma loop_flow: "is_loop_edge compiler x y \<Longrightarrow> flow_edge compiler x y"
  by (simp add: flow_edge_def)

lemma target_edge_block:
  "get_block compiler b = Some block \<Longrightarrow> target_edge compiler b t \<longleftrightarrow> t \<in> set (branch_targets block)"
  by (simp add: target_edge_def)

lemma reaches_refl: "reaches compiler e e"
  unfolding reaches_def by (rule exI [of _ "[e]"]) simp

lemma reaches_step:
  assumes "reaches compiler e x" "target_edge compiler x y"
  shows "reaches compiler e y"
proof -
  from assms(1) obtain p where p: "p \<noteq> []" "hd p = e" "last p = x"
    "path_in (target_edge compiler) p" by (auto simp: reaches_def)
  with assms(2) have "path_in (target_edge compiler) (p @ [y])"
    by (simp add: path_in_snoc)
  with p show ?thesis
    unfolding reaches_def by (intro exI [of _ "p @ [y]"]) simp
qed

lemma reaches_induct [consumes 1, case_names base step]:
  assumes r: "reaches compiler e x"
    and base: "P e"
    and step: "\<And>x y. reaches compiler e x \<Longrightarrow> P x \<Longrightarrow> target_edge compiler x y \<Longrightarrow> P y"
  shows "P x"
proof -
  from r obtain p where p: "p \<noteq> []" "hd p = e" "last p = x"
    "path_in (target_edge compiler) p" by (auto simp: reaches_def)
  have "p \<noteq> [] \<Longrightarrow> hd p = e \<Longrightarrow> path_in (target_edge compiler) p \<Longrightarrow>
        P (last p) \<and> reaches compiler e (last p)"
  proof (induction p rule: rev_induct)
    case Nil
    then show ?case by simp
  next
    case (snoc y q)
    show ?case
    proof (cases "q = []")
      case True
      with snoc.prems base show ?thesis by (simp add: reaches_refl)
    next
      case False
      with snoc.prems have q: "hd q = e" "path_in (target_edge compiler) q"
        "target_edge compiler (last q) y" by (simp_all add: path_in_snoc)
      from snoc.IH [OF False q(1,2)] have ih: "P (last q)" "reaches compiler e (last q)"
        by simp_all
      from step [OF ih(2,1) q(3)] reaches_step [OF ih(2) q(3)] show ?thesis by simp
    qed
  qed
  with p show ?thesis by simp
qed

lemma dominates_refl: "dominates compiler e x x"
  unfolding dominates_def by (metis last_in_set)

lemma dominates_entry:
  assumes "dominates compiler e h e"
  shows "h = e"
proof -
  have "[e] \<noteq> [] \<and> hd [e] = e \<and> last [e] = e \<and> path_in (live_edge compiler e) [e]" by simp
  with assms have "h \<in> set [e]" unfolding dominates_def by blast
  then show ?thesis by simp
qed

lemma dominates_pred:
  assumes "dominates compiler e h y" "h \<noteq> y" "live_edge compiler e x y"
  shows "dominates compiler e h x"
  unfolding dominates_def
proof (intro allI impI)
  fix p assume p: "p \<noteq> [] \<and> hd p = e \<and> last p = x \<and> path_in (live_edge compiler e) p"
  with assms(3) have "path_in (live_edge compiler e) (p @ [y])" by (simp add: path_in_snoc)
  with p have "p @ [y] \<noteq> [] \<and> hd (p @ [y]) = e \<and> last (p @ [y]) = y \<and>
      path_in (live_edge compiler e) (p @ [y])" by simp
  with assms(1) have "h \<in> set (p @ [y])" unfolding dominates_def by blast
  with assms(2) show "h \<in> set p" by simp
qed

lemma path_in_region:
  assumes closed: "\<forall>a \<in> S. \<forall>b. r a b \<longrightarrow> b = h \<or> b \<in> S"
  shows "path_in r p \<Longrightarrow> p \<noteq> [] \<Longrightarrow> hd p \<in> S \<Longrightarrow> h \<notin> set p \<Longrightarrow> set p \<subseteq> S"
proof (induction p rule: induct_list012)
  case 1
  then show ?case by simp
next
  case (2 x)
  then show ?case by simp
next
  case (3 x y ys)
  from "3.prems" closed have "y \<in> S" by auto
  with "3.IH"(2) "3.prems" show ?case by auto
qed

text \<open>
  A region \<open>S\<close> around the entry block that can only be left through \<open>h\<close>: every block
  outside of it is dominated by \<open>h\<close>.
\<close>

lemma dominates_region:
  assumes "e \<in> S" "x \<notin> S"
    and "\<forall>a \<in> S. \<forall>b. flow_edge compiler a b \<longrightarrow> b = h \<or> b \<in> S"
  shows "dominates compiler e h x"
  unfolding dominates_def
proof (intro allI impI, rule ccontr)
  fix p assume p: "p \<noteq> [] \<and> hd p = e \<and> last p = x \<and> path_in (live_edge compiler e) p"
    and h: "h \<notin> set p"
  from p have "path_in (flow_edge compiler) p"
    by (auto intro: path_in_mono [of "live_edge compiler e"] simp: live_edge_def)
  from path_in_region [OF assms(3) this] p h assms(1) have "set p \<subseteq> S" by simp
  moreover from p have "x \<in> set p" by (metis last_in_set)
  ultimately show False using assms(2) by blast
qed

subsection \<open>Common steps of the traversal\<close>

lemma cross_step:
  assumes "dfs_inv compiler cfg" "later_ok cfg" "visit_order cfg b = Some 0"
    "visit_order cfg t = Some v" "0 < v"
  shows "dfs_inv compiler (add_branch cfg b t)" "later_ok (add_branch cfg b t)"
    "visit_order (add_branch cfg b t) b = Some 0"
proof -
  show "dfs_inv compiler (add_branch cfg b t)"
    by (rule dfs_inv_cross [OF assms(1,3,4,5)])
  show "later_ok (add_branch cfg b t)" by (rule later_add_branch [OF assms(2)])
  show "visit_order (add_branch cfg b t) b = Some 0" using assms(3) by simp
qed

lemma fresh_step:
  assumes i: "dfs_inv compiler cfg" and l: "later_ok cfg" and b: "visit_order cfg b = Some 0"
    and f: "visit_order_or_default cfg t < 0" and blk: "get_block compiler t = Some block"
    and vis: "visits compiler (mark_block cfg t) t (branch_targets block) cfg1"
  shows "visit_order cfg t = None" and "t \<noteq> b"
    and "dfs_inv compiler (mark_block cfg t)" and "later_ok (mark_block cfg t)"
    and "dfs_inv compiler cfg1" and "later_ok cfg1"
    and "same_in_progress (mark_block cfg t) cfg1"
    and "visit_order cfg1 t = Some 0" and "visit_order cfg1 b = Some 0"
    and "dfs_inv compiler (add_branch (finish_block (loop_merge_edge cfg1 t block) t) b t)"
    and "later_ok (add_branch (finish_block (loop_merge_edge cfg1 t block) t) b t)"
    and "visit_order (add_branch (finish_block (loop_merge_edge cfg1 t block) t) b t) b = Some 0"
proof -
  from i have n: "numbering_ok cfg" by (simp add: dfs_inv_def)
  show none: "visit_order cfg t = None" by (rule numbering_fresh [OF n f])
  with b show tb: "t \<noteq> b" by auto
  let ?c0 = "mark_block cfg t"
  show i0: "dfs_inv compiler ?c0" by (rule dfs_inv_mark [OF i none blk])
  show l0: "later_ok ?c0" by (rule later_mark [OF l none])
  have v0: "visit_order ?c0 t = Some 0" by simp
  from visits_invariant [OF vis i0 l0 v0]
  show i1: "dfs_inv compiler cfg1" and l1: "later_ok cfg1"
    and s: "same_in_progress ?c0 cfg1" by blast+
  from s show t1: "visit_order cfg1 t = Some 0" by (simp add: same_in_progress_def)
  from s b tb show b1: "visit_order cfg1 b = Some 0" by (simp add: same_in_progress_def)
  let ?c1 = "loop_merge_edge cfg1 t block"
  let ?c3 = "add_branch (finish_block ?c1 t) b t"
  show "dfs_inv compiler ?c3" by (rule dfs_inv_finish_link [OF i1 t1 b1 tb blk])
  show "later_ok ?c3"
  proof (rule later_finish_link)
    show "later_ok ?c1" by (rule later_loop_merge_edge [OF l1])
    show "numbering_ok ?c1" using i1 by (simp add: dfs_inv_def)
    show "visit_order ?c1 t = Some 0" using t1 by simp
    show "visit_order ?c1 b = Some 0" using b1 by simp
    show "t \<noteq> b" by (rule tb)
  qed
  show "visit_order ?c3 b = Some 0" using b1 tb by simp
qed

subsection \<open>Recorded edges are flow edges, entered blocks are reachable\<close>

lemma flow_add_branch:
  assumes "flow_ok compiler cfg" "flow_edge compiler f t"
  shows "flow_ok compiler (add_branch cfg f t)"
  using assms by (auto simp: flow_ok_def split: if_splits)

lemma flow_loop_merge_edge:
  assumes "flow_ok compiler cfg" "get_block compiler t = Some block"
  shows "flow_ok compiler (loop_merge_edge cfg t block)"
proof (cases "merge block = MergeLoop")
  case True
  with assms(2) have "flow_edge compiler t (merge_block block)"
    by (simp add: flow_edge_def is_loop_edge_def)
  from flow_add_branch [OF assms(1) this] True show ?thesis by (simp add: loop_merge_edge_def)
next
  case False
  with assms(1) show ?thesis by (simp add: loop_merge_edge_def)
qed

lemma flow_mark [simp]: "flow_ok compiler (mark_block cfg t) = flow_ok compiler cfg"
  by (simp add: flow_ok_def)

lemma flow_finish [simp]: "flow_ok compiler (finish_block cfg t) = flow_ok compiler cfg"
  by (simp add: flow_ok_def)

lemma entered_add_branch [simp]:
  "entered_ok compiler e (add_branch cfg f t) = entered_ok compiler e cfg"
  by (simp add: entered_ok_def)

lemma entered_loop_merge_edge [simp]:
  "entered_ok compiler e (loop_merge_edge cfg t block) = entered_ok compiler e cfg"
  by (simp add: entered_ok_def)

lemma entered_mark:
  assumes "entered_ok compiler e cfg" "reaches compiler e t"
  shows "entered_ok compiler e (mark_block cfg t)"
  using assms by (auto simp: entered_ok_def)

lemma entered_finish:
  assumes "entered_ok compiler e cfg" "visit_order cfg t = Some 0"
  shows "entered_ok compiler e (finish_block cfg t)"
  using assms by (auto simp: entered_ok_def)

lemma visits_flow:
  assumes "visits compiler cfg b ts cfg'"
  shows "dfs_inv compiler cfg \<Longrightarrow> later_ok cfg \<Longrightarrow> visit_order cfg b = Some 0 \<Longrightarrow>
         \<forall>t \<in> set ts. target_edge compiler b t \<Longrightarrow>
         flow_ok compiler cfg \<Longrightarrow> entered_ok compiler e cfg \<Longrightarrow>
         flow_ok compiler cfg' \<and> entered_ok compiler e cfg'"
  using assms
proof (induction rule: visits.induct)
  case (visits_Nil cfg b)
  then show ?case by simp
next
  case (visits_back cfg t b ts cfg')
  then show ?case by simp
next
  case (visits_cross cfg t v b ts cfg')
  note s = cross_step [OF visits_cross.prems(1-3) visits_cross.hyps(1,2)]
  from visits_cross.prems(4) have te: "target_edge compiler b t"
    and rest: "\<forall>t \<in> set ts. target_edge compiler b t" by simp_all
  have "flow_ok compiler (add_branch cfg b t)"
    by (rule flow_add_branch [OF visits_cross.prems(5) target_flow [OF te]])
  moreover have "entered_ok compiler e (add_branch cfg b t)"
    using visits_cross.prems(6) by simp
  ultimately show ?case using visits_cross.IH [OF s rest] by simp
next
  case (visits_fresh cfg t block cfg1 b ts cfg')
  note s = fresh_step [OF visits_fresh.prems(1-3) visits_fresh.hyps(1-3)]
  from visits_fresh.prems(4) have te: "target_edge compiler b t"
    and rest: "\<forall>t \<in> set ts. target_edge compiler b t" by simp_all
  let ?c0 = "mark_block cfg t"
  have rb: "reaches compiler e b"
    using visits_fresh.prems(3,6) by (auto simp: entered_ok_def)
  have rt: "reaches compiler e t" by (rule reaches_step [OF rb te])
  have tt: "\<forall>x \<in> set (branch_targets block). target_edge compiler t x"
    using visits_fresh.hyps(2) by (simp add: target_edge_block)
  have f0: "flow_ok compiler ?c0" using visits_fresh.prems(5) by simp
  have e0: "entered_ok compiler e ?c0" by (rule entered_mark [OF visits_fresh.prems(6) rt])
  have v0: "visit_order ?c0 t = Some 0" by simp
  from visits_fresh.IH(1) [OF s(3,4) v0 tt f0 e0]
  have f1: "flow_ok compiler cfg1" and e1: "entered_ok compiler e cfg1" by simp_all
  let ?c1 = "loop_merge_edge cfg1 t block"
  let ?c3 = "add_branch (finish_block ?c1 t) b t"
  have "flow_ok compiler ?c3"
    using flow_add_branch [OF _ target_flow [OF te]]
      flow_loop_merge_edge [OF f1 visits_fresh.hyps(2)] by simp
  moreover have "entered_ok compiler e ?c3"
    using entered_finish [of compiler e ?c1 t] e1 s(8) by simp
  ultimately show ?case using visits_fresh.IH(2) [OF s(10-12) rest] by simp
qed

subsection \<open>Targets that were finished in time are recorded\<close>

lemma complete_add_branch:
  assumes "complete_ok compiler cfg"
  shows "complete_ok compiler (add_branch cfg f t)"
  unfolding complete_ok_def
proof (intro ballI allI impI)
  fix x y assume "x \<in> set (post_order (add_branch cfg f t))" "target_edge compiler x y"
  with assms have "y \<in> set (edges_of (succeeding_edges cfg) x) \<or> visit_order cfg y = Some 0 \<or>
      (\<exists>vt vx. visit_order cfg y = Some vt \<and> visit_order cfg x = Some vx \<and> vx \<le> vt)"
    by (simp add: complete_ok_def)
  then show "y \<in> set (edges_of (succeeding_edges (add_branch cfg f t)) x) \<or>
      visit_order (add_branch cfg f t) y = Some 0 \<or>
      (\<exists>vt vx. visit_order (add_branch cfg f t) y = Some vt \<and>
         visit_order (add_branch cfg f t) x = Some vx \<and> vx \<le> vt)"
    by auto
qed

lemma complete_loop_merge_edge:
  assumes "complete_ok compiler cfg"
  shows "complete_ok compiler (loop_merge_edge cfg t block)"
  using assms by (simp add: loop_merge_edge_def complete_add_branch)

lemma complete_mark:
  assumes "complete_ok compiler cfg" "visit_order cfg t = None"
  shows "complete_ok compiler (mark_block cfg t)"
  unfolding complete_ok_def
proof (intro ballI allI impI)
  fix x y assume "x \<in> set (post_order (mark_block cfg t))" "target_edge compiler x y"
  with assms(1) have "y \<in> set (edges_of (succeeding_edges cfg) x) \<or> visit_order cfg y = Some 0 \<or>
      (\<exists>vt vx. visit_order cfg y = Some vt \<and> visit_order cfg x = Some vx \<and> vx \<le> vt)"
    by (simp add: complete_ok_def)
  with assms(2) show "y \<in> set (edges_of (succeeding_edges (mark_block cfg t)) x) \<or>
      visit_order (mark_block cfg t) y = Some 0 \<or>
      (\<exists>vt vx. visit_order (mark_block cfg t) y = Some vt \<and>
         visit_order (mark_block cfg t) x = Some vx \<and> vx \<le> vt)"
    by auto
qed

lemma complete_finish:
  assumes c: "complete_ok compiler cfg" and n: "numbering_ok cfg"
    and t: "visit_order cfg t = Some 0"
    and own: "\<forall>y. target_edge compiler t y \<longrightarrow>
        y \<in> set (edges_of (succeeding_edges cfg) t) \<or> visit_order cfg y = Some 0"
  shows "complete_ok compiler (finish_block cfg t)"
  unfolding complete_ok_def
proof (intro ballI allI impI)
  let ?c = "finish_block cfg t"
  fix x y assume x: "x \<in> set (post_order ?c)" and te: "target_edge compiler x y"
  show "y \<in> set (edges_of (succeeding_edges ?c) x) \<or> visit_order ?c y = Some 0 \<or>
      (\<exists>vt vx. visit_order ?c y = Some vt \<and> visit_order ?c x = Some vx \<and> vx \<le> vt)"
  proof (cases "x = t")
    case True
    with own te have "y \<in> set (edges_of (succeeding_edges cfg) t) \<or> visit_order cfg y = Some 0"
      by simp
    with True show ?thesis by (cases "y = t") auto
  next
    case False
    with x have xp: "x \<in> set (post_order cfg)" by simp
    from numbering_finished [OF n xp] obtain v where
      v: "visit_order cfg x = Some v" "0 < v" "v \<le> int (visit_count cfg)" by blast
    from c xp te have "y \<in> set (edges_of (succeeding_edges cfg) x) \<or> visit_order cfg y = Some 0 \<or>
        (\<exists>vt vx. visit_order cfg y = Some vt \<and> visit_order cfg x = Some vx \<and> vx \<le> vt)"
      by (simp add: complete_ok_def)
    then consider "y \<in> set (edges_of (succeeding_edges cfg) x)" | "visit_order cfg y = Some 0"
      | vt where "visit_order cfg y = Some vt" "v \<le> vt"
      using v(1) by auto
    then show ?thesis
    proof cases
      case 1
      then show ?thesis by simp
    next
      case 2
      show ?thesis
      proof (cases "y = t")
        case True
        with False v show ?thesis by simp
      next
        case False
        with 2 show ?thesis by simp
      qed
    next
      case 3
      with v(2) t have "y \<noteq> t" by auto
      with 3 False v(1) show ?thesis by simp
    qed
  qed
qed

lemma visits_complete:
  assumes "visits compiler cfg b ts cfg'"
  shows "dfs_inv compiler cfg \<Longrightarrow> later_ok cfg \<Longrightarrow> visit_order cfg b = Some 0 \<Longrightarrow>
         complete_ok compiler cfg \<Longrightarrow>
         complete_ok compiler cfg' \<and>
         (\<forall>x. set (edges_of (succeeding_edges cfg) x) \<subseteq> set (edges_of (succeeding_edges cfg') x)) \<and>
         (\<forall>t \<in> set ts. t \<in> set (edges_of (succeeding_edges cfg') b) \<or> visit_order cfg' t = Some 0)"
  using assms
proof (induction rule: visits.induct)
  case (visits_Nil cfg b)
  then show ?case by simp
next
  case (visits_back cfg t b ts cfg')
  from visits_invariant [OF visits_back.hyps(2) visits_back.prems(1-3)]
  have "same_in_progress cfg cfg'" by simp
  with visits_back.hyps(1) have "visit_order cfg' t = Some 0"
    by (simp add: same_in_progress_def)
  with visits_back.IH [OF visits_back.prems] show ?case by simp
next
  case (visits_cross cfg t v b ts cfg')
  note s = cross_step [OF visits_cross.prems(1-3) visits_cross.hyps(1,2)]
  have c: "complete_ok compiler (add_branch cfg b t)"
    by (rule complete_add_branch [OF visits_cross.prems(4)])
  from visits_cross.IH [OF s c]
  have ih: "complete_ok compiler cfg'"
    "\<forall>x. set (edges_of (succeeding_edges (add_branch cfg b t)) x)
           \<subseteq> set (edges_of (succeeding_edges cfg') x)"
    "\<forall>t \<in> set ts. t \<in> set (edges_of (succeeding_edges cfg') b) \<or> visit_order cfg' t = Some 0"
    by simp_all
  have g: "set (edges_of (succeeding_edges cfg) x) \<subseteq> set (edges_of (succeeding_edges cfg') x)" for x
    using ih(2) [rule_format, of x] by (auto split: if_splits)
  have "t \<in> set (edges_of (succeeding_edges cfg') b)"
    using ih(2) [rule_format, of b] by auto
  with ih(1,3) g show ?case by simp
next
  case (visits_fresh cfg t block cfg1 b ts cfg')
  note s = fresh_step [OF visits_fresh.prems(1-3) visits_fresh.hyps(1-3)]
  let ?c0 = "mark_block cfg t"
  have c0: "complete_ok compiler ?c0" by (rule complete_mark [OF visits_fresh.prems(4) s(1)])
  have v0: "visit_order ?c0 t = Some 0" by simp
  from visits_fresh.IH(1) [OF s(3,4) v0 c0]
  have in1: "complete_ok compiler cfg1"
    "\<forall>x. set (edges_of (succeeding_edges ?c0) x) \<subseteq> set (edges_of (succeeding_edges cfg1) x)"
    "\<forall>y \<in> set (branch_targets block). y \<in> set (edges_of (succeeding_edges cfg1) t) \<or>
        visit_order cfg1 y = Some 0"
    by simp_all
  let ?c1 = "loop_merge_edge cfg1 t block"
  let ?c2 = "finish_block ?c1 t"
  let ?c3 = "add_branch ?c2 b t"
  have g1: "set (edges_of (succeeding_edges cfg1) x) \<subseteq> set (edges_of (succeeding_edges ?c1) x)" for x
    by (auto simp: loop_merge_edge_def)
  have c1: "complete_ok compiler ?c1" by (rule complete_loop_merge_edge [OF in1(1)])
  have n1: "numbering_ok ?c1" using s(5) by (simp add: dfs_inv_def)
  have t1: "visit_order ?c1 t = Some 0" using s(8) by simp
  have own: "\<forall>y. target_edge compiler t y \<longrightarrow>
      y \<in> set (edges_of (succeeding_edges ?c1) t) \<or> visit_order ?c1 y = Some 0"
  proof (intro allI impI)
    fix y assume "target_edge compiler t y"
    then have "y \<in> set (branch_targets block)"
      using visits_fresh.hyps(2) by (simp add: target_edge_block)
    with in1(3) g1 [of t] show "y \<in> set (edges_of (succeeding_edges ?c1) t) \<or>
        visit_order ?c1 y = Some 0" by auto
  qed
  have c3: "complete_ok compiler ?c3"
    by (rule complete_add_branch [OF complete_finish [OF c1 n1 t1 own]])
  from visits_fresh.IH(2) [OF s(10-12) c3]
  have ih: "complete_ok compiler cfg'"
    "\<forall>x. set (edges_of (succeeding_edges ?c3) x) \<subseteq> set (edges_of (succeeding_edges cfg') x)"
    "\<forall>t \<in> set ts. t \<in> set (edges_of (succeeding_edges cfg') b) \<or> visit_order cfg' t = Some 0"
    by simp_all
  have g3: "set (edges_of (succeeding_edges ?c1) x) \<subseteq> set (edges_of (succeeding_edges ?c3) x)" for x
    by auto
  have g: "set (edges_of (succeeding_edges cfg) x) \<subseteq> set (edges_of (succeeding_edges cfg') x)" for x
    using in1(2) [rule_format, of x] g1 [of x] g3 [of x] ih(2) [rule_format, of x] by auto
  have "t \<in> set (edges_of (succeeding_edges ?c3) b)" by simp
  with ih(2) [rule_format, of b] have "t \<in> set (edges_of (succeeding_edges cfg') b)" by blast
  with ih(1,3) g show ?case by simp
qed

subsection \<open>Dominators finish later\<close>

lemma dom_later_add_branch [simp]:
  "dom_later compiler e (add_branch cfg f t) = dom_later compiler e cfg"
  by (simp add: dom_later_def)

lemma dom_later_loop_merge_edge [simp]:
  "dom_later compiler e (loop_merge_edge cfg t block) = dom_later compiler e cfg"
  by (simp add: dom_later_def)

lemma dom_later_mark:
  assumes "dom_later compiler e cfg" "visit_order cfg t = None"
  shows "dom_later compiler e (mark_block cfg t)"
  unfolding dom_later_def
proof (intro allI impI)
  fix x m assume "dominates compiler e x m" "x \<noteq> m" "m \<in> set (post_order (mark_block cfg t))"
  with assms(1) have "visit_order cfg x = Some 0 \<or>
      (\<exists>vx vm. visit_order cfg x = Some vx \<and> visit_order cfg m = Some vm \<and> vm < vx)"
    by (simp add: dom_later_def)
  with assms(2) show "visit_order (mark_block cfg t) x = Some 0 \<or>
      (\<exists>vx vm. visit_order (mark_block cfg t) x = Some vx \<and>
         visit_order (mark_block cfg t) m = Some vm \<and> vm < vx)"
    by auto
qed

lemma on_stack_dominator:
  assumes "on_stack compiler e cfg t" "dominates compiler e x t"
  shows "visit_order cfg x = Some 0"
  using assms unfolding on_stack_def dominates_def by blast

lemma dom_later_finish:
  assumes d: "dom_later compiler e cfg" and n: "numbering_ok cfg"
    and s: "on_stack compiler e cfg t"
  shows "dom_later compiler e (finish_block cfg t)"
  unfolding dom_later_def
proof (intro allI impI)
  let ?c = "finish_block cfg t"
  fix x m assume dm: "dominates compiler e x m" and xm: "x \<noteq> m"
    and m: "m \<in> set (post_order ?c)"
  have t: "visit_order cfg t = Some 0"
    by (rule on_stack_dominator [OF s dominates_refl])
  show "visit_order ?c x = Some 0 \<or>
      (\<exists>vx vm. visit_order ?c x = Some vx \<and> visit_order ?c m = Some vm \<and> vm < vx)"
  proof (cases "m = t")
    case True
    with on_stack_dominator [OF s] dm have "visit_order cfg x = Some 0" by simp
    with xm True show ?thesis by simp
  next
    case False
    with m have mp: "m \<in> set (post_order cfg)" by simp
    from numbering_finished [OF n mp] obtain v where
      v: "visit_order cfg m = Some v" "0 < v" "v \<le> int (visit_count cfg)" by blast
    from d dm xm mp have "visit_order cfg x = Some 0 \<or>
        (\<exists>vx vm. visit_order cfg x = Some vx \<and> visit_order cfg m = Some vm \<and> vm < vx)"
      by (simp add: dom_later_def)
    then consider "visit_order cfg x = Some 0" | vx where "visit_order cfg x = Some vx" "v < vx"
      using v(1) by auto
    then show ?thesis
    proof cases
      case 1
      show ?thesis
      proof (cases "x = t")
        case True
        with False v show ?thesis by simp
      next
        case xt: False
        with 1 show ?thesis by simp
      qed
    next
      case 2
      with v(2) t have "x \<noteq> t" by auto
      with 2 False v(1) show ?thesis by simp
    qed
  qed
qed

lemma on_stack_mark:
  assumes "on_stack compiler e cfg b" "target_edge compiler b t"
  shows "on_stack compiler e (mark_block cfg t) t"
proof -
  from assms(1) obtain p where p: "p \<noteq> []" "hd p = e" "last p = b"
    "path_in (live_edge compiler e) p"
    "\<forall>y \<in> set p. visit_order cfg y = Some 0 \<and> reaches compiler e y"
    by (auto simp: on_stack_def)
  from p(1,3,5) have rb: "reaches compiler e b" using last_in_set by blast
  have rt: "reaches compiler e t" by (rule reaches_step [OF rb assms(2)])
  from rb rt assms(2) have "live_edge compiler e b t"
    by (simp add: live_edge_def flow_edge_def)
  with p have "path_in (live_edge compiler e) (p @ [t])" by (simp add: path_in_snoc)
  with p rt show ?thesis
    unfolding on_stack_def by (intro exI [of _ "p @ [t]"]) auto
qed

lemma on_stack_same:
  assumes "on_stack compiler e cfg b" "\<forall>y. visit_order cfg y = Some 0 \<longrightarrow> visit_order cfg' y = Some 0"
  shows "on_stack compiler e cfg' b"
  using assms unfolding on_stack_def by blast

lemma visits_dom_later:
  assumes "visits compiler cfg b ts cfg'"
  shows "dfs_inv compiler cfg \<Longrightarrow> later_ok cfg \<Longrightarrow> visit_order cfg b = Some 0 \<Longrightarrow>
         \<forall>t \<in> set ts. target_edge compiler b t \<Longrightarrow>
         on_stack compiler e cfg b \<Longrightarrow> dom_later compiler e cfg \<Longrightarrow>
         dom_later compiler e cfg'"
  using assms
proof (induction rule: visits.induct)
  case (visits_Nil cfg b)
  then show ?case by simp
next
  case (visits_back cfg t b ts cfg')
  then show ?case by simp
next
  case (visits_cross cfg t v b ts cfg')
  note s = cross_step [OF visits_cross.prems(1-3) visits_cross.hyps(1,2)]
  from visits_cross.prems(4) have rest: "\<forall>t \<in> set ts. target_edge compiler b t" by simp
  have st: "on_stack compiler e (add_branch cfg b t) b"
    by (rule on_stack_same [OF visits_cross.prems(5)]) simp
  have "dom_later compiler e (add_branch cfg b t)" using visits_cross.prems(6) by simp
  from visits_cross.IH [OF s rest st this] show ?case .
next
  case (visits_fresh cfg t block cfg1 b ts cfg')
  note s = fresh_step [OF visits_fresh.prems(1-3) visits_fresh.hyps(1-3)]
  from visits_fresh.prems(4) have te: "target_edge compiler b t"
    and rest: "\<forall>t \<in> set ts. target_edge compiler b t" by simp_all
  let ?c0 = "mark_block cfg t"
  have tt: "\<forall>x \<in> set (branch_targets block). target_edge compiler t x"
    using visits_fresh.hyps(2) by (simp add: target_edge_block)
  have st0: "on_stack compiler e ?c0 t"
    by (rule on_stack_mark [OF visits_fresh.prems(5) te])
  have d0: "dom_later compiler e ?c0" by (rule dom_later_mark [OF visits_fresh.prems(6) s(1)])
  have v0: "visit_order ?c0 t = Some 0" by simp
  have d1: "dom_later compiler e cfg1" by (rule visits_fresh.IH(1) [OF s(3,4) v0 tt st0 d0])
  let ?c1 = "loop_merge_edge cfg1 t block"
  let ?c3 = "add_branch (finish_block ?c1 t) b t"
  have st1: "on_stack compiler e ?c1 t"
    by (rule on_stack_same [OF st0]) (use s(7) in \<open>simp add: same_in_progress_def\<close>)
  have n1: "numbering_ok ?c1" using s(5) by (simp add: dfs_inv_def)
  have "dom_later compiler e ?c1" using d1 by simp
  from dom_later_finish [OF this n1 st1] have d3: "dom_later compiler e ?c3" by simp
  have st3: "on_stack compiler e ?c3 b"
  proof (rule on_stack_same [OF visits_fresh.prems(5)], intro allI impI)
    fix y assume y: "visit_order cfg y = Some 0"
    with s(1) have "y \<noteq> t" by auto
    moreover from y s(7) \<open>y \<noteq> t\<close> have "visit_order cfg1 y = Some 0"
      by (simp add: same_in_progress_def)
    ultimately show "visit_order ?c3 y = Some 0" by simp
  qed
  from visits_fresh.IH(2) [OF s(10-12) rest st3 d3] show ?case .
qed

subsection \<open>What the traversal from the entry block leaves behind\<close>

lemma dfs_result_flow:
  assumes "build_post_order_visit_order fuel compiler entry_block empty_CFG = Inr cfg"
  shows "flow_ok compiler cfg" and "entered_ok compiler entry_block cfg"
    and "complete_ok compiler cfg" and "dom_later compiler entry_block cfg"
proof -
  let ?init = "empty_CFG\<lparr>visit_count := 0, visit_order := Map.empty, post_order := []\<rparr>"
  from assms obtain ok where run: "post_order_visit fuel compiler ?init entry_block = Inr (ok, cfg)"
    by (auto simp: build_post_order_visit_order_def split: sum.splits)
  then obtain n where fuel: "fuel = Suc n" by (cases fuel) auto
  have fresh: "visit_order_or_default ?init entry_block < 0"
    by (simp add: visit_order_or_default_def)
  let ?c0 = "mark_block ?init entry_block"
  from run fresh obtain block cfg3 where
    blk: "get_block compiler entry_block = Some block"
    and inner: "visit_targets n compiler ?c0 entry_block (branch_targets block) = Inr cfg3"
    and cfg: "cfg = finish_block (loop_merge_edge cfg3 entry_block block) entry_block"
    unfolding fuel
    by (auto simp: post_order_visit_fresh simp del: post_order_visit.simps
             split: option.splits sum.splits)
  have vis: "visits compiler ?c0 entry_block (branch_targets block) cfg3"
    by (rule visit_targets_visits [OF inner])
  have none: "visit_order ?init entry_block = None" by simp
  have i0: "dfs_inv compiler ?c0" by (rule dfs_inv_mark [OF empty_start(1) none blk])
  have l0: "later_ok ?c0" by (rule later_mark [OF empty_start(2) none])
  have v0: "visit_order ?c0 entry_block = Some 0" by simp
  have tt: "\<forall>x \<in> set (branch_targets block). target_edge compiler entry_block x"
    using blk by (simp add: target_edge_block)
  have f0: "flow_ok compiler ?c0" by (simp add: flow_ok_def empty_CFG_def edges_of_def)
  have e0: "entered_ok compiler entry_block ?c0"
    by (simp add: entered_ok_def reaches_refl)
  have c0: "complete_ok compiler ?c0" by (simp add: complete_ok_def)
  have d0: "dom_later compiler entry_block ?c0" by (simp add: dom_later_def)
  have s0: "on_stack compiler entry_block ?c0 entry_block"
    unfolding on_stack_def by (rule exI [of _ "[entry_block]"]) (simp add: reaches_refl)
  from visits_invariant [OF vis i0 l0 v0]
  have r: "dfs_inv compiler cfg3" "same_in_progress ?c0 cfg3" by blast+
  from r(2) have e3: "visit_order cfg3 entry_block = Some 0"
    by (auto simp: same_in_progress_def)
  let ?c1 = "loop_merge_edge cfg3 entry_block block"
  have n1: "numbering_ok ?c1" using r(1) by (simp add: dfs_inv_def)
  have t1: "visit_order ?c1 entry_block = Some 0" using e3 by simp
  from visits_flow [OF vis i0 l0 v0 tt f0 e0]
  have f3: "flow_ok compiler cfg3" and en3: "entered_ok compiler entry_block cfg3" by simp_all
  from flow_loop_merge_edge [OF f3 blk] show "flow_ok compiler cfg" unfolding cfg by simp
  from entered_finish [of compiler entry_block ?c1 entry_block] en3 t1
  show "entered_ok compiler entry_block cfg" unfolding cfg by simp
  from visits_complete [OF vis i0 l0 v0 c0]
  have c3: "complete_ok compiler cfg3"
    and own3: "\<forall>y \<in> set (branch_targets block).
        y \<in> set (edges_of (succeeding_edges cfg3) entry_block) \<or> visit_order cfg3 y = Some 0"
    by simp_all
  have own: "\<forall>y. target_edge compiler entry_block y \<longrightarrow>
      y \<in> set (edges_of (succeeding_edges ?c1) entry_block) \<or> visit_order ?c1 y = Some 0"
  proof (intro allI impI)
    fix y assume "target_edge compiler entry_block y"
    then have "y \<in> set (branch_targets block)" using blk by (simp add: target_edge_block)
    with own3 show "y \<in> set (edges_of (succeeding_edges ?c1) entry_block) \<or>
        visit_order ?c1 y = Some 0" by (auto simp: loop_merge_edge_def)
  qed
  show "complete_ok compiler cfg"
    unfolding cfg by (rule complete_finish [OF complete_loop_merge_edge [OF c3] n1 t1 own])
  have d3: "dom_later compiler entry_block cfg3"
    by (rule visits_dom_later [OF vis i0 l0 v0 tt s0 d0])
  have s3: "on_stack compiler entry_block ?c1 entry_block"
    by (rule on_stack_same [OF s0]) (use r(2) in \<open>simp add: same_in_progress_def\<close>)
  have "dom_later compiler entry_block ?c1" using d3 by simp
  from dom_later_finish [OF this n1 s3] show "dom_later compiler entry_block cfg"
    unfolding cfg .
qed

section \<open>The dominator pass\<close>

subsection \<open>Visit orders as numbers\<close>

lemma get_visit_order_order_of:
  "get_visit_order c x = (if 0 < order_of c x then Inr (order_of c x) else Inl VisitOrderAssert)"
  by (auto simp: order_of_def get_visit_order_def split: option.splits)

lemma order_of_cong:
  "visit_order c = visit_order d \<Longrightarrow> order_of c = order_of d"
  by (auto simp: order_of_def get_visit_order_def fun_eq_iff)

lemma order_of_idom_update [simp]:
  "order_of (c\<lparr>immediate_dominators := m\<rparr>) = order_of c"
  by (rule order_of_cong) simp

lemma order_of_pred_update [simp]:
  "order_of (c\<lparr>preceding_edges := m\<rparr>) = order_of c"
  by (rule order_of_cong) simp

lemma get_idom_update [simp]:
  "get_immediate_dominator (c\<lparr>immediate_dominators := m\<rparr>) x = (case m x of None \<Rightarrow> 0 | Some q \<Rightarrow> q)"
  by (simp add: get_immediate_dominator_def)

lemma get_idom_pred_update [simp]:
  "get_immediate_dominator (c\<lparr>preceding_edges := m\<rparr>) = get_immediate_dominator c"
  by (simp add: get_immediate_dominator_def fun_eq_iff)

lemma fcd_same:  "find_common_dominator fuel c a a = Inr a"
  by (cases fuel) simp_all

lemma fcd_Suc:
  "a \<noteq> b \<Longrightarrow> find_common_dominator (Suc n) c a b =
     (if order_of c a = 0 \<or> order_of c b = 0 then Inl VisitOrderAssert
      else if order_of c a < order_of c b
      then find_common_dominator n c (get_immediate_dominator c a) b
      else find_common_dominator n c a (get_immediate_dominator c b))"
  by (simp add: get_visit_order_order_of)

lemma fcd_cong:
  "visit_order c = visit_order d \<Longrightarrow> immediate_dominators c = immediate_dominators d \<Longrightarrow>
   find_common_dominator fuel c a b = find_common_dominator fuel d a b"
proof (induction fuel arbitrary: a b)
  case 0
  then show ?case by simp
next
  case (Suc n)
  have g: "get_immediate_dominator c = get_immediate_dominator d"
    using Suc.prems by (simp add: get_immediate_dominator_def fun_eq_iff)
  show ?case
  proof (cases "a = b")
    case True
    then show ?thesis by simp
  next
    case False
    then show ?thesis
      using Suc.IH [OF Suc.prems] g order_of_cong [OF Suc.prems(1)]
      by (simp add: fcd_Suc del: find_common_dominator.simps)
  qed
qed

lemma ordered_nonzero:
  assumes "order_of c 0 = 0" "0 < order_of c x"
  shows "x \<noteq> 0"
  using assms by (cases "x = 0") simp_all

subsection \<open>Walking a dominator map that only leads upwards\<close>

lemma walk_up:
  assumes "dom_tree c"
  shows "immediate_dominators c a \<noteq> None \<Longrightarrow> immediate_dominators c b \<noteq> None \<Longrightarrow>
         find_common_dominator fuel c a b = Inr r \<Longrightarrow>
         immediate_dominators c r \<noteq> None \<and> order_of c a \<le> order_of c r \<and>
         order_of c b \<le> order_of c r"
proof (induction fuel arbitrary: a b)
  case 0
  then show ?case by (auto split: if_splits)
next
  case (Suc n)
  show ?case
  proof (cases "a = b")
    case True
    with Suc.prems show ?thesis by simp
  next
    case False
    from Suc.prems(1) obtain qa where qa: "immediate_dominators c a = Some qa" by auto
    from Suc.prems(2) obtain qb where qb: "immediate_dominators c b = Some qb" by auto
    from assms qa
    have "immediate_dominators c qa \<noteq> None \<and> (qa = a \<or> order_of c a < order_of c qa)"
      unfolding dom_tree_def by blast
    then have ua: "immediate_dominators c qa \<noteq> None" "order_of c a \<le> order_of c qa"
      by auto
    from assms qb
    have "immediate_dominators c qb \<noteq> None \<and> (qb = b \<or> order_of c b < order_of c qb)"
      unfolding dom_tree_def by blast
    then have ub: "immediate_dominators c qb \<noteq> None" "order_of c b \<le> order_of c qb"
      by auto
    have ga: "get_immediate_dominator c a = qa" and gb: "get_immediate_dominator c b = qb"
      using qa qb by (simp_all add: get_immediate_dominator_def)
    from Suc.prems(3) False have ok: "\<not> (order_of c a = 0 \<or> order_of c b = 0)"
      by (auto simp: fcd_Suc simp del: find_common_dominator.simps split: if_splits)
    show ?thesis
    proof (cases "order_of c a < order_of c b")
      case True
      with Suc.prems(3) False ok ga
      have "find_common_dominator n c qa b = Inr r"
        by (simp add: fcd_Suc del: find_common_dominator.simps)
      from Suc.IH [OF ua(1) Suc.prems(2) this] ua(2) show ?thesis by simp
    next
      case nlt: False
      with Suc.prems(3) False ok gb
      have "find_common_dominator n c a qb = Inr r"
        by (simp add: fcd_Suc del: find_common_dominator.simps)
      from Suc.IH [OF Suc.prems(1) ub(1) this] ub(2) show ?thesis by simp
    qed
  qed
qed

subsection \<open>Folding the predecessors of one block\<close>

lemma fold_inv_update:
  assumes "fold_inv c b"
  shows "fold_inv (c\<lparr>immediate_dominators := (immediate_dominators c)(b \<mapsto> r)\<rparr>) b"
  using assms unfolding fold_inv_def by simp

lemma fold_inv_above:
  assumes "fold_inv c b" "immediate_dominators c q \<noteq> None" "q \<noteq> b"
  shows "order_of c b < order_of c q"
  using assms by (auto simp: fold_inv_def)

lemma settled_dom_tree:
  assumes "fold_inv c b" "settled c b"
  shows "dom_tree c"
  unfolding dom_tree_def
proof (intro allI impI)
  fix p q assume pq: "immediate_dominators c p = Some q"
  show "immediate_dominators c q \<noteq> None \<and> (q = p \<or> order_of c p < order_of c q)"
  proof (cases "p = b")
    case False
    with assms(1) pq show ?thesis by (auto simp: fold_inv_def)
  next
    case True
    with assms(2) pq have q: "q = b \<or> immediate_dominators c q \<noteq> None"
      by (auto simp: settled_def)
    show ?thesis
    proof (cases "q = b")
      case True
      with pq \<open>p = b\<close> show ?thesis by simp
    next
      case False
      with q have "immediate_dominators c q \<noteq> None" by simp
      with fold_inv_above [OF assms(1) this False] \<open>p = b\<close> show ?thesis by simp
    qed
  qed
qed

lemma unsettled_fails:
  assumes inv: "fold_inv c b"
    and cb: "immediate_dominators c b = Some q" "q \<noteq> b" "immediate_dominators c q = None"
    and e: "immediate_dominators c e \<noteq> None" "e \<noteq> b"
  shows "find_common_dominator fuel c b e \<noteq> Inr r"
proof -
  have be: "order_of c b < order_of c e" by (rule fold_inv_above [OF inv e])
  have pos: "0 < order_of c b" and zero: "order_of c 0 = 0"
    using inv by (auto simp: fold_inv_def)
  have gb: "get_immediate_dominator c b = q" using cb(1) by (simp add: get_immediate_dominator_def)
  have gq: "get_immediate_dominator c q = 0" using cb(3) by (simp add: get_immediate_dominator_def)
  have qe: "q \<noteq> e" using cb(3) e(1) by auto
  have e0: "e \<noteq> 0" using be by (intro ordered_nonzero [OF zero]) simp
  have qle: "order_of c q \<le> order_of c b"
    using inv cb(3) by (auto simp: fold_inv_def not_less [symmetric])
  show ?thesis
  proof (cases fuel)
    case 0
    with e(2) show ?thesis by auto
  next
    case (Suc n)
    then have s1: "find_common_dominator fuel c b e = find_common_dominator n c q e"
      using be pos gb e(2) by (simp add: fcd_Suc del: find_common_dominator.simps)
    show ?thesis
    proof (cases n)
      case 0
      with s1 qe show ?thesis by simp
    next
      case (Suc m)
      show ?thesis
      proof (cases "order_of c q = 0")
        case True
        with s1 Suc qe show ?thesis by (simp add: fcd_Suc del: find_common_dominator.simps)
      next
        case False
        with s1 Suc qe qle be gq
        have s2: "find_common_dominator fuel c b e = find_common_dominator m c 0 e"
          by (simp add: fcd_Suc del: find_common_dominator.simps)
        show ?thesis
        proof (cases m)
          case 0
          with s2 e0 show ?thesis by simp
        next
          case (Suc k)
          with s2 e0 zero show ?thesis
            by (simp add: fcd_Suc del: find_common_dominator.simps)
        qed
      qed
    qed
  qed
qed

lemma step_settled:
  assumes inv: "fold_inv c b"
    and cb: "get_immediate_dominator c b \<noteq> 0"
    and e: "get_immediate_dominator c e \<noteq> 0"
    and run: "find_common_dominator fuel c b e = Inr r"
  shows "settled (c\<lparr>immediate_dominators := (immediate_dominators c)(b \<mapsto> r)\<rparr>) b"
proof -
  from cb obtain q where q: "immediate_dominators c b = Some q" "q \<noteq> 0"
    by (auto simp: get_immediate_dominator_def split: option.splits)
  from e have ed: "immediate_dominators c e \<noteq> None"
    by (auto simp: get_immediate_dominator_def split: option.splits)
  have pos: "0 < order_of c b" and zero: "order_of c 0 = 0"
    using inv by (auto simp: fold_inv_def)
  show ?thesis
  proof (cases "e = b")
    case True
    with run have "r = b" by (simp add: fcd_same)
    with ordered_nonzero [OF zero pos] show ?thesis by (simp add: settled_def)
  next
    case False
    have st: "settled c b"
    proof (rule ccontr)
      assume "\<not> settled c b"
      with q have "q \<noteq> b" "immediate_dominators c q = None" by (auto simp: settled_def)
      from unsettled_fails [OF inv q(1) this ed False] run show False by blast
    qed
    have bd: "immediate_dominators c b \<noteq> None" using q by simp
    from walk_up [OF settled_dom_tree [OF inv st] bd ed run]
    have r: "immediate_dominators c r \<noteq> None" "order_of c b \<le> order_of c r" by simp_all
    have "r \<noteq> 0" using pos r(2) by (intro ordered_nonzero [OF zero]) simp
    with r show ?thesis by (auto simp: settled_def)
  qed
qed

lemma fold_preds_inv:
  "fold_inv c b \<Longrightarrow> fold_preds fuel c b es = Inr c' \<Longrightarrow>
     fold_inv c' b \<and> fold_frame c c' b \<and> (settled c b \<longrightarrow> settled c' b) \<and>
     ((\<exists>x \<in> set es. x \<noteq> b \<and> immediate_dominators c x \<noteq> None) \<longrightarrow> settled c' b)"
proof (induction es arbitrary: c)
  case Nil
  then show ?case by (simp add: fold_frame_def)
next
  case (Cons e es)
  show ?case
  proof (cases "get_immediate_dominator c b = 0")
    case True
    let ?c1 = "c\<lparr>immediate_dominators := (immediate_dominators c)(b \<mapsto> e)\<rparr>"
    from Cons.prems(2) True have run: "fold_preds fuel ?c1 b es = Inr c'" by simp
    have inv1: "fold_inv ?c1 b" by (rule fold_inv_update [OF Cons.prems(1)])
    from Cons.IH [OF inv1 run]
    have ih: "fold_inv c' b" "fold_frame ?c1 c' b" "settled ?c1 b \<longrightarrow> settled c' b"
      "(\<exists>x \<in> set es. x \<noteq> b \<and> immediate_dominators ?c1 x \<noteq> None) \<longrightarrow> settled c' b"
      by blast+
    have frame: "fold_frame c c' b" using ih(2) by (auto simp: fold_frame_def)
    have nots: "\<not> settled c b"
      using True by (auto simp: settled_def get_immediate_dominator_def)
    have zero: "order_of c 0 = 0" using Cons.prems(1) by (simp add: fold_inv_def)
    have "settled c' b" if x: "x \<in> set (e # es)" "x \<noteq> b" "immediate_dominators c x \<noteq> None" for x
    proof (cases "x = e")
      case True
      have "x \<noteq> 0"
        using fold_inv_above [OF Cons.prems(1) x(3) x(2)]
        by (intro ordered_nonzero [OF zero]) simp
      with True x have "settled ?c1 b" by (auto simp: settled_def)
      with ih(3) show ?thesis by simp
    next
      case False
      with x have "x \<in> set es" "immediate_dominators ?c1 x \<noteq> None" by auto
      with ih(4) x(2) show ?thesis by blast
    qed
    with ih(1) frame nots show ?thesis by blast
  next
    case False
    from Cons.prems(2) False obtain r where
      e: "get_immediate_dominator c e \<noteq> 0"
      and r: "find_common_dominator fuel c b e = Inr r"
      and run: "fold_preds fuel (c\<lparr>immediate_dominators := (immediate_dominators c)(b \<mapsto> r)\<rparr>) b es = Inr c'"
      by (auto split: if_splits sum.splits)
    let ?c1 = "c\<lparr>immediate_dominators := (immediate_dominators c)(b \<mapsto> r)\<rparr>"
    have inv1: "fold_inv ?c1 b" by (rule fold_inv_update [OF Cons.prems(1)])
    have st1: "settled ?c1 b" by (rule step_settled [OF Cons.prems(1) False e r])
    from Cons.IH [OF inv1 run]
    have ih: "fold_inv c' b" "fold_frame ?c1 c' b" "settled ?c1 b \<longrightarrow> settled c' b"
      by blast+
    have frame: "fold_frame c c' b" using ih(2) by (auto simp: fold_frame_def)
    from ih(1) frame ih(3) st1 show ?thesis by blast
  qed
qed

subsection \<open>What the traversal leaves behind, in terms of visit orders\<close>

lemma done_numbering: "dfs_done compiler e d \<Longrightarrow> numbering_ok d"
  by (simp add: dfs_done_def dfs_inv_def)

lemma done_nth:
  assumes "dfs_done compiler e d" "i < length (post_order d)"
  shows "order_of d (post_order d ! i) = Suc i"
proof -
  from done_numbering [OF assms(1)] assms(2)
  have "visit_order d (post_order d ! i) = Some (int (Suc i))"
    by (simp add: numbering_ok_def)
  then show ?thesis by (simp add: order_of_def get_visit_order_def)
qed

lemma done_visited:
  assumes "dfs_done compiler e d" "0 < order_of d x"
  shows "x \<in> set (post_order d)"
proof -
  from assms(2) obtain v where "visit_order d x = Some v" "0 < v"
    by (auto simp: order_of_def get_visit_order_def split: option.splits if_splits)
  then show ?thesis by (rule numbering_positive [OF done_numbering [OF assms(1)]])
qed

lemma done_inj:
  assumes "dfs_done compiler e d" "0 < order_of d x" "order_of d x = order_of d y"
  shows "x = y"
proof -
  from done_visited [OF assms(1,2)] obtain i where i: "i < length (post_order d)"
    "post_order d ! i = x" by (auto simp: in_set_conv_nth)
  from assms(2,3) have "0 < order_of d y" by simp
  from done_visited [OF assms(1) this] obtain j where j: "j < length (post_order d)"
    "post_order d ! j = y" by (auto simp: in_set_conv_nth)
  from done_nth [OF assms(1) i(1)] done_nth [OF assms(1) j(1)] i(2) j(2) assms(3)
  have "i = j" by simp
  with i j show ?thesis by simp
qed

lemma done_zero:
  assumes "dfs_done compiler e d"
  shows "order_of d 0 = 0"
proof (rule ccontr)
  assume "order_of d 0 \<noteq> 0"
  then have "0 < order_of d 0" by simp
  then have "visit_order d 0 \<noteq> None"
    by (auto simp: order_of_def get_visit_order_def split: option.splits)
  with assms have "get_block compiler 0 \<noteq> None"
    by (auto simp: dfs_done_def dfs_inv_def blocks_ok_def)
  then show False by (simp add: get_block_def)
qed

lemma done_le:
  assumes "dfs_done compiler e d"
  shows "order_of d x \<le> length (post_order d)"
proof (cases "0 < order_of d x")
  case True
  from done_visited [OF assms True] obtain i where i: "i < length (post_order d)"
    "post_order d ! i = x" by (auto simp: in_set_conv_nth)
  with done_nth [OF assms i(1)] show ?thesis by simp
next
  case False
  then show ?thesis by simp
qed

lemma done_later:
  assumes "dfs_done compiler e d" "x \<in> set (post_order d)" "x \<noteq> e"
  shows "\<exists>p \<in> set (edges_of (preceding_edges d) x). order_of d x < order_of d p"
proof -
  from assms obtain p where p: "p \<in> set (edges_of (preceding_edges d) x)"
    and f: "forward_edge d p x"
    by (auto simp: dfs_done_def later_pred_def)
  from f obtain vt vf where v: "visit_order d x = Some vt" "visit_order d p = Some vf"
    "0 < vt" "vf = 0 \<or> vt < vf" by (auto simp: forward_edge_def)
  from assms(1) v(2) have "vf \<noteq> 0" by (auto simp: dfs_done_def)
  with v have "order_of d x < order_of d p"
    by (simp add: order_of_def get_visit_order_def)
  with p show ?thesis by blast
qed

lemma done_map:
  assumes "dfs_done compiler e d"
  shows "map (order_of d) (post_order d) = [1..<Suc (length (post_order d))]"
  by (rule nth_equalityI) (simp_all add: done_nth [OF assms] nth_upt del: upt_Suc)

subsection \<open>The loop over all blocks\<close>

lemma same_graph_order: "same_graph d c \<Longrightarrow> order_of c = order_of d"
  by (rule order_of_cong) (simp add: same_graph_def)

lemma same_graph_CFG:
  "same_graph d c \<Longrightarrow> same_graph d (c\<lparr>preceding_edges := (preceding_edges c)
       (b \<mapsto> edges_of (preceding_edges c) b)\<rparr>)"
  by (auto simp: same_graph_def edges_of_def)

lemma same_graph_frame:
  "same_graph d c \<Longrightarrow> fold_frame c c' b \<Longrightarrow> same_graph d c'"
  by (auto simp: same_graph_def fold_frame_def)

lemma loop_step:
  assumes d: "dfs_done compiler e d"
    and g: "same_graph d c"
    and inv: "loop_inv c (order_of d b)"
    and pos: "0 < order_of d b"
    and later: "\<exists>x \<in> set (edges_of (preceding_edges d) b). order_of d b < order_of d x"
    and run: "fold_preds fuel c b (edges_of (preceding_edges d) b) = Inr c'"
  shows "loop_inv c' (order_of d b - 1) \<and> same_graph d c' \<and>
         (\<forall>p. p \<noteq> b \<longrightarrow> immediate_dominators c' p = immediate_dominators c p)"
proof -
  have oc: "order_of c = order_of d" by (rule same_graph_order [OF g])
  have fi: "fold_inv c b"
    using inv pos done_zero [OF d] unfolding fold_inv_def loop_inv_def oc by blast
  from later obtain x where x: "x \<in> set (edges_of (preceding_edges d) b)"
    "order_of d b < order_of d x" by blast
  from inv x(2) have xd: "immediate_dominators c x \<noteq> None"
    unfolding loop_inv_def oc by blast
  from x(2) have xb: "x \<noteq> b" by auto
  from fold_preds_inv [OF fi run] x(1) xb xd
  have r: "fold_inv c' b" "fold_frame c c' b" "settled c' b" by blast+
  have g': "same_graph d c'" by (rule same_graph_frame [OF g r(2)])
  have oc': "order_of c' = order_of d" by (rule same_graph_order [OF g'])
  from r(3) obtain q where q: "immediate_dominators c' b = Some q" "q \<noteq> 0"
    "q = b \<or> immediate_dominators c' q \<noteq> None" by (auto simp: settled_def)
  have zero: "order_of d 0 = 0" by (rule done_zero [OF d])
  have "loop_inv c' (order_of d b - 1)"
    unfolding loop_inv_def oc'
  proof (intro conjI allI impI)
    fix p qq assume pq: "immediate_dominators c' p = Some qq"
    show "order_of d b - 1 < order_of d p"
    proof (cases "p = b")
      case True
      with pos show ?thesis by simp
    next
      case False
      with r(1) pq have "order_of d b < order_of d p"
        unfolding fold_inv_def oc' by blast
      then show ?thesis by simp
    qed
    show "qq \<noteq> 0"
    proof (cases "p = b")
      case True
      with pq q show ?thesis by simp
    next
      case False
      with r(1) pq have "immediate_dominators c' qq \<noteq> None"
        "qq = p \<or> order_of d p < order_of d qq" "order_of d b < order_of d p"
        unfolding fold_inv_def oc' by blast+
      then have "0 < order_of d qq" by auto
      then show ?thesis by (rule ordered_nonzero [OF zero])
    qed
    show "immediate_dominators c' qq \<noteq> None"
    proof (cases "p = b")
      case True
      with pq q show ?thesis by auto
    next
      case False
      with r(1) pq show ?thesis unfolding fold_inv_def by blast
    qed
    show "qq = p \<or> order_of d p < order_of d qq"
    proof (cases "p = b")
      case True
      with pq q have qq: "qq = q" by simp
      show ?thesis
      proof (cases "q = b")
        case True
        with qq \<open>p = b\<close> show ?thesis by simp
      next
        case False
        with q(3) have "immediate_dominators c' q \<noteq> None" by simp
        from fold_inv_above [OF r(1) this False] qq \<open>p = b\<close> show ?thesis
          by (simp add: oc')
      qed
    next
      case False
      with r(1) pq show ?thesis unfolding fold_inv_def oc' by blast
    qed
  next
    fix p assume "order_of d b - 1 < order_of d p"
    then consider "order_of d b < order_of d p" | "order_of d p = order_of d b" by linarith
    then show "immediate_dominators c' p \<noteq> None"
    proof cases
      case 1
      with r(1) show ?thesis unfolding fold_inv_def oc' by blast
    next
      case 2
      with done_inj [OF d pos, of p] have "p = b" by simp
      with q show ?thesis by simp
    qed
  qed
  with g' r(2) show ?thesis by (simp add: fold_frame_def)
qed

lemma dominator_loop_inv:
  assumes d: "dfs_done compiler e d"
  shows "map (order_of d) bs = rev [1..<Suc (length bs)] \<Longrightarrow>
         \<forall>b \<in> set bs. \<exists>x \<in> set (edges_of (preceding_edges d) b). order_of d b < order_of d x \<Longrightarrow>
         same_graph d c \<Longrightarrow> loop_inv c (length bs) \<Longrightarrow>
         dominator_loop fuel c bs = Inr c' \<Longrightarrow>
         loop_inv c' 0 \<and> same_graph d c' \<and>
         (\<forall>p. p \<notin> set bs \<longrightarrow> immediate_dominators c' p = immediate_dominators c p)"
proof (induction bs arbitrary: c)
  case Nil
  then show ?case by simp
next
  case (Cons b bs)
  let ?c1 = "c\<lparr>preceding_edges := (preceding_edges c)(b \<mapsto> edges_of (preceding_edges c) b)\<rparr>"
  from Cons.prems(1) have ob: "order_of d b = Suc (length bs)"
    and rest: "map (order_of d) bs = rev [1..<Suc (length bs)]"
    by simp_all
  have g1: "same_graph d ?c1" by (rule same_graph_CFG [OF Cons.prems(3)])
  have pe: "edges_of (preceding_edges ?c1) b = edges_of (preceding_edges d) b"
    using g1 by (simp add: same_graph_def)
  from Cons.prems(2) have later: "\<exists>x \<in> set (edges_of (preceding_edges d) b).
      order_of d b < order_of d x" by simp
  then have ne: "edges_of (preceding_edges d) b \<noteq> []" by auto
  have inv1: "loop_inv ?c1 (order_of d b)"
    using Cons.prems(4) ob by (simp add: loop_inv_def)
  from Cons.prems(5) pe ne obtain c2 where
    f: "fold_preds fuel ?c1 b (edges_of (preceding_edges d) b) = Inr c2"
    and l: "dominator_loop fuel c2 bs = Inr c'"
    by (auto simp: Let_def split: sum.splits)
  have pos: "0 < order_of d b" using ob by simp
  from loop_step [OF d g1 inv1 pos later f] ob
  have s: "loop_inv c2 (length bs)" "same_graph d c2"
    "\<forall>p. p \<noteq> b \<longrightarrow> immediate_dominators c2 p = immediate_dominators c p"
    by simp_all
  from Cons.prems(2) have later': "\<forall>b \<in> set bs. \<exists>x \<in> set (edges_of (preceding_edges d) b).
      order_of d b < order_of d x" by simp
  from Cons.IH [OF rest later' s(2) s(1) l] s(3) show ?case by simp
qed

lemma fold_entry:
  "immediate_dominators c = [e \<mapsto> e] \<Longrightarrow> e \<noteq> 0 \<Longrightarrow> fold_preds fuel c e es = Inr c' \<Longrightarrow>
     immediate_dominators c' = [e \<mapsto> e] \<and> fold_frame c c' e"
proof (induction es arbitrary: c)
  case Nil
  then show ?case by (simp add: fold_frame_def)
next
  case (Cons x es)
  have ge: "get_immediate_dominator c e = e"
    using Cons.prems(1) by (simp add: get_immediate_dominator_def)
  have gx: "get_immediate_dominator c x = (if x = e then e else 0)"
    using Cons.prems(1) by (simp add: get_immediate_dominator_def)
  from Cons.prems(2,3) ge gx have xe: "x = e"
    by (auto split: if_splits)
  have "(immediate_dominators c)(e \<mapsto> e) = immediate_dominators c"
    using Cons.prems(1) by (auto simp: fun_eq_iff)
  then have same: "c\<lparr>immediate_dominators := (immediate_dominators c)(e \<mapsto> e)\<rparr> = c"
    by simp
  from Cons.prems(2,3) ge gx xe same have "fold_preds fuel c e es = Inr c'"
    by (simp add: fcd_same del: find_common_dominator.simps)
  from Cons.IH [OF Cons.prems(1,2) this] show ?case .
qed

lemma same_graph_done:
  assumes "same_graph d c" "dfs_done compiler e d"
  shows "dfs_done compiler e c"
proof -
  from assms(1) have eq: "visit_order c = visit_order d" "post_order c = post_order d"
    "visit_count c = visit_count d" "succeeding_edges c = succeeding_edges d"
    "\<And>x. edges_of (preceding_edges c) x = edges_of (preceding_edges d) x"
    by (simp_all add: same_graph_def)
  have "numbering_ok c = numbering_ok d" by (simp add: numbering_ok_def eq)
  moreover have "blocks_ok compiler c = blocks_ok compiler d" by (simp add: blocks_ok_def eq)
  moreover have "edges_ok c = edges_ok d" by (simp add: edges_ok_def eq)
  moreover have "loops_ok compiler c = loops_ok compiler d" by (simp add: loops_ok_def eq)
  moreover have "\<And>x y. forward_edge c x y = forward_edge d x y"
    by (simp add: forward_edge_def eq)
  moreover from this have "edge_kinds_ok compiler c = edge_kinds_ok compiler d"
    by (simp add: edge_kinds_ok_def eq)
  moreover from \<open>\<And>x y. forward_edge c x y = forward_edge d x y\<close>
  have "\<And>x. later_pred c x = later_pred d x"
    by (simp add: later_pred_def eq)
  ultimately show ?thesis
    using assms(2) by (simp add: dfs_done_def dfs_inv_def eq)
qed

lemma build_prepare:
  assumes d: "dfs_done compiler e d"
    and run: "build_immediate_dominators fuel e d = Inr cfg"
  shows "\<exists>c2. dominator_loop fuel c2 (rev (butlast (post_order d))) = Inr cfg \<and>
           immediate_dominators c2 = [e \<mapsto> e] \<and> same_graph d c2 \<and>
           loop_inv c2 (length (rev (butlast (post_order d)))) \<and>
           map (order_of d) (rev (butlast (post_order d))) =
             rev [1..<Suc (length (rev (butlast (post_order d))))] \<and>
           e \<notin> set (butlast (post_order d)) \<and> distinct (butlast (post_order d)) \<and>
           set (post_order d) = insert e (set (butlast (post_order d)))"
proof -
  let ?po = "post_order d"
  let ?n = "length ?po"
  from d have ne: "?po \<noteq> []" and last: "last ?po = e" and dist: "distinct ?po"
    by (auto simp: dfs_done_def dfs_inv_def numbering_ok_def)
  have po: "?po = butlast ?po @ [e]" using ne last by (metis append_butlast_last_id)
  then have rv: "rev ?po = e # rev (butlast ?po)" by (metis rev.simps(2) rev_rev_ident rev_swap)
  have ein: "e \<in> set ?po" using ne last by (metis last_in_set)
  have enot: "e \<notin> set (butlast ?po)" using dist po by (metis distinct_append disjoint_iff list.set_intros(1) distinct.simps(2) not_distinct_conv_prefix)
  have dbl: "distinct (butlast ?po)" using dist by (rule distinct_butlast)
  have sets: "set ?po = insert e (set (butlast ?po))" using po by (metis Un_insert_right append_Nil2 list.simps(15) set_append)
  have oe: "order_of d e = ?n"
    using done_nth [OF d, of "?n - 1"] ne last by (simp add: last_conv_nth)
  have zero: "order_of d 0 = 0" by (rule done_zero [OF d])
  have e0: "e \<noteq> 0" using oe ne by (intro ordered_nonzero [OF zero]) simp
  let ?c0 = "d\<lparr>immediate_dominators := [e \<mapsto> e]\<rparr>"
  let ?c1 = "?c0\<lparr>preceding_edges := (preceding_edges ?c0)(e \<mapsto> edges_of (preceding_edges ?c0) e)\<rparr>"
  have g0: "same_graph d ?c0" by (simp add: same_graph_def)
  have g1: "same_graph d ?c1" by (rule same_graph_CFG [OF g0])
  have i1: "immediate_dominators ?c1 = [e \<mapsto> e]" by simp
  from run rv obtain c2 where c2: "dominator_loop fuel c2 (rev (butlast ?po)) = Inr cfg"
    and alt: "c2 = ?c1 \<or> fold_preds fuel ?c1 e (edges_of (preceding_edges ?c1) e) = Inr c2"
    by (auto simp: build_immediate_dominators_def Let_def split: if_splits sum.splits)
  have "immediate_dominators c2 = [e \<mapsto> e] \<and> same_graph d c2"
    using alt
  proof
    assume "c2 = ?c1"
    with i1 g1 show ?thesis by simp
  next
    assume "fold_preds fuel ?c1 e (edges_of (preceding_edges ?c1) e) = Inr c2"
    from fold_entry [OF i1 e0 this] same_graph_frame [OF g1] show ?thesis by blast
  qed
  then have i2: "immediate_dominators c2 = [e \<mapsto> e]" and g2: "same_graph d c2"
    by simp_all
  have o2: "order_of c2 = order_of d" by (rule same_graph_order [OF g2])
  have len: "length (rev (butlast ?po)) = ?n - 1" by simp
  have inv2: "loop_inv c2 (length (rev (butlast ?po)))"
    unfolding loop_inv_def len o2 i2
  proof (intro conjI allI impI)
    fix p q assume pq: "[e \<mapsto> e] p = Some q"
    then have "p = e" "q = e" by (auto split: if_splits)
    then show "?n - 1 < order_of d p" "q \<noteq> 0" "[e \<mapsto> e] q \<noteq> None"
      "q = p \<or> order_of d p < order_of d q"
      using oe ne e0 by simp_all
  next
    fix p assume "?n - 1 < order_of d p"
    with done_le [OF d, of p] have "order_of d e = order_of d p" using oe by simp
    from done_inj [OF d _ this] oe ne have "p = e" by simp
    then show "[e \<mapsto> e] p \<noteq> None" by simp
  qed
  have "map (order_of d) (butlast ?po) = butlast [1..<Suc ?n]"
    using done_map [OF d] by (metis map_butlast)
  also have "\<dots> = [1..<?n]" using ne by (simp add: Suc_le_eq)
  finally have "map (order_of d) (rev (butlast ?po)) = rev [1..<?n]"
    by (metis rev_map)
  moreover have "Suc (length (rev (butlast ?po))) = ?n" using ne by simp
  ultimately
  have m: "map (order_of d) (rev (butlast ?po)) = rev [1..<Suc (length (rev (butlast ?po)))]"
    by (simp only:)
  from c2 i2 g2 inv2 m enot dbl sets show ?thesis by blast
qed

lemma build_immediate_dominators_result:
  assumes d: "dfs_done compiler e d"
    and run: "build_immediate_dominators fuel e d = Inr cfg"
  shows "same_graph d cfg" and "loop_inv cfg 0" and "immediate_dominators cfg e = Some e"
proof -
  let ?po = "post_order d"
  from build_prepare [OF d run] obtain c2 where
    c2: "dominator_loop fuel c2 (rev (butlast ?po)) = Inr cfg"
    and i2: "immediate_dominators c2 = [e \<mapsto> e]" and g2: "same_graph d c2"
    and inv2: "loop_inv c2 (length (rev (butlast ?po)))"
    and m: "map (order_of d) (rev (butlast ?po)) = rev [1..<Suc (length (rev (butlast ?po)))]"
    and enot: "e \<notin> set (butlast ?po)"
    and sets: "set ?po = insert e (set (butlast ?po))"
    by blast
  have later: "\<forall>b \<in> set (rev (butlast ?po)).
      \<exists>x \<in> set (edges_of (preceding_edges d) b). order_of d b < order_of d x"
  proof
    fix b assume b: "b \<in> set (rev (butlast ?po))"
    then have "b \<in> set ?po" using sets by simp
    moreover have "b \<noteq> e" using b enot by auto
    ultimately show "\<exists>x \<in> set (edges_of (preceding_edges d) b). order_of d b < order_of d x"
      by (rule done_later [OF d])
  qed
  from dominator_loop_inv [OF d m later g2 inv2 c2] enot i2
  show "same_graph d cfg" and "loop_inv cfg 0" and "immediate_dominators cfg e = Some e"
    by simp_all
qed

lemma CFG_build_done:
  assumes "CFG_build fuel compiler e = Inr cfg"
  shows "cfg_done compiler e cfg"
proof -
  from assms obtain d where d: "build_post_order_visit_order fuel compiler e empty_CFG = Inr d"
    and run: "build_immediate_dominators fuel e d = Inr cfg"
    by (auto simp: CFG_build_def split: sum.splits)
  have dd: "dfs_done compiler e d" by (rule dfs_result [OF d])
  from build_immediate_dominators_result [OF dd run] same_graph_done [OF _ dd]
  show ?thesis by (simp add: cfg_done_def)
qed

lemma built_finished:
  assumes "cfg_done compiler e cfg" "b \<in> set (post_order cfg)"
  shows "0 < order_of cfg b"
proof -
  from assms(2) obtain i where "i < length (post_order cfg)" "post_order cfg ! i = b"
    by (auto simp: in_set_conv_nth)
  with done_nth [of compiler e cfg i] assms(1) show ?thesis by (auto simp: cfg_done_def)
qed

lemma built_dominator:
  assumes "cfg_done compiler e cfg" "b \<in> set (post_order cfg)"
  shows "\<exists>q. immediate_dominators cfg b = Some q \<and> q \<noteq> 0 \<and> 0 < order_of cfg q \<and>
           (q = b \<or> order_of cfg b < order_of cfg q)"
proof -
  have pos: "0 < order_of cfg b" by (rule built_finished [OF assms])
  from assms(1) have li: "loop_inv cfg 0" by (simp add: cfg_done_def)
  with pos obtain q where q: "immediate_dominators cfg b = Some q"
    unfolding loop_inv_def by blast
  with li have "q \<noteq> 0" "q = b \<or> order_of cfg b < order_of cfg q"
    unfolding loop_inv_def by blast+
  with q pos show ?thesis by auto
qed

lemma built_edge_kinds:
  assumes "dfs_done compiler e d" "y \<in> set (edges_of (succeeding_edges d) x)"
  shows "is_loop_edge compiler x y \<or> (0 < order_of d y \<and> order_of d y < order_of d x)"
proof -
  from assms have "is_loop_edge compiler x y \<or> forward_edge d x y"
    by (auto simp: dfs_done_def dfs_inv_def edge_kinds_ok_def)
  moreover have "0 < order_of d y \<and> order_of d y < order_of d x" if "forward_edge d x y"
  proof -
    from that obtain vt vf where v: "visit_order d y = Some vt" "visit_order d x = Some vf"
      "0 < vt" "vf = 0 \<or> vt < vf" by (auto simp: forward_edge_def)
    from assms(1) v(2) have "vf \<noteq> 0" by (auto simp: dfs_done_def)
    with v show ?thesis by (simp add: order_of_def get_visit_order_def)
  qed
  ultimately show ?thesis by blast
qed

lemma built_symmetric:
  assumes "dfs_done compiler e d"
  shows "y \<in> set (edges_of (succeeding_edges d) x) \<longleftrightarrow> x \<in> set (edges_of (preceding_edges d) y)"
  using assms by (simp add: dfs_done_def dfs_inv_def edges_ok_def)

subsection \<open>No block but the entry block becomes its own dominator\<close>

lemma fold_preds_snoc:
  "fold_preds fuel c b (es @ [x]) =
     (case fold_preds fuel c b es of Inl e \<Rightarrow> Inl e | Inr c1 \<Rightarrow> fold_preds fuel c1 b [x])"
  by (induction es arbitrary: c) (auto split: sum.splits)

lemma last_step_strict:
  assumes inv: "fold_inv c b" and xb: "x \<noteq> b" and xd: "immediate_dominators c x \<noteq> None"
    and run: "fold_preds fuel c b [x] = Inr c'"
  shows "\<exists>q. immediate_dominators c' b = Some q \<and> q \<noteq> b"
proof (cases "get_immediate_dominator c b = 0")
  case True
  with run xb show ?thesis by auto
next
  case False
  from run False obtain r where
    r: "find_common_dominator fuel c b x = Inr r"
    and c': "c' = c\<lparr>immediate_dominators := (immediate_dominators c)(b \<mapsto> r)\<rparr>"
    by (auto split: if_splits sum.splits)
  from False obtain q where q: "immediate_dominators c b = Some q" "q \<noteq> 0"
    by (auto simp: get_immediate_dominator_def split: option.splits)
  have st: "settled c b"
  proof (rule ccontr)
    assume "\<not> settled c b"
    with q have "q \<noteq> b" "immediate_dominators c q = None" by (auto simp: settled_def)
    from unsettled_fails [OF inv q(1) this xd xb] r show False by blast
  qed
  have bd: "immediate_dominators c b \<noteq> None" using q by simp
  from walk_up [OF settled_dom_tree [OF inv st] bd xd r]
  have "order_of c x \<le> order_of c r" by simp
  with fold_inv_above [OF inv xd xb] have "r \<noteq> b" by auto
  with c' show ?thesis by simp
qed

lemma fold_preds_strict:
  assumes inv: "fold_inv c b" and ne: "es \<noteq> []" and lb: "last es \<noteq> b"
    and ld: "immediate_dominators c (last es) \<noteq> None"
    and run: "fold_preds fuel c b es = Inr c'"
  shows "\<exists>q. immediate_dominators c' b = Some q \<and> q \<noteq> b"
proof -
  from ne have es: "es = butlast es @ [last es]" by simp
  with run have "fold_preds fuel c b (butlast es @ [last es]) = Inr c'" by simp
  then obtain c1 where c1: "fold_preds fuel c b (butlast es) = Inr c1"
    and l: "fold_preds fuel c1 b [last es] = Inr c'"
    by (auto simp: fold_preds_snoc simp del: fold_preds.simps split: sum.splits)
  from fold_preds_inv [OF inv c1] have i1: "fold_inv c1 b" and f1: "fold_frame c c1 b"
    by blast+
  from f1 lb ld have "immediate_dominators c1 (last es) \<noteq> None"
    by (simp add: fold_frame_def)
  from last_step_strict [OF i1 lb this l] show ?thesis .
qed

lemma dominator_loop_strict:
  assumes d: "dfs_done compiler e d"
  shows "map (order_of d) bs = rev [1..<Suc (length bs)] \<Longrightarrow> distinct bs \<Longrightarrow>
         \<forall>b \<in> set bs. edges_of (preceding_edges d) b \<noteq> [] \<and>
            order_of d b < order_of d (last (edges_of (preceding_edges d) b)) \<Longrightarrow>
         same_graph d c \<Longrightarrow> loop_inv c (length bs) \<Longrightarrow>
         dominator_loop fuel c bs = Inr c' \<Longrightarrow>
         \<forall>b \<in> set bs. \<exists>q. immediate_dominators c' b = Some q \<and> q \<noteq> b"
proof (induction bs arbitrary: c)
  case Nil
  then show ?case by simp
next
  case (Cons b bs)
  let ?c1 = "c\<lparr>preceding_edges := (preceding_edges c)(b \<mapsto> edges_of (preceding_edges c) b)\<rparr>"
  let ?es = "edges_of (preceding_edges d) b"
  from Cons.prems(1) have ob: "order_of d b = Suc (length bs)"
    and rest: "map (order_of d) bs = rev [1..<Suc (length bs)]"
    by simp_all
  have g1: "same_graph d ?c1" by (rule same_graph_CFG [OF Cons.prems(4)])
  have oc1: "order_of ?c1 = order_of d" by (rule same_graph_order [OF g1])
  have pe: "edges_of (preceding_edges ?c1) b = ?es"
    using g1 by (simp add: same_graph_def)
  from Cons.prems(3) have ne: "?es \<noteq> []" and ll: "order_of d b < order_of d (last ?es)"
    by simp_all
  then have later: "\<exists>x \<in> set ?es. order_of d b < order_of d x"
    using last_in_set by blast
  have inv1: "loop_inv ?c1 (order_of d b)"
    using Cons.prems(5) ob by (simp add: loop_inv_def)
  from Cons.prems(6) pe ne obtain c2 where
    f: "fold_preds fuel ?c1 b ?es = Inr c2"
    and l: "dominator_loop fuel c2 bs = Inr c'"
    by (auto simp: Let_def split: sum.splits)
  have pos: "0 < order_of d b" using ob by simp
  from loop_step [OF d g1 inv1 pos later f] ob
  have s: "loop_inv c2 (length bs)" "same_graph d c2" by simp_all
  have fi: "fold_inv ?c1 b"
    using inv1 pos done_zero [OF d] unfolding fold_inv_def loop_inv_def oc1 by blast
  have lb: "last ?es \<noteq> b" using ll by auto
  have ld: "immediate_dominators ?c1 (last ?es) \<noteq> None"
    using inv1 ll unfolding loop_inv_def oc1 by blast
  from fold_preds_strict [OF fi ne lb ld f] obtain q where
    q: "immediate_dominators c2 b = Some q" "q \<noteq> b" by blast
  from Cons.prems(2) have db: "b \<notin> set bs" and dbs: "distinct bs" by simp_all
  from Cons.prems(3) have all: "\<forall>b \<in> set bs. edges_of (preceding_edges d) b \<noteq> [] \<and>
      order_of d b < order_of d (last (edges_of (preceding_edges d) b))" by simp
  then have later': "\<forall>b \<in> set bs. \<exists>x \<in> set (edges_of (preceding_edges d) b).
      order_of d b < order_of d x" using last_in_set by blast
  from dominator_loop_inv [OF d rest later' s(2) s(1) l] db
  have "immediate_dominators c' b = immediate_dominators c2 b" by simp
  with q Cons.IH [OF rest dbs all s(2) s(1) l] show ?case by simp
qed

lemma done_last_later:
  assumes "dfs_done compiler e d" "last_later d x"
  shows "edges_of (preceding_edges d) x \<noteq> [] \<and>
         order_of d x < order_of d (last (edges_of (preceding_edges d) x))"
proof -
  from assms(2) obtain vt vf where v: "visit_order d x = Some vt"
    "visit_order d (last (edges_of (preceding_edges d) x)) = Some vf"
    "0 < vt" "vf = 0 \<or> vt < vf" and ne: "edges_of (preceding_edges d) x \<noteq> []"
    by (auto simp: last_later_def forward_edge_def)
  from assms(1) v(2) have "vf \<noteq> 0" by (auto simp: dfs_done_def)
  with v ne show ?thesis by (simp add: order_of_def get_visit_order_def)
qed

lemma build_immediate_dominators_strict:
  assumes d: "dfs_done compiler e d"
    and l: "\<forall>x \<in> set (post_order d). x \<noteq> e \<longrightarrow> last_later d x"
    and run: "build_immediate_dominators fuel e d = Inr cfg"
  shows "\<forall>p q. immediate_dominators cfg p = Some q \<longrightarrow> q = p \<longrightarrow> p = e"
proof (intro allI impI)
  fix p q assume pq: "immediate_dominators cfg p = Some q" and qp: "q = p"
  let ?po = "post_order d"
  from build_prepare [OF d run] obtain c2 where
    c2: "dominator_loop fuel c2 (rev (butlast ?po)) = Inr cfg"
    and g2: "same_graph d c2"
    and inv2: "loop_inv c2 (length (rev (butlast ?po)))"
    and m: "map (order_of d) (rev (butlast ?po)) = rev [1..<Suc (length (rev (butlast ?po)))]"
    and enot: "e \<notin> set (butlast ?po)" and dbl: "distinct (butlast ?po)"
    and sets: "set ?po = insert e (set (butlast ?po))"
    by blast
  have all: "\<forall>b \<in> set (rev (butlast ?po)). edges_of (preceding_edges d) b \<noteq> [] \<and>
      order_of d b < order_of d (last (edges_of (preceding_edges d) b))"
  proof
    fix b assume b: "b \<in> set (rev (butlast ?po))"
    then have "b \<in> set ?po" using sets by simp
    moreover have "b \<noteq> e" using b enot by auto
    ultimately have "last_later d b" using l by simp
    then show "edges_of (preceding_edges d) b \<noteq> [] \<and>
      order_of d b < order_of d (last (edges_of (preceding_edges d) b))"
      by (rule done_last_later [OF d])
  qed
  have dr: "distinct (rev (butlast ?po))" using dbl by simp
  from dominator_loop_strict [OF d m dr all g2 inv2 c2]
  have strict: "\<forall>b \<in> set (butlast ?po). \<exists>q. immediate_dominators cfg b = Some q \<and> q \<noteq> b"
    by simp
  from build_immediate_dominators_result [OF d run]
  have g: "same_graph d cfg" and li: "loop_inv cfg 0" by simp_all
  from li pq have "0 < order_of cfg p" unfolding loop_inv_def by blast
  then have "0 < order_of d p" using same_graph_order [OF g] by simp
  from done_visited [OF d this] sets have "p = e \<or> p \<in> set (butlast ?po)" by simp
  with strict pq qp show "p = e" by auto
qed

subsection \<open>The walk to the common dominator returns\<close>

lemma fcd_returns:
  assumes tree: "\<forall>p q. immediate_dominators c p = Some q \<longrightarrow>
       immediate_dominators c q \<noteq> None \<and> (order_of c p < order_of c q \<or> order_of c p = n)"
    and bound: "\<forall>p. order_of c p \<le> n"
    and pos: "\<forall>p. immediate_dominators c p \<noteq> None \<longrightarrow> 0 < order_of c p"
    and inj: "\<And>x y. 0 < order_of c x \<Longrightarrow> order_of c x = order_of c y \<Longrightarrow> x = y"
  shows "immediate_dominators c a \<noteq> None \<Longrightarrow> immediate_dominators c b \<noteq> None \<Longrightarrow>
         (n - order_of c a) + (n - order_of c b) \<le> fuel \<Longrightarrow>
         \<exists>r. find_common_dominator fuel c a b = Inr r \<and> immediate_dominators c r \<noteq> None"
proof (induction fuel arbitrary: a b)
  case 0
  have "order_of c a \<le> n" "order_of c b \<le> n" using bound by simp_all
  with 0(3) have "order_of c a = n" "order_of c b = n" by arith+
  with inj [of a b] pos 0(1) have "a = b" by auto
  with 0(1) show ?case by simp
next
  case (Suc fuel)
  show ?case
  proof (cases "a = b")
    case True
    with Suc.prems(1) show ?thesis by simp
  next
    case False
    have pa: "0 < order_of c a" and pb: "0 < order_of c b"
      using pos Suc.prems(1,2) by blast+
    from inj [OF pa] False have ne: "order_of c a \<noteq> order_of c b" by auto
    from Suc.prems(1) obtain qa where qa: "immediate_dominators c a = Some qa" by auto
    from Suc.prems(2) obtain qb where qb: "immediate_dominators c b = Some qb" by auto
    have ga: "get_immediate_dominator c a = qa" and gb: "get_immediate_dominator c b = qb"
      using qa qb by (simp_all add: get_immediate_dominator_def)
    show ?thesis
    proof (cases "order_of c a < order_of c b")
      case True
      moreover have "order_of c b \<le> n" using bound by simp
      ultimately have "order_of c a \<noteq> n" by simp
      with tree qa have ua: "immediate_dominators c qa \<noteq> None" "order_of c a < order_of c qa"
        by blast+
      have "order_of c qa \<le> n" using bound by simp
      with Suc.prems(3) ua(2) have "(n - order_of c qa) + (n - order_of c b) \<le> fuel"
        by arith
      from Suc.IH [OF ua(1) Suc.prems(2) this] True False pa pb ga show ?thesis
        by (simp add: fcd_Suc del: find_common_dominator.simps)
    next
      case nlt: False
      with ne have lt: "order_of c b < order_of c a" by simp
      moreover have "order_of c a \<le> n" using bound by simp
      ultimately have "order_of c b \<noteq> n" by simp
      with tree qb have ub: "immediate_dominators c qb \<noteq> None" "order_of c b < order_of c qb"
        by blast+
      have "order_of c qb \<le> n" using bound by simp
      with Suc.prems(3) ub(2) have "(n - order_of c a) + (n - order_of c qb) \<le> fuel"
        by arith
      from Suc.IH [OF Suc.prems(1) ub(1) this] nlt False pa pb gb show ?thesis
        by (simp add: fcd_Suc del: find_common_dominator.simps)
    qed
  qed
qed

subsection \<open>When every predecessor finishes later, the pass returns\<close>

lemma strict_above_update:
  "strict_above c b n \<Longrightarrow>
   strict_above (c\<lparr>immediate_dominators := (immediate_dominators c)(b \<mapsto> r)\<rparr>) b n"
  by (simp add: strict_above_def)

lemma well_set_tree:
  assumes inv: "fold_inv c b" and st: "strict_above c b n" and w: "well_set c b"
  shows "\<forall>p q. immediate_dominators c p = Some q \<longrightarrow>
       immediate_dominators c q \<noteq> None \<and> (order_of c p < order_of c q \<or> order_of c p = n)"
proof (intro allI impI)
  fix p q assume pq: "immediate_dominators c p = Some q"
  show "immediate_dominators c q \<noteq> None \<and> (order_of c p < order_of c q \<or> order_of c p = n)"
  proof (cases "p = b")
    case True
    with w pq show ?thesis by (auto simp: well_set_def)
  next
    case False
    with inv st pq show ?thesis unfolding fold_inv_def strict_above_def by blast
  qed
qed

lemma well_set_settled:
  assumes inv: "fold_inv c b" and w: "well_set c b"
  shows "settled c b"
proof -
  from w obtain q where q: "immediate_dominators c b = Some q" "order_of c b < order_of c q"
    "immediate_dominators c q \<noteq> None" by (auto simp: well_set_def)
  from inv have zero: "order_of c 0 = 0" by (simp add: fold_inv_def)
  have "q \<noteq> 0" using q(2) by (intro ordered_nonzero [OF zero]) simp
  with q show ?thesis by (auto simp: settled_def)
qed

lemma fold_preds_returns:
  assumes bound: "\<forall>p. order_of c0 p \<le> n"
    and inj: "\<And>x y. 0 < order_of c0 x \<Longrightarrow> order_of c0 x = order_of c0 y \<Longrightarrow> x = y"
    and fuel: "2 * n \<le> fuel"
  shows "visit_order c = visit_order c0 \<Longrightarrow> fold_inv c b \<Longrightarrow> strict_above c b n \<Longrightarrow>
         immediate_dominators c b = None \<or> well_set c b \<Longrightarrow>
         \<forall>x \<in> set es. order_of c b < order_of c x \<Longrightarrow>
         \<exists>c'. fold_preds fuel c b es = Inr c' \<and> strict_above c' b n \<and>
              (es \<noteq> [] \<or> well_set c b \<longrightarrow> well_set c' b)"
proof (induction es arbitrary: c)
  case Nil
  then show ?case by simp
next
  case (Cons x es)
  have oc: "order_of c = order_of c0" by (rule order_of_cong [OF Cons.prems(1)])
  from Cons.prems(5) have xb: "order_of c b < order_of c x"
    and rest: "\<forall>y \<in> set es. order_of c b < order_of c y" by simp_all
  from Cons.prems(2) xb have xd: "immediate_dominators c x \<noteq> None"
    unfolding fold_inv_def by blast
  have zero: "order_of c 0 = 0" using Cons.prems(2) by (simp add: fold_inv_def)
  have step: "\<exists>c'. fold_preds fuel c1 b es = Inr c' \<and> strict_above c' b n \<and> well_set c' b"
    if c1: "c1 = c\<lparr>immediate_dominators := (immediate_dominators c)(b \<mapsto> r)\<rparr>"
      and r: "immediate_dominators c r \<noteq> None" "order_of c b < order_of c r" for c1 r
  proof -
    have v1: "visit_order c1 = visit_order c0" using Cons.prems(1) c1 by simp
    have i1: "fold_inv c1 b" unfolding c1 by (rule fold_inv_update [OF Cons.prems(2)])
    have s1: "strict_above c1 b n" unfolding c1 by (rule strict_above_update [OF Cons.prems(3)])
    from r have rb: "r \<noteq> b" by auto
    have w1: "well_set c1 b" using r rb by (simp add: well_set_def c1)
    have rest1: "\<forall>y \<in> set es. order_of c1 b < order_of c1 y" using rest by (simp add: c1)
    from Cons.IH [OF v1 i1 s1 _ rest1] w1 show ?thesis by blast
  qed
  show ?case
  proof (cases "immediate_dominators c b")
    case None
    then have g: "get_immediate_dominator c b = 0" by (simp add: get_immediate_dominator_def)
    from step [OF refl xd xb] g show ?thesis by simp
  next
    case (Some q)
    with Cons.prems(4) have w: "well_set c b" by simp
    with Some have q: "order_of c b < order_of c q" "immediate_dominators c q \<noteq> None"
      by (auto simp: well_set_def)
    have q0: "q \<noteq> 0" using q(1) by (intro ordered_nonzero [OF zero]) simp
    have g: "get_immediate_dominator c b \<noteq> 0" using Some q0 by (simp add: get_immediate_dominator_def)
    from xd obtain qx where qx: "immediate_dominators c x = Some qx" by auto
    have tree: "\<forall>p q. immediate_dominators c p = Some q \<longrightarrow>
       immediate_dominators c q \<noteq> None \<and> (order_of c p < order_of c q \<or> order_of c p = n)"
      by (rule well_set_tree [OF Cons.prems(2,3) w])
    from tree qx have qxd: "immediate_dominators c qx \<noteq> None" by blast
    have pos: "\<forall>p. immediate_dominators c p \<noteq> None \<longrightarrow> 0 < order_of c p"
    proof (intro allI impI)
      fix p assume p: "immediate_dominators c p \<noteq> None"
      show "0 < order_of c p"
      proof (cases "p = b")
        case True
        with Cons.prems(2) show ?thesis by (simp add: fold_inv_def)
      next
        case False
        from fold_inv_above [OF Cons.prems(2) p False] show ?thesis by simp
      qed
    qed
    from pos qxd have "0 < order_of c qx" by blast
    then have "qx \<noteq> 0" by (rule ordered_nonzero [OF zero])
    with qx have gx: "get_immediate_dominator c x \<noteq> 0" by (simp add: get_immediate_dominator_def)
    have bd: "immediate_dominators c b \<noteq> None" using Some by simp
    have "(n - order_of c b) + (n - order_of c x) \<le> fuel" using fuel by simp
    from fcd_returns [of c n, OF tree _ pos _ bd xd this] bound inj oc
    obtain r where r: "find_common_dominator fuel c b x = Inr r"
      "immediate_dominators c r \<noteq> None" by auto
    from walk_up [OF settled_dom_tree [OF Cons.prems(2) well_set_settled [OF Cons.prems(2) w]] bd xd r(1)]
    have "order_of c x \<le> order_of c r" by simp
    with xb have rb: "order_of c b < order_of c r" by simp
    from step [OF refl r(2) rb] g gx r(1) show ?thesis by simp
  qed
qed

lemma done_entry_order:
  assumes d: "dfs_done compiler e d"
  shows "order_of d e = length (post_order d)" and "post_order d \<noteq> []"
proof -
  from d show ne: "post_order d \<noteq> []" by (simp add: dfs_done_def)
  from d have last: "last (post_order d) = e" by (simp add: dfs_done_def)
  show "order_of d e = length (post_order d)"
    using done_nth [OF d, of "length (post_order d) - 1"] ne last by (simp add: last_conv_nth)
qed

lemma done_shape:
  assumes d: "dfs_done compiler e d"
  shows "rev (post_order d) = e # rev (butlast (post_order d))"
    and "e \<notin> set (butlast (post_order d))"
    and "set (post_order d) = insert e (set (butlast (post_order d)))"
    and "map (order_of d) (rev (butlast (post_order d))) =
           rev [1..<Suc (length (rev (butlast (post_order d))))]"
proof -
  let ?po = "post_order d"
  let ?n = "length ?po"
  from d have ne: "?po \<noteq> []" and last: "last ?po = e" and dist: "distinct ?po"
    by (auto simp: dfs_done_def dfs_inv_def numbering_ok_def)
  have po: "?po = butlast ?po @ [e]" using ne last by (metis append_butlast_last_id)
  then show "rev ?po = e # rev (butlast ?po)" by (metis rev.simps(2) rev_rev_ident rev_swap)
  from dist po have "distinct (butlast ?po @ [e])" by simp
  then show "e \<notin> set (butlast ?po)" by simp
  show "set ?po = insert e (set (butlast ?po))"
    using po by (metis Un_insert_right append_Nil2 list.simps(15) set_append)
  have "map (order_of d) (butlast ?po) = butlast [1..<Suc ?n]"
    using done_map [OF d] by (metis map_butlast)
  also have "\<dots> = [1..<?n]" using ne by (simp add: Suc_le_eq)
  finally have "map (order_of d) (rev (butlast ?po)) = rev [1..<?n]"
    by (metis rev_map)
  moreover have "Suc (length (rev (butlast ?po))) = ?n" using ne by simp
  ultimately
  show "map (order_of d) (rev (butlast ?po)) = rev [1..<Suc (length (rev (butlast ?po)))]"
    by (simp only:)
qed

lemma entry_loop_inv:
  assumes d: "dfs_done compiler e d" and g: "same_graph d c"
    and i: "immediate_dominators c = [e \<mapsto> e]"
  shows "loop_inv c (length (rev (butlast (post_order d))))"
proof -
  let ?n = "length (post_order d)"
  have oe: "order_of d e = ?n" and ne: "post_order d \<noteq> []"
    by (rule done_entry_order [OF d])+
  have zero: "order_of d 0 = 0" by (rule done_zero [OF d])
  have e0: "e \<noteq> 0" using oe ne by (intro ordered_nonzero [OF zero]) simp
  have o: "order_of c = order_of d" by (rule same_graph_order [OF g])
  have len: "length (rev (butlast (post_order d))) = ?n - 1" by simp
  show ?thesis
    unfolding loop_inv_def len o i
  proof (intro conjI allI impI)
    fix p q assume pq: "[e \<mapsto> e] p = Some q"
    then have "p = e" "q = e" by (auto split: if_splits)
    then show "?n - 1 < order_of d p" "q \<noteq> 0" "[e \<mapsto> e] q \<noteq> None"
      "q = p \<or> order_of d p < order_of d q"
      using oe ne e0 by simp_all
  next
    fix p assume "?n - 1 < order_of d p"
    with done_le [OF d, of p] have "order_of d e = order_of d p" using oe by simp
    from done_inj [OF d _ this] oe ne have "p = e" by simp
    then show "[e \<mapsto> e] p \<noteq> None" by simp
  qed
qed

lemma dominator_loop_returns:
  assumes d: "dfs_done compiler e d"
    and fuel: "2 * length (post_order d) \<le> fuel"
  shows "map (order_of d) bs = rev [1..<Suc (length bs)] \<Longrightarrow>
         \<forall>b \<in> set bs. edges_of (preceding_edges d) b \<noteq> [] \<and>
            (\<forall>x \<in> set (edges_of (preceding_edges d) b). order_of d b < order_of d x) \<Longrightarrow>
         same_graph d c \<Longrightarrow> loop_inv c (length bs) \<Longrightarrow>
         \<forall>p q. immediate_dominators c p = Some q \<longrightarrow>
            order_of d p < order_of d q \<or> order_of d p = length (post_order d) \<Longrightarrow>
         \<exists>c'. dominator_loop fuel c bs = Inr c'"
proof (induction bs arbitrary: c)
  case Nil
  then show ?case by simp
next
  case (Cons b bs)
  let ?n = "length (post_order d)"
  let ?c1 = "c\<lparr>preceding_edges := (preceding_edges c)(b \<mapsto> edges_of (preceding_edges c) b)\<rparr>"
  let ?es = "edges_of (preceding_edges d) b"
  from Cons.prems(1) have ob: "order_of d b = Suc (length bs)"
    and rest: "map (order_of d) bs = rev [1..<Suc (length bs)]"
    by simp_all
  have g1: "same_graph d ?c1" by (rule same_graph_CFG [OF Cons.prems(3)])
  have oc1: "order_of ?c1 = order_of d" by (rule same_graph_order [OF g1])
  have oc: "order_of c = order_of d" by (rule same_graph_order [OF Cons.prems(3)])
  have v1: "visit_order ?c1 = visit_order d" using g1 by (simp add: same_graph_def)
  have pe: "edges_of (preceding_edges ?c1) b = ?es"
    using g1 by (simp add: same_graph_def)
  from Cons.prems(2) have ne: "?es \<noteq> []"
    and good: "\<forall>x \<in> set ?es. order_of d b < order_of d x" by simp_all
  then have later: "\<exists>x \<in> set ?es. order_of d b < order_of d x"
    using last_in_set by blast
  have inv1: "loop_inv ?c1 (order_of d b)"
    using Cons.prems(4) ob by (simp add: loop_inv_def)
  have pos: "0 < order_of d b" using ob by simp
  have fi: "fold_inv ?c1 b"
    using inv1 pos done_zero [OF d] unfolding fold_inv_def loop_inv_def oc1 by blast
  have sa: "strict_above ?c1 b ?n"
    using Cons.prems(5) by (simp add: strict_above_def same_graph_order [OF Cons.prems(3)])
  have unset: "immediate_dominators ?c1 b = None"
  proof (rule ccontr)
    assume "immediate_dominators ?c1 b \<noteq> None"
    then obtain q where "immediate_dominators ?c1 b = Some q" by auto
    with inv1 have "order_of d b < order_of ?c1 b" unfolding loop_inv_def by blast
    then show False by (simp add: same_graph_order [OF Cons.prems(3)])
  qed
  have good1: "\<forall>x \<in> set ?es. order_of ?c1 b < order_of ?c1 x" using good by (simp add: oc)
  have bound: "\<forall>p. order_of d p \<le> ?n" using done_le [OF d] by simp
  from fold_preds_returns [of d ?n fuel ?c1 b ?es, OF bound done_inj [OF d] fuel v1 fi sa _ good1]
    unset ne
  obtain c2 where f: "fold_preds fuel ?c1 b ?es = Inr c2"
    and s2: "strict_above c2 b ?n" and w2: "well_set c2 b" by blast
  from loop_step [OF d g1 inv1 pos later f] ob
  have s: "loop_inv c2 (length bs)" "same_graph d c2" by simp_all
  have oc2: "order_of c2 = order_of d" by (rule same_graph_order [OF s(2)])
  have strict2: "\<forall>p q. immediate_dominators c2 p = Some q \<longrightarrow>
      order_of d p < order_of d q \<or> order_of d p = ?n"
  proof (intro allI impI)
    fix p q assume pq: "immediate_dominators c2 p = Some q"
    show "order_of d p < order_of d q \<or> order_of d p = ?n"
    proof (cases "p = b")
      case True
      with w2 pq show ?thesis by (auto simp: well_set_def oc2)
    next
      case False
      with s2 pq show ?thesis unfolding strict_above_def oc2 by blast
    qed
  qed
  from Cons.prems(2) have all: "\<forall>b \<in> set bs. edges_of (preceding_edges d) b \<noteq> [] \<and>
      (\<forall>x \<in> set (edges_of (preceding_edges d) b). order_of d b < order_of d x)" by simp
  from Cons.IH [OF rest all s(2) s(1) strict2] obtain c' where
    "dominator_loop fuel c2 bs = Inr c'" by blast
  with f pe ne show ?case by (simp add: Let_def)
qed

lemma build_immediate_dominators_returns:
  assumes d: "dfs_done compiler e d"
    and all: "\<forall>b \<in> set (post_order d). \<forall>x \<in> set (edges_of (preceding_edges d) b).
                order_of d b < order_of d x"
    and fuel: "2 * length (post_order d) \<le> fuel"
  shows "\<exists>cfg. build_immediate_dominators fuel e d = Inr cfg"
proof -
  let ?po = "post_order d"
  let ?n = "length ?po"
  let ?bs = "rev (butlast ?po)"
  note shape = done_shape [OF d]
  have oe: "order_of d e = ?n" and ne: "?po \<noteq> []" by (rule done_entry_order [OF d])+
  have ein: "e \<in> set ?po" using shape(3) by simp
  have nopred: "edges_of (preceding_edges d) e = []"
  proof (rule ccontr)
    assume "edges_of (preceding_edges d) e \<noteq> []"
    then obtain x where "x \<in> set (edges_of (preceding_edges d) e)"
      by (meson last_in_set)
    with all ein have "order_of d e < order_of d x" by blast
    with done_le [OF d, of x] oe show False by simp
  qed
  let ?c0 = "d\<lparr>immediate_dominators := [e \<mapsto> e]\<rparr>"
  let ?c1 = "?c0\<lparr>preceding_edges := (preceding_edges ?c0)(e \<mapsto> edges_of (preceding_edges ?c0) e)\<rparr>"
  have g0: "same_graph d ?c0" by (simp add: same_graph_def)
  have g1: "same_graph d ?c1" by (rule same_graph_CFG [OF g0])
  have i1: "immediate_dominators ?c1 = [e \<mapsto> e]" by simp
  have inv1: "loop_inv ?c1 (length ?bs)" by (rule entry_loop_inv [OF d g1 i1])
  have strict1: "\<forall>p q. immediate_dominators ?c1 p = Some q \<longrightarrow>
      order_of d p < order_of d q \<or> order_of d p = ?n"
    using oe by (auto split: if_splits)
  have good: "\<forall>b \<in> set ?bs. edges_of (preceding_edges d) b \<noteq> [] \<and>
      (\<forall>x \<in> set (edges_of (preceding_edges d) b). order_of d b < order_of d x)"
  proof
    fix b assume b: "b \<in> set ?bs"
    then have bin: "b \<in> set ?po" using shape(3) by simp
    moreover have "b \<noteq> e" using b shape(2) by auto
    ultimately have "\<exists>x \<in> set (edges_of (preceding_edges d) b). order_of d b < order_of d x"
      by (rule done_later [OF d])
    then have "edges_of (preceding_edges d) b \<noteq> []" by auto
    with all bin show "edges_of (preceding_edges d) b \<noteq> [] \<and>
      (\<forall>x \<in> set (edges_of (preceding_edges d) b). order_of d b < order_of d x)" by blast
  qed
  from dominator_loop_returns [OF d fuel shape(4) good g1 inv1 strict1]
  obtain cfg where "dominator_loop fuel ?c1 ?bs = Inr cfg" by blast
  moreover have "edges_of (preceding_edges ?c1) e = []"
    using nopred by (simp add: edges_of_def)
  then have "dominator_loop fuel ?c0 (e # ?bs) = dominator_loop fuel ?c1 ?bs"
    by (simp add: Let_def)
  moreover have "build_immediate_dominators fuel e d = dominator_loop fuel ?c0 (e # ?bs)"
    by (simp only: build_immediate_dominators_def shape(1))
  ultimately have "build_immediate_dominators fuel e d = Inr cfg" by simp
  then show ?thesis by blast
qed

subsection \<open>More fuel does not change a result\<close>

lemma visit_targets_more_fuel:
  assumes "\<And>cfg t r. post_order_visit f compiler cfg t = Inr r \<Longrightarrow>
             post_order_visit (Suc f) compiler cfg t = Inr r"
  shows "visit_targets f compiler cfg b ts = Inr c \<Longrightarrow>
         visit_targets (Suc f) compiler cfg b ts = Inr c"
proof (induction ts arbitrary: cfg)
  case Nil
  then show ?case by simp
next
  case (Cons t ts)
  from Cons.prems obtain ok cfg1 where
    v: "post_order_visit f compiler cfg t = Inr (ok, cfg1)"
    and r: "visit_targets f compiler (if ok then add_branch cfg1 b t else cfg1) b ts = Inr c"
    by (auto split: sum.splits)
  from assms [OF v] Cons.IH [OF r] show ?case
    by (simp del: post_order_visit.simps)
qed

lemma post_order_visit_more_fuel:
  "post_order_visit f compiler cfg t = Inr r \<Longrightarrow> post_order_visit (Suc f) compiler cfg t = Inr r"
proof (induction f arbitrary: cfg t r)
  case 0
  then show ?case by simp
next
  case (Suc f)
  show ?case
  proof (cases "0 \<le> visit_order_or_default cfg t")
    case True
    with Suc.prems show ?thesis
      by (simp add: post_order_visit_seen del: post_order_visit.simps)
  next
    case False
    then have fresh: "visit_order_or_default cfg t < 0" by simp
    from Suc.prems fresh obtain block cfg3 where
      blk: "get_block compiler t = Some block"
      and inner: "visit_targets f compiler (mark_block cfg t) t (branch_targets block) = Inr cfg3"
      and r: "r = (True, finish_block (loop_merge_edge cfg3 t block) t)"
      by (auto simp: post_order_visit_fresh simp del: post_order_visit.simps
               split: option.splits sum.splits)
    from visit_targets_more_fuel [OF Suc.IH inner]
    have "visit_targets (Suc f) compiler (mark_block cfg t) t (branch_targets block) = Inr cfg3" .
    with fresh blk r show ?thesis
      by (simp add: post_order_visit_fresh del: post_order_visit.simps)
  qed
qed

lemma post_order_visit_mono:
  "f \<le> f' \<Longrightarrow> post_order_visit f compiler cfg t = Inr r \<Longrightarrow>
   post_order_visit f' compiler cfg t = Inr r"
proof (induction f' arbitrary: f)
  case 0
  then show ?case by simp
next
  case (Suc f')
  show ?case
  proof (cases "f = Suc f'")
    case True
    with Suc.prems show ?thesis by simp
  next
    case False
    with Suc.prems(1) have "f \<le> f'" by simp
    from post_order_visit_more_fuel [OF Suc.IH [OF this Suc.prems(2)]] show ?thesis .
  qed
qed

lemma build_post_order_visit_order_mono:
  assumes "f \<le> f'" "build_post_order_visit_order f compiler e c = Inr d"
  shows "build_post_order_visit_order f' compiler e c = Inr d"
proof -
  let ?init = "c\<lparr>visit_count := 0, visit_order := Map.empty, post_order := []\<rparr>"
  from assms(2) obtain ok where "post_order_visit f compiler ?init e = Inr (ok, d)"
    by (auto simp: build_post_order_visit_order_def split: sum.splits)
  from post_order_visit_mono [OF assms(1) this] show ?thesis
    by (simp add: build_post_order_visit_order_def)
qed

subsection \<open>The constructor as a whole\<close>

lemma CFG_build_returns:
  assumes dfs: "build_post_order_visit_order fuel compiler e empty_CFG = Inr d"
    and all: "\<forall>b \<in> set (post_order d). \<forall>x \<in> set (edges_of (preceding_edges d) b).
                order_of d b < order_of d x"
  shows "\<exists>cfg. CFG_build (max fuel (2 * length (post_order d))) compiler e = Inr cfg"
proof -
  let ?f = "max fuel (2 * length (post_order d))"
  have "build_post_order_visit_order ?f compiler e empty_CFG = Inr d"
    by (rule build_post_order_visit_order_mono [OF _ dfs]) simp
  moreover from build_immediate_dominators_returns [OF dfs_result [OF dfs] all, of ?f]
  obtain cfg where "build_immediate_dominators ?f e d = Inr cfg" by auto
  ultimately show ?thesis by (simp add: CFG_build_def)
qed

lemma CFG_build_strict:
  assumes "CFG_build fuel compiler e = Inr cfg"
  shows "\<forall>p q. immediate_dominators cfg p = Some q \<longrightarrow> q = p \<longrightarrow> p = e"
proof -
  from assms obtain d where d: "build_post_order_visit_order fuel compiler e empty_CFG = Inr d"
    and run: "build_immediate_dominators fuel e d = Inr cfg"
    by (auto simp: CFG_build_def split: sum.splits)
  from build_immediate_dominators_strict [OF dfs_result [OF d] dfs_result_last [OF d] run]
  show ?thesis .
qed

lemma CFG_build_walk_returns:
  assumes built: "CFG_build fuel compiler e = Inr cfg"
    and a: "a \<in> set (post_order cfg)" and b: "b \<in> set (post_order cfg)"
    and n: "2 * length (post_order cfg) \<le> n"
  shows "\<exists>r. find_common_dominator n cfg a b = Inr r \<and> r \<in> set (post_order cfg)"
proof -
  let ?N = "length (post_order cfg)"
  have cd: "cfg_done compiler e cfg" by (rule CFG_build_done [OF built])
  then have dd: "dfs_done compiler e cfg" and li: "loop_inv cfg 0"
    by (simp_all add: cfg_done_def)
  have oe: "order_of cfg e = ?N" by (rule done_entry_order [OF dd])
  have tree: "\<forall>p q. immediate_dominators cfg p = Some q \<longrightarrow>
      immediate_dominators cfg q \<noteq> None \<and> (order_of cfg p < order_of cfg q \<or> order_of cfg p = ?N)"
  proof (intro allI impI)
    fix p q assume pq: "immediate_dominators cfg p = Some q"
    with li have 1: "immediate_dominators cfg q \<noteq> None"
      and 2: "q = p \<or> order_of cfg p < order_of cfg q"
      unfolding loop_inv_def by blast+
    from CFG_build_strict [OF built] pq have "q = p \<longrightarrow> p = e" by blast
    with 1 2 oe show "immediate_dominators cfg q \<noteq> None \<and>
        (order_of cfg p < order_of cfg q \<or> order_of cfg p = ?N)" by auto
  qed
  have bound: "\<forall>p. order_of cfg p \<le> ?N" using done_le [OF dd] by simp
  have pos: "\<forall>p. immediate_dominators cfg p \<noteq> None \<longrightarrow> 0 < order_of cfg p"
    using li unfolding loop_inv_def by fastforce
  have ad: "immediate_dominators cfg a \<noteq> None" and bd: "immediate_dominators cfg b \<noteq> None"
    using li built_finished [OF cd a] built_finished [OF cd b] unfolding loop_inv_def by blast+
  have "(?N - order_of cfg a) + (?N - order_of cfg b) \<le> n" using n by simp
  from fcd_returns [of cfg ?N, OF tree bound pos done_inj [OF dd] ad bd this]
  obtain r where r: "find_common_dominator n cfg a b = Inr r" "immediate_dominators cfg r \<noteq> None"
    by blast
  from pos r(2) have "0 < order_of cfg r" by blast
  from done_visited [OF dd this] r(1) show ?thesis by blast
qed

subsection \<open>On a finite, closed block store the traversal returns\<close>

lemma unentered_mono:
  assumes "finite (dom compiler)" "entered_kept cfg cfg'"
  shows "card (unentered compiler cfg') \<le> card (unentered compiler cfg)"
proof (rule card_mono)
  show "finite (unentered compiler cfg)" using assms(1) by (simp add: unentered_def)
  show "unentered compiler cfg' \<subseteq> unentered compiler cfg"
    using assms(2) by (auto simp: unentered_def entered_kept_def)
qed

lemma unentered_mark:
  assumes "finite (dom compiler)" "get_block compiler t = Some block" "visit_order cfg t = None"
  shows "card (unentered compiler (mark_block cfg t)) < card (unentered compiler cfg)"
proof (rule psubset_card_mono)
  show "finite (unentered compiler cfg)" using assms(1) by (simp add: unentered_def)
  have "t \<in> dom compiler" using assms(2) by (auto simp: get_block_def split: if_splits)
  with assms(3) have "t \<in> unentered compiler cfg" by (simp add: unentered_def)
  moreover have "t \<notin> unentered compiler (mark_block cfg t)" by (simp add: unentered_def)
  moreover have "unentered compiler (mark_block cfg t) \<subseteq> unentered compiler cfg"
    by (auto simp: unentered_def split: if_splits)
  ultimately show "unentered compiler (mark_block cfg t) \<subset> unentered compiler cfg" by blast
qed

lemma visit_targets_returns_step:
  assumes fin: "finite (dom compiler)"
    and visit: "\<And>cfg t. nonneg cfg \<Longrightarrow> get_block compiler t \<noteq> None \<Longrightarrow>
        card (unentered compiler cfg) < f \<Longrightarrow>
        \<exists>ok cfg'. post_order_visit f compiler cfg t = Inr (ok, cfg') \<and> nonneg cfg' \<and>
           entered_kept cfg cfg'"
  shows "nonneg cfg \<Longrightarrow> \<forall>t \<in> set ts. get_block compiler t \<noteq> None \<Longrightarrow>
         card (unentered compiler cfg) < f \<Longrightarrow>
         \<exists>cfg'. visit_targets f compiler cfg b ts = Inr cfg' \<and> nonneg cfg' \<and> entered_kept cfg cfg'"
proof (induction ts arbitrary: cfg)
  case Nil
  then show ?case by (simp add: entered_kept_def)
next
  case (Cons t ts)
  from Cons.prems(2) have t: "get_block compiler t \<noteq> None"
    and ts: "\<forall>t \<in> set ts. get_block compiler t \<noteq> None" by simp_all
  from visit [OF Cons.prems(1) t Cons.prems(3)] obtain ok cfg1 where
    v: "post_order_visit f compiler cfg t = Inr (ok, cfg1)" and n1: "nonneg cfg1"
    and k1: "entered_kept cfg cfg1" by blast
  let ?c2 = "if ok then add_branch cfg1 b t else cfg1"
  have n2: "nonneg ?c2" using n1 by (simp add: nonneg_def)
  have k2: "entered_kept cfg ?c2" using k1 by (simp add: entered_kept_def)
  have "card (unentered compiler ?c2) < f"
    using unentered_mono [OF fin k2] Cons.prems(3) by simp
  from Cons.IH [OF n2 ts this] obtain cfg' where
    r: "visit_targets f compiler ?c2 b ts = Inr cfg'" and n': "nonneg cfg'"
    and k': "entered_kept ?c2 cfg'" by blast
  from k2 k' have "entered_kept cfg cfg'" by (simp add: entered_kept_def)
  with v r n' show ?case by (simp del: post_order_visit.simps)
qed

lemma post_order_visit_returns:
  assumes closed: "closed_store compiler"
  shows "nonneg cfg \<Longrightarrow> get_block compiler t \<noteq> None \<Longrightarrow>
         card (unentered compiler cfg) < f \<Longrightarrow>
         \<exists>ok cfg'. post_order_visit f compiler cfg t = Inr (ok, cfg') \<and> nonneg cfg' \<and>
            entered_kept cfg cfg'"
proof (induction f arbitrary: cfg t)
  case 0
  then show ?case by simp
next
  case (Suc f)
  from closed have fin: "finite (dom compiler)" by (simp add: closed_store_def)
  show ?case
  proof (cases "0 \<le> visit_order_or_default cfg t")
    case True
    with Suc.prems(1) show ?thesis
      by (simp add: post_order_visit_seen entered_kept_def del: post_order_visit.simps)
  next
    case False
    then have fresh: "visit_order_or_default cfg t < 0" by simp
    have none: "visit_order cfg t = None"
    proof (cases "visit_order cfg t")
      case (Some v)
      with Suc.prems(1) have "0 \<le> v" by (simp add: nonneg_def)
      with fresh Some show ?thesis by (simp add: visit_order_or_default_def)
    qed simp
    from Suc.prems(2) obtain block where blk: "get_block compiler t = Some block" by auto
    let ?c0 = "mark_block cfg t"
    have n0: "nonneg ?c0" using Suc.prems(1) by (simp add: nonneg_def)
    have ts: "\<forall>x \<in> set (branch_targets block). get_block compiler x \<noteq> None"
      using closed blk by (simp add: closed_store_def)
    have "card (unentered compiler ?c0) < f"
      using unentered_mark [OF fin blk none] Suc.prems(3) by simp
    from visit_targets_returns_step [OF fin Suc.IH n0 ts this, of t] obtain cfg3 where
      r: "visit_targets f compiler ?c0 t (branch_targets block) = Inr cfg3"
      and n3: "nonneg cfg3" and k3: "entered_kept ?c0 cfg3" by blast
    let ?c4 = "finish_block (loop_merge_edge cfg3 t block) t"
    have "nonneg ?c4" using n3 by (simp add: nonneg_def)
    moreover have "entered_kept cfg ?c4" using k3 by (simp add: entered_kept_def)
    moreover have "post_order_visit (Suc f) compiler cfg t = Inr (True, ?c4)"
      using fresh blk r by (simp add: post_order_visit_fresh del: post_order_visit.simps)
    ultimately show ?thesis by blast
  qed
qed

lemma build_post_order_visit_order_returns:
  assumes "closed_store compiler" "get_block compiler e \<noteq> None"
    and "card (dom compiler) < fuel"
  shows "\<exists>d. build_post_order_visit_order fuel compiler e empty_CFG = Inr d"
proof -
  let ?init = "empty_CFG\<lparr>visit_count := 0, visit_order := Map.empty, post_order := []\<rparr>"
  have n: "nonneg ?init" by (simp add: nonneg_def)
  have "unentered compiler ?init = dom compiler" by (auto simp: unentered_def)
  with assms(3) have "card (unentered compiler ?init) < fuel" by simp
  from post_order_visit_returns [OF assms(1) n assms(2) this] show ?thesis
    by (auto simp: build_post_order_visit_order_def)
qed

text \<open>
  Without loop headers among the blocks of a closed store, every recorded predecessor
  finishes later, so the constructor as a whole returns.
\<close>

lemma CFG_build_returns_without_loops:
  assumes closed: "closed_store compiler" and e: "get_block compiler e \<noteq> None"
    and noloop: "\<forall>b block. get_block compiler b = Some block \<longrightarrow> merge block \<noteq> MergeLoop"
  shows "\<exists>fuel cfg. CFG_build fuel compiler e = Inr cfg"
proof -
  from build_post_order_visit_order_returns [OF closed e, of "Suc (card (dom compiler))"]
  obtain d where d: "build_post_order_visit_order (Suc (card (dom compiler))) compiler e empty_CFG = Inr d"
    by auto
  have dd: "dfs_done compiler e d" by (rule dfs_result [OF d])
  have "\<forall>b \<in> set (post_order d). \<forall>x \<in> set (edges_of (preceding_edges d) b).
          order_of d b < order_of d x"
  proof (intro ballI)
    fix b x assume "b \<in> set (post_order d)" and x: "x \<in> set (edges_of (preceding_edges d) b)"
    have "\<not> is_loop_edge compiler x b"
      using noloop by (auto simp: is_loop_edge_def split: option.splits)
    with built_edge_kinds [OF dd, of b x] x built_symmetric [OF dd, of b x]
    show "order_of d b < order_of d x" by blast
  qed
  from CFG_build_returns [OF d this] show ?thesis by blast
qed

section \<open>The dominator pass finds the lowest common block of the chains\<close>

subsection \<open>Dominator chains\<close>

lemma on_chain_refl [simp]: "on_chain c x x"
  by (simp add: on_chain_def)

lemma on_chain_step:
  "immediate_dominators c x = Some q \<Longrightarrow> on_chain c h q \<Longrightarrow> on_chain c h x"
  by (simp add: on_chain_def idom_step_def converse_rtranclp_into_rtranclp)

lemma on_chain_trans: "on_chain c q x \<Longrightarrow> on_chain c h q \<Longrightarrow> on_chain c h x"
  by (simp add: on_chain_def)

lemma on_chain_first:
  assumes "on_chain c h x" "h \<noteq> x"
  shows "\<exists>q. immediate_dominators c x = Some q \<and> on_chain c h q"
  using assms unfolding on_chain_def idom_step_def
  by (auto elim: converse_rtranclpE)

lemma chain_order:
  assumes "dom_tree c"
  shows "on_chain c h x \<Longrightarrow> order_of c x \<le> order_of c h"
  unfolding on_chain_def
proof (induction rule: rtranclp_induct)
  case base
  then show ?case by simp
next
  case (step y z)
  from step.hyps(2) assms have "z = y \<or> order_of c y < order_of c z"
    unfolding idom_step_def dom_tree_def by blast
  with step.IH show ?case by auto
qed

lemma fcd_under:
  assumes tree: "dom_tree c"
    and inj: "\<And>x y. 0 < order_of c x \<Longrightarrow> order_of c x = order_of c y \<Longrightarrow> x = y"
  shows "on_chain c h a \<Longrightarrow> on_chain c h b \<Longrightarrow> find_common_dominator fuel c a b = Inr r \<Longrightarrow>
         on_chain c h r"
proof (induction fuel arbitrary: a b)
  case 0
  then show ?case by (auto split: if_splits)
next
  case (Suc n)
  show ?case
  proof (cases "a = b")
    case True
    with Suc.prems show ?thesis by simp
  next
    case False
    from Suc.prems(3) False have ok: "\<not> (order_of c a = 0 \<or> order_of c b = 0)"
      by (auto simp: fcd_Suc simp del: find_common_dominator.simps split: if_splits)
    show ?thesis
    proof (cases "order_of c a < order_of c b")
      case True
      have "h \<noteq> a"
      proof
        assume "h = a"
        with chain_order [OF tree Suc.prems(2)] True show False by simp
      qed
      from on_chain_first [OF Suc.prems(1) this] obtain q where
        q: "immediate_dominators c a = Some q" "on_chain c h q" by blast
      then have "get_immediate_dominator c a = q" by (simp add: get_immediate_dominator_def)
      with Suc.prems(3) False ok True have "find_common_dominator n c q b = Inr r"
        by (simp add: fcd_Suc del: find_common_dominator.simps)
      from Suc.IH [OF q(2) Suc.prems(2) this] show ?thesis .
    next
      case nlt: False
      have "h \<noteq> b"
      proof
        assume "h = b"
        with chain_order [OF tree Suc.prems(1)] nlt have "order_of c a = order_of c b" by simp
        from inj [OF _ this] ok False show False by simp
      qed
      from on_chain_first [OF Suc.prems(2) this] obtain q where
        q: "immediate_dominators c b = Some q" "on_chain c h q" by blast
      then have "get_immediate_dominator c b = q" by (simp add: get_immediate_dominator_def)
      with Suc.prems(3) False ok nlt have "find_common_dominator n c a q = Inr r"
        by (simp add: fcd_Suc del: find_common_dominator.simps)
      from Suc.IH [OF Suc.prems(1) q(2) this] show ?thesis .
    qed
  qed
qed

lemma fcd_above:
  assumes tree: "dom_tree c"
  shows "immediate_dominators c a \<noteq> None \<Longrightarrow> immediate_dominators c b \<noteq> None \<Longrightarrow>
         find_common_dominator fuel c a b = Inr r \<Longrightarrow> on_chain c r a \<and> on_chain c r b"
proof (induction fuel arbitrary: a b)
  case 0
  then show ?case by (auto split: if_splits)
next
  case (Suc n)
  show ?case
  proof (cases "a = b")
    case True
    with Suc.prems show ?thesis by simp
  next
    case False
    from Suc.prems(1) obtain qa where qa: "immediate_dominators c a = Some qa" by auto
    from Suc.prems(2) obtain qb where qb: "immediate_dominators c b = Some qb" by auto
    from tree qa have ua: "immediate_dominators c qa \<noteq> None" unfolding dom_tree_def by blast
    from tree qb have ub: "immediate_dominators c qb \<noteq> None" unfolding dom_tree_def by blast
    have ga: "get_immediate_dominator c a = qa" and gb: "get_immediate_dominator c b = qb"
      using qa qb by (simp_all add: get_immediate_dominator_def)
    from Suc.prems(3) False have ok: "\<not> (order_of c a = 0 \<or> order_of c b = 0)"
      by (auto simp: fcd_Suc simp del: find_common_dominator.simps split: if_splits)
    show ?thesis
    proof (cases "order_of c a < order_of c b")
      case True
      with Suc.prems(3) False ok ga have "find_common_dominator n c qa b = Inr r"
        by (simp add: fcd_Suc del: find_common_dominator.simps)
      from Suc.IH [OF ua Suc.prems(2) this] on_chain_step [OF qa] show ?thesis by blast
    next
      case nlt: False
      with Suc.prems(3) False ok gb have "find_common_dominator n c a qb = Inr r"
        by (simp add: fcd_Suc del: find_common_dominator.simps)
      from Suc.IH [OF Suc.prems(1) ub this] on_chain_step [OF qb] show ?thesis by blast
    qed
  qed
qed

text \<open>The chain of a block above \<open>b\<close> does not depend on the entry of \<open>b\<close>.\<close>

lemma chain_frame:
  assumes inv: "fold_inv c b"
    and frame: "\<forall>p. p \<noteq> b \<longrightarrow> immediate_dominators c' p = immediate_dominators c p"
  shows "on_chain c h x \<Longrightarrow> x \<noteq> b \<Longrightarrow> on_chain c' h x"
  unfolding on_chain_def
proof (induction rule: converse_rtranclp_induct)
  case base
  then show ?case by simp
next
  case (step y z)
  from step.hyps(1) have yz: "immediate_dominators c y = Some z" by (simp add: idom_step_def)
  with inv step.prems have "order_of c b < order_of c y" "z = y \<or> order_of c y < order_of c z"
    unfolding fold_inv_def by blast+
  then have "z \<noteq> b" by auto
  from step.IH [OF this] have "(idom_step c')\<^sup>*\<^sup>* z h" .
  moreover from yz frame step.prems have "idom_step c' y z" by (simp add: idom_step_def)
  ultimately show ?case by (rule converse_rtranclp_into_rtranclp [rotated])
qed

lemma chain_update:
  assumes inv: "fold_inv c b" and xb: "x \<noteq> b"
  shows "on_chain (c\<lparr>immediate_dominators := (immediate_dominators c)(b \<mapsto> r)\<rparr>) h x
           \<longleftrightarrow> on_chain c h x"
proof
  let ?c1 = "c\<lparr>immediate_dominators := (immediate_dominators c)(b \<mapsto> r)\<rparr>"
  assume "on_chain ?c1 h x"
  from chain_frame [OF fold_inv_update [OF inv] _ this xb, of c] show "on_chain c h x" by simp
next
  let ?c1 = "c\<lparr>immediate_dominators := (immediate_dominators c)(b \<mapsto> r)\<rparr>"
  assume "on_chain c h x"
  from chain_frame [OF inv _ this xb, of ?c1] show "on_chain ?c1 h x" by simp
qed

text \<open>Between two rounds of the outer loop, chains above the current round are settled.\<close>

lemma chain_above:
  assumes inv: "loop_inv c k"
    and frame: "\<forall>p. k < order_of c p \<longrightarrow> immediate_dominators c' p = immediate_dominators c p"
  shows "on_chain c h x \<Longrightarrow> k < order_of c x \<Longrightarrow> on_chain c' h x"
  unfolding on_chain_def
proof (induction rule: converse_rtranclp_induct)
  case base
  then show ?case by simp
next
  case (step y z)
  from step.hyps(1) have yz: "immediate_dominators c y = Some z" by (simp add: idom_step_def)
  with inv have "z = y \<or> order_of c y < order_of c z" unfolding loop_inv_def by blast
  with step.prems have "k < order_of c z" by auto
  from step.IH [OF this] have "(idom_step c')\<^sup>*\<^sup>* z h" .
  moreover from yz frame step.prems have "idom_step c' y z" by (simp add: idom_step_def)
  ultimately show ?case by (rule converse_rtranclp_into_rtranclp [rotated])
qed

lemma chain_above_back:
  assumes inv: "loop_inv c k"
    and frame: "\<forall>p. k < order_of c p \<longrightarrow> immediate_dominators c' p = immediate_dominators c p"
  shows "on_chain c' h x \<Longrightarrow> k < order_of c x \<Longrightarrow> on_chain c h x"
  unfolding on_chain_def
proof (induction rule: converse_rtranclp_induct)
  case base
  then show ?case by simp
next
  case (step y z)
  from step.hyps(1) frame step.prems have yz: "immediate_dominators c y = Some z"
    by (simp add: idom_step_def)
  with inv have "z = y \<or> order_of c y < order_of c z" unfolding loop_inv_def by blast
  with step.prems have "k < order_of c z" by auto
  from step.IH [OF this] have "(idom_step c)\<^sup>*\<^sup>* z h" .
  moreover from yz have "idom_step c y z" by (simp add: idom_step_def)
  ultimately show ?case by (rule converse_rtranclp_into_rtranclp [rotated])
qed

subsection \<open>A fold that returns has met only predecessors that finished later\<close>

lemma self_fails:
  assumes inv: "fold_inv c b" and cb: "immediate_dominators c b = Some b"
    and xb: "x \<noteq> b" and xd: "immediate_dominators c x \<noteq> None"
  shows "find_common_dominator fuel c b x \<noteq> Inr r"
proof (induction fuel)
  case 0
  with xb show ?case by auto
next
  case (Suc n)
  have be: "order_of c b < order_of c x" by (rule fold_inv_above [OF inv xd xb])
  have pos: "0 < order_of c b" using inv by (simp add: fold_inv_def)
  have "get_immediate_dominator c b = b" using cb by (simp add: get_immediate_dominator_def)
  with be pos xb have "find_common_dominator (Suc n) c b x = find_common_dominator n c b x"
    by (simp add: fcd_Suc del: find_common_dominator.simps)
  with Suc show ?case by simp
qed

lemma fold_inv_nonzero:
  assumes "fold_inv c b"
  shows "b \<noteq> 0"
proof -
  from assms have "0 < order_of c b" "order_of c 0 = 0" by (simp_all add: fold_inv_def)
  then show ?thesis by (intro ordered_nonzero [of c]) simp_all
qed

lemma fold_preds_bad:
  "fold_inv c b \<Longrightarrow> immediate_dominators c b = Some q \<Longrightarrow> q \<noteq> 0 \<Longrightarrow>
   q = b \<or> immediate_dominators c q = None \<Longrightarrow> fold_preds fuel c b es = Inr c' \<Longrightarrow>
   \<forall>x \<in> set es. x = b"
proof (induction es arbitrary: c q)
  case Nil
  then show ?case by simp
next
  case (Cons x es)
  have gb: "get_immediate_dominator c b = q"
    using Cons.prems(2) by (simp add: get_immediate_dominator_def)
  from Cons.prems(5) gb Cons.prems(3) obtain r where
    e: "get_immediate_dominator c x \<noteq> 0"
    and r: "find_common_dominator fuel c b x = Inr r"
    and run: "fold_preds fuel (c\<lparr>immediate_dominators := (immediate_dominators c)(b \<mapsto> r)\<rparr>) b es = Inr c'"
    by (auto split: if_splits sum.splits)
  from e have xd: "immediate_dominators c x \<noteq> None"
    by (auto simp: get_immediate_dominator_def split: option.splits)
  have xb: "x = b"
  proof (rule ccontr)
    assume ne: "x \<noteq> b"
    show False
    proof (cases "q = b")
      case True
      with self_fails [OF Cons.prems(1) _ ne xd] Cons.prems(2) r show False by blast
    next
      case False
      with Cons.prems(4) have "immediate_dominators c q = None" by simp
      from unsettled_fails [OF Cons.prems(1,2) False this xd ne] r show False by blast
    qed
  qed
  with r have rb: "r = b" by (simp add: fcd_same)
  let ?c1 = "c\<lparr>immediate_dominators := (immediate_dominators c)(b \<mapsto> b)\<rparr>"
  have "\<forall>x \<in> set es. x = b"
  proof (rule Cons.IH [of ?c1 b])
    show "fold_inv ?c1 b" by (rule fold_inv_update [OF Cons.prems(1)])
    show "immediate_dominators ?c1 b = Some b" by simp
    show "b \<noteq> 0" by (rule fold_inv_nonzero [OF Cons.prems(1)])
    show "b = b \<or> immediate_dominators ?c1 b = None" by simp
    show "fold_preds fuel ?c1 b es = Inr c'" using run rb by simp
  qed
  with xb show ?case by simp
qed

lemma fold_preds_good:
  "fold_inv c b \<Longrightarrow> 0 \<notin> set es \<Longrightarrow> usable c b \<Longrightarrow> es \<noteq> [] \<Longrightarrow> last es \<noteq> b \<Longrightarrow>
   immediate_dominators c (last es) \<noteq> None \<Longrightarrow> fold_preds fuel c b es = Inr c' \<Longrightarrow>
   \<forall>x \<in> set es. x \<noteq> b \<and> immediate_dominators c x \<noteq> None"
proof (induction es arbitrary: c)
  case Nil
  then show ?case by simp
next
  case (Cons x es)
  have b0: "b \<noteq> 0" by (rule fold_inv_nonzero [OF Cons.prems(1)])
  from Cons.prems(2) have x0: "x \<noteq> 0" and es0: "0 \<notin> set es" by auto
  show ?case
  proof (cases "get_immediate_dominator c b = 0")
    case True
    let ?c1 = "c\<lparr>immediate_dominators := (immediate_dominators c)(b \<mapsto> x)\<rparr>"
    from Cons.prems(7) True have run: "fold_preds fuel ?c1 b es = Inr c'" by simp
    have inv1: "fold_inv ?c1 b" by (rule fold_inv_update [OF Cons.prems(1)])
    show ?thesis
    proof (cases "es = []")
      case True
      with Cons.prems(5,6) show ?thesis by simp
    next
      case ne: False
      with Cons.prems(5,6) have lb: "last es \<noteq> b" and ld: "immediate_dominators c (last es) \<noteq> None"
        by simp_all
      show ?thesis
      proof (cases "x \<noteq> b \<and> immediate_dominators c x \<noteq> None")
        case True
        then have "usable ?c1 b" using x0 by (simp add: usable_def)
        moreover from ld lb have "immediate_dominators ?c1 (last es) \<noteq> None" by simp
        ultimately have "\<forall>y \<in> set es. y \<noteq> b \<and> immediate_dominators ?c1 y \<noteq> None"
          using Cons.IH [OF inv1 es0 _ ne lb _ run] by blast
        with True show ?thesis by auto
      next
        case False
        then have "x = b \<or> immediate_dominators ?c1 x = None" by auto
        from fold_preds_bad [OF inv1 _ x0 this run] have "\<forall>y \<in> set es. y = b" by simp
        with ne lb have False using last_in_set by blast
        then show ?thesis ..
      qed
    qed
  next
    case False
    with Cons.prems(3) obtain q where q: "immediate_dominators c b = Some q" "q \<noteq> 0" "q \<noteq> b"
      "immediate_dominators c q \<noteq> None" by (auto simp: usable_def)
    from Cons.prems(7) False obtain r where
      e: "get_immediate_dominator c x \<noteq> 0"
      and r: "find_common_dominator fuel c b x = Inr r"
      and run: "fold_preds fuel (c\<lparr>immediate_dominators := (immediate_dominators c)(b \<mapsto> r)\<rparr>) b es = Inr c'"
      by (auto split: if_splits sum.splits)
    let ?c1 = "c\<lparr>immediate_dominators := (immediate_dominators c)(b \<mapsto> r)\<rparr>"
    have inv1: "fold_inv ?c1 b" by (rule fold_inv_update [OF Cons.prems(1)])
    from e have xd: "immediate_dominators c x \<noteq> None"
      by (auto simp: get_immediate_dominator_def split: option.splits)
    have xb: "x \<noteq> b"
    proof
      assume "x = b"
      with r have rb: "r = b" by (simp add: fcd_same)
      have "\<forall>y \<in> set es. y = b"
        by (rule fold_preds_bad [OF inv1 _ b0 _ run]) (simp_all add: rb)
      moreover from \<open>x = b\<close> Cons.prems(5) have "es \<noteq> []" "last es \<noteq> b" by (auto split: if_splits)
      ultimately show False using last_in_set by blast
    qed
    show ?thesis
    proof (cases "es = []")
      case True
      with xb xd show ?thesis by simp
    next
      case ne: False
      with Cons.prems(5,6) have lb: "last es \<noteq> b" and ld: "immediate_dominators c (last es) \<noteq> None"
        by simp_all
      have st: "settled c b" using q by (auto simp: settled_def)
      have bd: "immediate_dominators c b \<noteq> None" using q by simp
      from walk_up [OF settled_dom_tree [OF Cons.prems(1) st] bd xd r]
      have rd: "immediate_dominators c r \<noteq> None" and xr: "order_of c x \<le> order_of c r" by simp_all
      from fold_inv_above [OF Cons.prems(1) xd xb] xr have br: "order_of c b < order_of c r" by simp
      then have rb: "r \<noteq> b" by auto
      have zero: "order_of c 0 = 0" using Cons.prems(1) by (simp add: fold_inv_def)
      have r0: "r \<noteq> 0" using br by (intro ordered_nonzero [OF zero]) simp
      have "usable ?c1 b" using rd rb r0 by (simp add: usable_def)
      moreover from ld lb have "immediate_dominators ?c1 (last es) \<noteq> None" by simp
      ultimately have "\<forall>y \<in> set es. y \<noteq> b \<and> immediate_dominators ?c1 y \<noteq> None"
        using Cons.IH [OF inv1 es0 _ ne lb _ run] by blast
      with xb xd show ?thesis by auto
    qed
  qed
qed

subsection \<open>The fold computes the lowest common block of the chains\<close>

lemma fold_preds_lca:
  assumes inj: "\<And>x y. 0 < order_of c0 x \<Longrightarrow> order_of c0 x = order_of c0 y \<Longrightarrow> x = y"
  shows "visit_order c = visit_order c0 \<Longrightarrow> fold_inv c b \<Longrightarrow>
         \<forall>x \<in> set es. x \<noteq> b \<and> immediate_dominators c x \<noteq> None \<Longrightarrow>
         \<forall>x \<in> set seen. x \<noteq> b \<Longrightarrow> folded c b seen \<Longrightarrow>
         fold_preds fuel c b es = Inr c' \<Longrightarrow> folded c' b (seen @ es)"
proof (induction es arbitrary: c seen)
  case Nil
  then show ?case by simp
next
  case (Cons x es)
  have oc: "order_of c = order_of c0" by (rule order_of_cong [OF Cons.prems(1)])
  from Cons.prems(3) have xb: "x \<noteq> b" and xd: "immediate_dominators c x \<noteq> None"
    and rest: "\<forall>y \<in> set es. y \<noteq> b \<and> immediate_dominators c y \<noteq> None" by simp_all
  have bx: "order_of c b < order_of c x" by (rule fold_inv_above [OF Cons.prems(2) xd xb])
  have zero: "order_of c 0 = 0" using Cons.prems(2) by (simp add: fold_inv_def)
  have x0: "x \<noteq> 0" using bx by (intro ordered_nonzero [OF zero]) simp
  have seen1: "\<forall>y \<in> set (seen @ [x]). y \<noteq> b" using Cons.prems(4) xb by simp
  show ?case
  proof (cases "seen = []")
    case True
    with Cons.prems(5) have unset: "get_immediate_dominator c b = 0" by (simp add: folded_def)
    let ?c1 = "c\<lparr>immediate_dominators := (immediate_dominators c)(b \<mapsto> x)\<rparr>"
    from Cons.prems(6) unset have run: "fold_preds fuel ?c1 b es = Inr c'" by simp
    have inv1: "fold_inv ?c1 b" by (rule fold_inv_update [OF Cons.prems(2)])
    have v1: "visit_order ?c1 = visit_order c0" using Cons.prems(1) by simp
    have rest1: "\<forall>y \<in> set es. y \<noteq> b \<and> immediate_dominators ?c1 y \<noteq> None" using rest by simp
    have "folded ?c1 b (seen @ [x])"
      using True xb xd x0 by (simp add: folded_def)
    from Cons.IH [OF v1 inv1 rest1 seen1 this run] show ?thesis by simp
  next
    case False
    with Cons.prems(5) obtain q where q: "immediate_dominators c b = Some q" "q \<noteq> 0" "q \<noteq> b"
      "immediate_dominators c q \<noteq> None"
      and sound: "\<forall>y \<in> set seen. on_chain c q y"
      and compl: "\<forall>h. (\<forall>y \<in> set seen. on_chain c h y) \<longrightarrow> on_chain c h q"
      by (auto simp: folded_def)
    have gb: "get_immediate_dominator c b = q" using q(1) by (simp add: get_immediate_dominator_def)
    from Cons.prems(6) gb q(2) obtain r where
      r: "find_common_dominator fuel c b x = Inr r"
      and run: "fold_preds fuel (c\<lparr>immediate_dominators := (immediate_dominators c)(b \<mapsto> r)\<rparr>) b es = Inr c'"
      by (auto split: if_splits sum.splits)
    let ?c1 = "c\<lparr>immediate_dominators := (immediate_dominators c)(b \<mapsto> r)\<rparr>"
    have inv1: "fold_inv ?c1 b" by (rule fold_inv_update [OF Cons.prems(2)])
    have v1: "visit_order ?c1 = visit_order c0" using Cons.prems(1) by simp
    have rest1: "\<forall>y \<in> set es. y \<noteq> b \<and> immediate_dominators ?c1 y \<noteq> None" using rest by simp
    have st: "settled c b" using q by (auto simp: settled_def)
    have tree: "dom_tree c" by (rule settled_dom_tree [OF Cons.prems(2) st])
    have bd: "immediate_dominators c b \<noteq> None" using q by simp
    from walk_up [OF tree bd xd r]
    have rd: "immediate_dominators c r \<noteq> None" and xr: "order_of c x \<le> order_of c r" by simp_all
    from bx xr have br: "order_of c b < order_of c r" by simp
    then have rb: "r \<noteq> b" by auto
    have r0: "r \<noteq> 0" using br by (intro ordered_nonzero [OF zero]) simp
    from fcd_above [OF tree bd xd r] have rab: "on_chain c r b" and rax: "on_chain c r x"
      by simp_all
    from on_chain_first [OF rab rb] q(1) have raq: "on_chain c r q" by simp
    have inj': "\<And>x y. 0 < order_of c x \<Longrightarrow> order_of c x = order_of c y \<Longrightarrow> x = y"
      using inj unfolding oc by blast
    have upd: "on_chain ?c1 h y \<longleftrightarrow> on_chain c h y" if "y \<noteq> b" for h y
      by (rule chain_update [OF Cons.prems(2) that])
    have "folded ?c1 b (seen @ [x])"
      unfolding folded_def
    proof (simp only: append_is_Nil_conv list.simps if_False simp_thms, intro exI [of _ r] conjI ballI allI impI)
      show "immediate_dominators ?c1 b = Some r" by simp
      show "r \<noteq> 0" by (rule r0)
      show "r \<noteq> b" by (rule rb)
      show "immediate_dominators ?c1 r \<noteq> None" using rd rb by simp
    next
      fix y assume "y \<in> set (seen @ [x])"
      then consider "y \<in> set seen" | "y = x" by auto
      then have "on_chain c r y"
      proof cases
        case 1
        with sound have "on_chain c q y" by simp
        from on_chain_trans [OF this raq] show ?thesis .
      next
        case 2
        with rax show ?thesis by simp
      qed
      moreover from \<open>y \<in> set (seen @ [x])\<close> seen1 have "y \<noteq> b" by blast
      ultimately show "on_chain ?c1 r y" by (simp add: upd)
    next
      fix h assume all: "\<forall>y \<in> set (seen @ [x]). on_chain ?c1 h y"
      have "on_chain c h y" if "y \<in> set (seen @ [x])" for y
      proof -
        from that seen1 have yb: "y \<noteq> b" by blast
        from all that have "on_chain ?c1 h y" by blast
        then show ?thesis unfolding upd [OF yb] .
      qed
      then have hs: "\<forall>y \<in> set seen. on_chain c h y" and hx: "on_chain c h x" by simp_all
      from compl hs have "on_chain c h q" by simp
      from on_chain_step [OF q(1) this] have hb: "on_chain c h b" .
      from fcd_under [OF tree inj' hb hx r] have "on_chain c h r" .
      with rb show "on_chain ?c1 h r" by (simp add: upd)
    qed
    from Cons.IH [OF v1 inv1 rest1 seen1 this run] show ?thesis by simp
  qed
qed

subsection \<open>The lowest common block, for every block\<close>

lemma pred_nonzero:
  assumes d: "dfs_done compiler e d" and x: "x \<in> set (edges_of (preceding_edges d) b)"
  shows "x \<noteq> 0"
proof -
  from d x have "b \<in> set (edges_of (succeeding_edges d) x)"
    by (simp add: dfs_done_def dfs_inv_def edges_ok_def)
  with d have "visit_order d x \<noteq> None"
    by (auto simp: dfs_done_def dfs_inv_def edge_kinds_ok_def)
  with d have "get_block compiler x \<noteq> None"
    by (auto simp: dfs_done_def dfs_inv_def blocks_ok_def)
  then show ?thesis by (auto simp: get_block_def split: if_splits)
qed

lemma lca_step:
  assumes d: "dfs_done compiler e d"
    and g: "same_graph d c"
    and inv: "loop_inv c (order_of d b)"
    and pos: "0 < order_of d b"
    and ne: "edges_of (preceding_edges d) b \<noteq> []"
    and ll: "order_of d b < order_of d (last (edges_of (preceding_edges d) b))"
    and run: "fold_preds fuel c b (edges_of (preceding_edges d) b) = Inr c'"
  shows "lca_ok d c' b"
proof -
  let ?es = "edges_of (preceding_edges d) b"
  have oc: "order_of c = order_of d" by (rule same_graph_order [OF g])
  have vc: "visit_order c = visit_order d" using g by (simp add: same_graph_def)
  have fi: "fold_inv c b"
    using inv pos done_zero [OF d] unfolding fold_inv_def loop_inv_def oc by blast
  have unset: "get_immediate_dominator c b = 0"
  proof (cases "immediate_dominators c b")
    case None
    then show ?thesis by (simp add: get_immediate_dominator_def)
  next
    case (Some q)
    with inv have "order_of d b < order_of c b" unfolding loop_inv_def by blast
    then show ?thesis by (simp add: oc)
  qed
  have z: "0 \<notin> set ?es" using pred_nonzero [OF d] by blast
  have lb: "last ?es \<noteq> b" using ll by auto
  have ld: "immediate_dominators c (last ?es) \<noteq> None"
    using inv ll unfolding loop_inv_def oc by blast
  have us: "usable c b" using unset by (simp add: usable_def)
  from fold_preds_good [OF fi z us ne lb ld run]
  have good: "\<forall>x \<in> set ?es. x \<noteq> b \<and> immediate_dominators c x \<noteq> None" .
  have later: "\<forall>x \<in> set ?es. order_of d b < order_of d x"
  proof
    fix x assume "x \<in> set ?es"
    with good have "immediate_dominators c x \<noteq> None" by simp
    with inv show "order_of d b < order_of d x" unfolding loop_inv_def oc by blast
  qed
  have f0: "folded c b []" using unset by (simp add: folded_def)
  from fold_preds_lca [of d c b ?es "[]" fuel c', OF done_inj [OF d] vc fi good _ f0 run]
  have "folded c' b ?es" by simp
  with ne later show ?thesis by (auto simp: lca_ok_def folded_def)
qed

lemma lca_frame:
  assumes inv: "loop_inv c k" and oc: "order_of c = order_of d"
    and frame: "\<forall>p. k < order_of d p \<longrightarrow> immediate_dominators c' p = immediate_dominators c p"
    and kb: "k < order_of d b"
    and l: "lca_ok d c b"
  shows "lca_ok d c' b"
proof -
  let ?es = "edges_of (preceding_edges d) b"
  from l obtain q where later: "\<forall>x \<in> set ?es. order_of d b < order_of d x"
    and q: "immediate_dominators c b = Some q"
    and sound: "\<forall>x \<in> set ?es. on_chain c q x"
    and compl: "\<forall>h. (\<forall>x \<in> set ?es. on_chain c h x) \<longrightarrow> on_chain c h q"
    by (auto simp: lca_ok_def)
  have fr: "\<forall>p. k < order_of c p \<longrightarrow> immediate_dominators c' p = immediate_dominators c p"
    using frame by (simp add: oc)
  have above: "k < order_of c x" if "x \<in> set ?es" for x
    using later that kb by (auto simp: oc)
  from inv q have "q = b \<or> order_of c b < order_of c q" unfolding loop_inv_def by blast
  with kb have kq: "k < order_of c q" by (auto simp: oc)
  have q': "immediate_dominators c' b = Some q" using frame kb q by simp
  have "\<forall>x \<in> set ?es. on_chain c' q x"
    using sound chain_above [OF inv fr] above by blast
  moreover have "on_chain c' h q" if all: "\<forall>x \<in> set ?es. on_chain c' h x" for h
  proof -
    from all chain_above_back [OF inv fr] above have "\<forall>x \<in> set ?es. on_chain c h x" by blast
    with compl have "on_chain c h q" by simp
    from chain_above [OF inv fr this kq] show ?thesis .
  qed
  ultimately show ?thesis using later q' by (auto simp: lca_ok_def)
qed

lemma dominator_loop_lca:
  assumes d: "dfs_done compiler e d"
  shows "map (order_of d) bs = rev [1..<Suc (length bs)] \<Longrightarrow>
         \<forall>b \<in> set bs. edges_of (preceding_edges d) b \<noteq> [] \<and>
            order_of d b < order_of d (last (edges_of (preceding_edges d) b)) \<Longrightarrow>
         same_graph d c \<Longrightarrow> loop_inv c (length bs) \<Longrightarrow>
         dominator_loop fuel c bs = Inr c' \<Longrightarrow>
         \<forall>b \<in> set bs. lca_ok d c' b"
proof (induction bs arbitrary: c)
  case Nil
  then show ?case by simp
next
  case (Cons b bs)
  let ?c1 = "c\<lparr>preceding_edges := (preceding_edges c)(b \<mapsto> edges_of (preceding_edges c) b)\<rparr>"
  let ?es = "edges_of (preceding_edges d) b"
  from Cons.prems(1) have ob: "order_of d b = Suc (length bs)"
    and rest: "map (order_of d) bs = rev [1..<Suc (length bs)]"
    by simp_all
  have g1: "same_graph d ?c1" by (rule same_graph_CFG [OF Cons.prems(3)])
  have pe: "edges_of (preceding_edges ?c1) b = ?es"
    using g1 by (simp add: same_graph_def)
  from Cons.prems(2) have ne: "?es \<noteq> []" and ll: "order_of d b < order_of d (last ?es)"
    by simp_all
  then have later: "\<exists>x \<in> set ?es. order_of d b < order_of d x"
    using last_in_set by blast
  have inv1: "loop_inv ?c1 (order_of d b)"
    using Cons.prems(4) ob by (simp add: loop_inv_def)
  from Cons.prems(5) pe ne obtain c2 where
    f: "fold_preds fuel ?c1 b ?es = Inr c2"
    and l: "dominator_loop fuel c2 bs = Inr c'"
    by (auto simp: Let_def split: sum.splits)
  have pos: "0 < order_of d b" using ob by simp
  from loop_step [OF d g1 inv1 pos later f] ob
  have s: "loop_inv c2 (length bs)" "same_graph d c2" by simp_all
  have here: "lca_ok d c2 b" by (rule lca_step [OF d g1 inv1 pos ne ll f])
  from Cons.prems(2) have all: "\<forall>b \<in> set bs. edges_of (preceding_edges d) b \<noteq> [] \<and>
      order_of d b < order_of d (last (edges_of (preceding_edges d) b))" by simp
  then have later': "\<forall>b \<in> set bs. \<exists>x \<in> set (edges_of (preceding_edges d) b).
      order_of d b < order_of d x" using last_in_set by blast
  from dominator_loop_inv [OF d rest later' s(2) s(1) l]
  have keep: "\<forall>p. p \<notin> set bs \<longrightarrow> immediate_dominators c' p = immediate_dominators c2 p" by simp
  have frame: "\<forall>p. length bs < order_of d p \<longrightarrow>
      immediate_dominators c' p = immediate_dominators c2 p"
  proof (intro allI impI)
    fix p assume p: "length bs < order_of d p"
    have "p \<notin> set bs"
    proof
      assume "p \<in> set bs"
      then have "order_of d p \<in> set (map (order_of d) bs)" by simp
      with rest have "order_of d p \<le> length bs" by auto
      with p show False by simp
    qed
    with keep show "immediate_dominators c' p = immediate_dominators c2 p" by simp
  qed
  have "lca_ok d c' b"
    by (rule lca_frame [OF s(1) same_graph_order [OF s(2)] frame _ here]) (simp add: ob)
  with Cons.IH [OF rest all s(2) s(1) l] show ?case by simp
qed

lemma build_immediate_dominators_lca:
  assumes d: "dfs_done compiler e d"
    and l: "\<forall>x \<in> set (post_order d). x \<noteq> e \<longrightarrow> last_later d x"
    and run: "build_immediate_dominators fuel e d = Inr cfg"
  shows "\<forall>b \<in> set (post_order d). b \<noteq> e \<longrightarrow> lca_ok d cfg b"
proof (intro ballI impI)
  fix b assume b: "b \<in> set (post_order d)" "b \<noteq> e"
  let ?po = "post_order d"
  from build_prepare [OF d run] obtain c2 where
    c2: "dominator_loop fuel c2 (rev (butlast ?po)) = Inr cfg"
    and g2: "same_graph d c2"
    and inv2: "loop_inv c2 (length (rev (butlast ?po)))"
    and m: "map (order_of d) (rev (butlast ?po)) = rev [1..<Suc (length (rev (butlast ?po)))]"
    and enot: "e \<notin> set (butlast ?po)"
    and sets: "set ?po = insert e (set (butlast ?po))"
    by blast
  have all: "\<forall>b \<in> set (rev (butlast ?po)). edges_of (preceding_edges d) b \<noteq> [] \<and>
      order_of d b < order_of d (last (edges_of (preceding_edges d) b))"
  proof
    fix b assume b: "b \<in> set (rev (butlast ?po))"
    then have "b \<in> set ?po" using sets by simp
    moreover have "b \<noteq> e" using b enot by auto
    ultimately have "last_later d b" using l by simp
    then show "edges_of (preceding_edges d) b \<noteq> [] \<and>
      order_of d b < order_of d (last (edges_of (preceding_edges d) b))"
      by (rule done_last_later [OF d])
  qed
  from b sets have "b \<in> set (rev (butlast ?po))" by simp
  with dominator_loop_lca [OF d m all g2 inv2 c2] show "lca_ok d cfg b" by simp
qed

text \<open>
  In a CFG the constructor has returned, every block but the entry block has only
  predecessors that finished later, and its immediate dominator is the lowest block on
  the dominator chains of all its predecessors.
\<close>

lemma CFG_build_lca:
  assumes "CFG_build fuel compiler e = Inr cfg"
    and "b \<in> set (post_order cfg)" "b \<noteq> e"
  shows "lca_ok cfg cfg b"
proof -
  from assms(1) obtain d where d: "build_post_order_visit_order fuel compiler e empty_CFG = Inr d"
    and run: "build_immediate_dominators fuel e d = Inr cfg"
    by (auto simp: CFG_build_def split: sum.splits)
  have dd: "dfs_done compiler e d" by (rule dfs_result [OF d])
  from build_immediate_dominators_result [OF dd run] have g: "same_graph d cfg" by simp
  then have po: "post_order cfg = post_order d"
    and pe: "\<And>x. edges_of (preceding_edges cfg) x = edges_of (preceding_edges d) x"
    by (simp_all add: same_graph_def)
  have oc: "order_of cfg = order_of d" by (rule same_graph_order [OF g])
  from build_immediate_dominators_lca [OF dd dfs_result_last [OF d] run] assms(2,3)
  have "lca_ok d cfg b" by (simp add: po)
  then show ?thesis by (simp add: lca_ok_def pe oc)
qed

section \<open>Dominators in the flow graph\<close>

subsection \<open>The recorded graph and the flow graph\<close>

lemma dfs_result_full:
  assumes "build_post_order_visit_order fuel compiler e empty_CFG = Inr d"
  shows "dfs_full compiler e d"
  using dfs_result [OF assms] dfs_result_flow [OF assms] by (simp add: dfs_full_def)

lemma same_graph_full:
  assumes g: "same_graph d c" and f: "dfs_full compiler e d"
  shows "dfs_full compiler e c"
proof -
  from g have eq: "visit_order c = visit_order d" "post_order c = post_order d"
    "succeeding_edges c = succeeding_edges d"
    by (simp_all add: same_graph_def)
  from f have "dfs_done compiler e c" using same_graph_done [OF g] by (simp add: dfs_full_def)
  moreover have "flow_ok compiler c = flow_ok compiler d" by (simp add: flow_ok_def eq)
  moreover have "entered_ok compiler e c = entered_ok compiler e d"
    by (simp add: entered_ok_def eq)
  moreover have "complete_ok compiler c = complete_ok compiler d"
    by (simp add: complete_ok_def eq)
  moreover have "dom_later compiler e c = dom_later compiler e d"
    by (simp add: dom_later_def eq)
  ultimately show ?thesis using f by (simp add: dfs_full_def)
qed

lemma CFG_build_full:
  assumes "CFG_build fuel compiler e = Inr cfg"
  shows "dfs_full compiler e cfg"
proof -
  from assms obtain d where d: "build_post_order_visit_order fuel compiler e empty_CFG = Inr d"
    and run: "build_immediate_dominators fuel e d = Inr cfg"
    by (auto simp: CFG_build_def split: sum.splits)
  from build_immediate_dominators_result [OF dfs_result [OF d] run]
  have "same_graph d cfg" by simp
  from same_graph_full [OF this dfs_result_full [OF d]] show ?thesis .
qed

lemma full_finished:
  assumes f: "dfs_full compiler e c" and v: "visit_order c x \<noteq> None"
  shows "x \<in> set (post_order c)" and "0 < order_of c x"
proof -
  from f have d: "dfs_done compiler e c" by (simp add: dfs_full_def)
  from v obtain w where w: "visit_order c x = Some w" by auto
  with d have "w \<noteq> 0" by (auto simp: dfs_done_def)
  moreover from d w have "w = 0 \<or> x \<in> set (post_order c)"
    by (auto simp: dfs_done_def dfs_inv_def numbering_ok_def)
  ultimately show p: "x \<in> set (post_order c)" by simp
  then obtain i where "i < length (post_order c)" "post_order c ! i = x"
    by (auto simp: in_set_conv_nth)
  with done_nth [OF d, of i] show "0 < order_of c x" by auto
qed

lemma full_order:
  assumes f: "dfs_full compiler e c" and x: "x \<in> set (post_order c)"
  shows "visit_order c x = Some (int (order_of c x))" and "0 < order_of c x"
proof -
  from f have d: "dfs_done compiler e c" by (simp add: dfs_full_def)
  from x obtain i where i: "i < length (post_order c)" "post_order c ! i = x"
    by (auto simp: in_set_conv_nth)
  with done_numbering [OF d] have "visit_order c x = Some (int (Suc i))"
    by (auto simp: numbering_ok_def)
  moreover from done_nth [OF d i(1)] i(2) have "order_of c x = Suc i" by simp
  ultimately show "visit_order c x = Some (int (order_of c x))" and "0 < order_of c x"
    by simp_all
qed

text \<open>
  The recorded successors of a block are exactly the implied loop edge, if the block is
  a loop header, and the branch targets that finished before the block.
\<close>

lemma recorded_edges:
  assumes f: "dfs_full compiler e c"
  shows "y \<in> set (edges_of (succeeding_edges c) x) \<longleftrightarrow>
           x \<in> set (post_order c) \<and>
           (is_loop_edge compiler x y \<or>
            (target_edge compiler x y \<and> 0 < order_of c y \<and> order_of c y < order_of c x))"
proof
  from f have d: "dfs_done compiler e c" by (simp add: dfs_full_def)
  assume e: "y \<in> set (edges_of (succeeding_edges c) x)"
  with d have "visit_order c x \<noteq> None"
    by (auto simp: dfs_done_def dfs_inv_def edge_kinds_ok_def)
  from full_finished(1) [OF f this] have x: "x \<in> set (post_order c)" .
  from f e have "flow_edge compiler x y" by (auto simp: dfs_full_def flow_ok_def)
  with built_edge_kinds [OF d e] x
  show "x \<in> set (post_order c) \<and>
     (is_loop_edge compiler x y \<or>
      (target_edge compiler x y \<and> 0 < order_of c y \<and> order_of c y < order_of c x))"
    by (auto simp: flow_edge_def)
next
  from f have d: "dfs_done compiler e c" by (simp add: dfs_full_def)
  assume a: "x \<in> set (post_order c) \<and>
     (is_loop_edge compiler x y \<or>
      (target_edge compiler x y \<and> 0 < order_of c y \<and> order_of c y < order_of c x))"
  then have x: "x \<in> set (post_order c)" by simp
  from a consider "is_loop_edge compiler x y"
    | "target_edge compiler x y" "0 < order_of c y" "order_of c y < order_of c x" by auto
  then show "y \<in> set (edges_of (succeeding_edges c) x)"
  proof cases
    case 1
    with d x show ?thesis by (auto simp: dfs_done_def dfs_inv_def loops_ok_def)
  next
    case 2
    from f x 2(1) have "y \<in> set (edges_of (succeeding_edges c) x) \<or> visit_order c y = Some 0 \<or>
        (\<exists>vt vx. visit_order c y = Some vt \<and> visit_order c x = Some vx \<and> vx \<le> vt)"
      by (simp add: dfs_full_def complete_ok_def)
    moreover from d have "visit_order c y \<noteq> Some 0" by (simp add: dfs_done_def)
    moreover have "\<not> (\<exists>vt vx. visit_order c y = Some vt \<and> visit_order c x = Some vx \<and> vx \<le> vt)"
    proof
      assume "\<exists>vt vx. visit_order c y = Some vt \<and> visit_order c x = Some vx \<and> vx \<le> vt"
      then obtain vt vx where v: "visit_order c y = Some vt" "visit_order c x = Some vx" "vx \<le> vt"
        by blast
      from full_finished(1) [OF f, of y] v(1) have "y \<in> set (post_order c)" by simp
      from full_order(1) [OF f this] full_order(1) [OF f x] v 2(3) show False by simp
    qed
    ultimately show ?thesis by blast
  qed
qed

lemma recorded_predecessors:
  assumes f: "dfs_full compiler e c"
  shows "x \<in> set (edges_of (preceding_edges c) y) \<longleftrightarrow>
           x \<in> set (post_order c) \<and>
           (is_loop_edge compiler x y \<or>
            (target_edge compiler x y \<and> 0 < order_of c y \<and> order_of c y < order_of c x))"
proof -
  from f have d: "dfs_done compiler e c" by (simp add: dfs_full_def)
  from built_symmetric [OF d, of y x] recorded_edges [OF f, of y x] show ?thesis by simp
qed

text \<open>The visited blocks are exactly the blocks reachable through terminators.\<close>

lemma visited_reaches:
  assumes f: "dfs_full compiler e c"
  shows "x \<in> set (post_order c) \<longleftrightarrow> reaches compiler e x"
proof
  assume "x \<in> set (post_order c)"
  from full_order(1) [OF f this] f show "reaches compiler e x"
    by (auto simp: dfs_full_def entered_ok_def)
next
  from f have d: "dfs_done compiler e c" by (simp add: dfs_full_def)
  assume "reaches compiler e x"
  then show "x \<in> set (post_order c)"
  proof (induction rule: reaches_induct)
    case base
    from d have "post_order c \<noteq> []" "last (post_order c) = e" by (simp_all add: dfs_done_def)
    then show ?case by (metis last_in_set)
  next
    case (step x y)
    from step.hyps(2) obtain block where blk: "get_block compiler x = Some block"
      and y: "y \<in> set (branch_targets block)"
      by (auto simp: target_edge_def split: option.splits)
    from d step.IH blk y have "visit_order c y \<noteq> None"
      by (auto simp: dfs_done_def)
    from full_finished(1) [OF f this] show ?case .
  qed
qed

text \<open>A block that dominates a visited block is visited itself, and finished later.\<close>

lemma dominators_later:
  assumes f: "dfs_full compiler e c"
    and dm: "dominates compiler e h m" and hm: "h \<noteq> m" and m: "m \<in> set (post_order c)"
  shows "h \<in> set (post_order c)" and "order_of c m < order_of c h"
proof -
  from f have d: "dfs_done compiler e c" by (simp add: dfs_full_def)
  from f dm hm m have "visit_order c h = Some 0 \<or>
      (\<exists>vx vm. visit_order c h = Some vx \<and> visit_order c m = Some vm \<and> vm < vx)"
    by (simp add: dfs_full_def dom_later_def)
  moreover from d have "visit_order c h \<noteq> Some 0" by (simp add: dfs_done_def)
  ultimately obtain vx vm where v: "visit_order c h = Some vx" "visit_order c m = Some vm" "vm < vx"
    by blast
  from full_finished(1) [OF f, of h] v(1) show h: "h \<in> set (post_order c)" by simp
  from full_order(1) [OF f h] full_order(1) [OF f m] v show "order_of c m < order_of c h" by simp
qed

subsection \<open>Dominating blocks are on the dominator chain\<close>

lemma built_lca:
  assumes "CFG_build fuel compiler e = Inr cfg" "b \<in> set (post_order cfg)" "b \<noteq> e"
  shows "\<forall>x \<in> set (edges_of (preceding_edges cfg) b). order_of cfg b < order_of cfg x"
    and "\<exists>q. immediate_dominators cfg b = Some q \<and>
           (\<forall>x \<in> set (edges_of (preceding_edges cfg) b). on_chain cfg q x) \<and>
           (\<forall>h. (\<forall>x \<in> set (edges_of (preceding_edges cfg) b). on_chain cfg h x) \<longrightarrow>
              on_chain cfg h q)"
  using CFG_build_lca [OF assms] by (simp_all add: lca_ok_def)

lemma dominates_on_chain:
  assumes built: "CFG_build fuel compiler e = Inr cfg"
  shows "m \<in> set (post_order cfg) \<Longrightarrow> dominates compiler e h m \<Longrightarrow> on_chain cfg h m"
proof (induction "length (post_order cfg) - order_of cfg m" arbitrary: m rule: less_induct)
  case less
  have f: "dfs_full compiler e cfg" by (rule CFG_build_full [OF built])
  then have d: "dfs_done compiler e cfg" by (simp add: dfs_full_def)
  show ?case
  proof (cases "m = e \<or> h = m")
    case True
    with dominates_entry [of compiler e h] less.prems(2) show ?thesis by auto
  next
    case False
    then have me: "m \<noteq> e" and hm: "h \<noteq> m" by simp_all
    from built_lca [OF built less.prems(1) me] obtain q where
      later: "\<forall>x \<in> set (edges_of (preceding_edges cfg) m). order_of cfg m < order_of cfg x"
      and q: "immediate_dominators cfg m = Some q"
      and compl: "\<forall>h. (\<forall>x \<in> set (edges_of (preceding_edges cfg) m). on_chain cfg h x) \<longrightarrow>
            on_chain cfg h q"
      by blast
    have "on_chain cfg h x" if x: "x \<in> set (edges_of (preceding_edges cfg) m)" for x
    proof -
      from recorded_predecessors [OF f, of x m] x have xp: "x \<in> set (post_order cfg)"
        and "flow_edge compiler x m" by (auto simp: flow_edge_def)
      with visited_reaches [OF f] less.prems(1) have "live_edge compiler e x m"
        by (simp add: live_edge_def)
      from dominates_pred [OF less.prems(2) hm this] have dx: "dominates compiler e h x" .
      from later x have lt: "order_of cfg m < order_of cfg x" by simp
      moreover have "order_of cfg x \<le> length (post_order cfg)" by (rule done_le [OF d])
      ultimately have "length (post_order cfg) - order_of cfg x
          < length (post_order cfg) - order_of cfg m" by simp
      from less.hyps [OF this xp dx] show ?thesis .
    qed
    with compl have "on_chain cfg h q" by simp
    from on_chain_step [OF q this] show ?thesis .
  qed
qed

text \<open>
  A visited merge block that its loop header dominates has the loop header as its
  immediate dominator.
\<close>

lemma merge_dominated_by_header:
  assumes built: "CFG_build fuel compiler e = Inr cfg"
    and loop: "is_loop_edge compiler h m" and hm: "h \<noteq> m"
    and m: "m \<in> set (post_order cfg)"
    and dm: "dominates compiler e h m"
  shows "get_immediate_dominator cfg m = h"
proof -
  have f: "dfs_full compiler e cfg" by (rule CFG_build_full [OF built])
  then have d: "dfs_done compiler e cfg" by (simp add: dfs_full_def)
  have cd: "cfg_done compiler e cfg" by (rule CFG_build_done [OF built])
  have tree: "dom_tree cfg"
    using cd unfolding cfg_done_def loop_inv_def dom_tree_def by blast
  have me: "m \<noteq> e"
  proof
    assume "m = e"
    with dominates_entry [of compiler e h] dm hm show False by simp
  qed
  from dominators_later [OF f dm hm m] have h: "h \<in> set (post_order cfg)"
    and lt: "order_of cfg m < order_of cfg h" by simp_all
  from recorded_predecessors [OF f, of h m] h loop
  have hp: "h \<in> set (edges_of (preceding_edges cfg) m)" by simp
  from built_lca(2) [OF built m me] obtain q where
    q: "immediate_dominators cfg m = Some q"
    and sound: "\<forall>x \<in> set (edges_of (preceding_edges cfg) m). on_chain cfg q x"
    by blast
  from sound hp have qh: "on_chain cfg q h" by simp
  from dominates_on_chain [OF built m dm] have "on_chain cfg h m" .
  from on_chain_first [OF this hm] q have hq: "on_chain cfg h q" by simp
  from chain_order [OF tree qh] chain_order [OF tree hq]
  have "order_of cfg h = order_of cfg q" by simp
  from done_inj [OF d _ this] lt have "h = q" by simp
  with q show ?thesis by (simp add: get_immediate_dominator_def)
qed

subsection \<open>With structured loops the constructor returns\<close>

lemma structured_predecessors_later:
  assumes f: "dfs_full compiler e d" and s: "structured_loops compiler e"
  shows "\<forall>b \<in> set (post_order d). \<forall>x \<in> set (edges_of (preceding_edges d) b).
           order_of d b < order_of d x"
proof (intro ballI)
  fix b x assume b: "b \<in> set (post_order d)" and x: "x \<in> set (edges_of (preceding_edges d) b)"
  from recorded_predecessors [OF f, of x b] x have xp: "x \<in> set (post_order d)"
    and k: "is_loop_edge compiler x b \<or> order_of d b < order_of d x" by auto
  show "order_of d b < order_of d x"
  proof (cases "is_loop_edge compiler x b")
    case True
    from visited_reaches [OF f] b xp have "reaches compiler e b" "reaches compiler e x"
      by simp_all
    with s True have "x \<noteq> b" "dominates compiler e x b"
      by (auto simp: structured_loops_def)
    from dominators_later(2) [OF f this(2,1) b] show ?thesis .
  next
    case False
    with k show ?thesis by simp
  qed
qed

lemma visited_in_store:
  assumes d: "dfs_done compiler e d"
  shows "set (post_order d) \<subseteq> dom compiler"
proof
  fix x assume "x \<in> set (post_order d)"
  then obtain i where "i < length (post_order d)" "post_order d ! i = x"
    by (auto simp: in_set_conv_nth)
  with done_numbering [OF d] have "visit_order d x \<noteq> None"
    by (auto simp: numbering_ok_def)
  with d have "get_block compiler x \<noteq> None"
    by (auto simp: dfs_done_def dfs_inv_def blocks_ok_def)
  then show "x \<in> dom compiler" by (auto simp: get_block_def split: if_splits)
qed

lemma CFG_build_returns_structured:
  assumes closed: "closed_store compiler" and e: "get_block compiler e \<noteq> None"
    and s: "structured_loops compiler e"
  shows "\<exists>cfg. CFG_build (2 * card (dom compiler) + 1) compiler e = Inr cfg"
proof -
  let ?fuel = "2 * card (dom compiler) + 1"
  have "card (dom compiler) < ?fuel" by simp
  from build_post_order_visit_order_returns [OF closed e this] obtain d where
    d: "build_post_order_visit_order ?fuel compiler e empty_CFG = Inr d" by blast
  have dd: "dfs_done compiler e d" by (rule dfs_result [OF d])
  from closed have fin: "finite (dom compiler)" by (simp add: closed_store_def)
  from dd have "distinct (post_order d)"
    by (simp add: dfs_done_def dfs_inv_def numbering_ok_def)
  then have "length (post_order d) = card (set (post_order d))"
    by (simp add: distinct_card)
  also have "\<dots> \<le> card (dom compiler)"
    by (rule card_mono [OF fin visited_in_store [OF dd]])
  finally have "max ?fuel (2 * length (post_order d)) = ?fuel" by simp
  with CFG_build_returns [OF d structured_predecessors_later [OF dfs_result_full [OF d] s]]
  show ?thesis by simp
qed

lemma reaches_entry_block:
  assumes "reaches compiler e x" "x \<noteq> e"
  shows "get_block compiler e \<noteq> None"
proof -
  from assms(1) have "x = e \<or> get_block compiler e \<noteq> None"
  proof (induction rule: reaches_induct)
    case base
    then show ?case by simp
  next
    case (step x y)
    then show ?case by (cases "x = e") (auto simp: target_edge_def split: option.splits)
  qed
  with assms(2) show ?thesis by simp
qed

section \<open>The examples, evaluated\<close>

lemmas cfg_eval =
  CFG_build_def build_post_order_visit_order_def build_immediate_dominators_def
  make_block_def empty_CFG_def visit_order_or_default_def get_block_def
  is_back_edge_def finish_block_def add_branch_def add_unique_def edges_of_def
  get_visit_order_def get_immediate_dominator_def Let_def eval_nat_numeral

lemma do_while_eval:
  "case CFG_build 10 do_while_blocks 1 of
     Inl e \<Rightarrow> False
   | Inr cfg \<Rightarrow>
       post_order cfg = [4, 3, 2, 1] \<and>
       map (get_visit_order cfg) [1, 2, 3, 4] = [Inr 4, Inr 3, Inr 2, Inr 1] \<and>
       map (get_immediate_dominator cfg) [1, 2, 3, 4, 7] = [1, 1, 2, 2, 0] \<and>
       map (edges_of (succeeding_edges cfg)) [1, 2, 3, 4] = [[2], [3, 4], [4], []] \<and>
       map (edges_of (preceding_edges cfg)) [1, 2, 3, 4] = [[], [1], [2], [3, 2]]"
  by (simp add: cfg_eval do_while_blocks_def)

lemma do_while_built: "CFG_build 10 do_while_blocks 1 = Inr do_while_cfg"
  using do_while_eval by (simp add: do_while_cfg_def split: sum.splits)

lemma do_while_facts:
  "post_order do_while_cfg = [4, 3, 2, 1]"
  "map (get_visit_order do_while_cfg) [1, 2, 3, 4] = [Inr 4, Inr 3, Inr 2, Inr 1]"
  "map (get_immediate_dominator do_while_cfg) [1, 2, 3, 4, 7] = [1, 1, 2, 2, 0]"
  "map (edges_of (succeeding_edges do_while_cfg)) [1, 2, 3, 4] = [[2], [3, 4], [4], []]"
  "map (edges_of (preceding_edges do_while_cfg)) [1, 2, 3, 4] = [[], [1], [2], [3, 2]]"
  using do_while_eval unfolding do_while_built by simp_all












lemma endless_loop_eval:
  "case CFG_build 10 endless_loop_blocks 1 of
     Inl e \<Rightarrow> False
   | Inr cfg \<Rightarrow>
       post_order cfg = [2, 1] \<and>
       edges_of (succeeding_edges cfg) 2 = [3] \<and>
       edges_of (preceding_edges cfg) 3 = [2]"
  by (simp add: cfg_eval endless_loop_blocks_def)

lemma endless_loop_built: "CFG_build 10 endless_loop_blocks 1 = Inr endless_loop_cfg"
  using endless_loop_eval by (simp add: endless_loop_cfg_def split: sum.splits)

lemma endless_loop_facts:
  "post_order endless_loop_cfg = [2, 1]"
  "edges_of (succeeding_edges endless_loop_cfg) 2 = [3]"
  "edges_of (preceding_edges endless_loop_cfg) 3 = [2]"
  using endless_loop_eval unfolding endless_loop_built by simp_all

lemma endless_loop_header_eval:
  "case post_order_visit 9 endless_loop_blocks endless_loop_entered 2 of
     Inl e \<Rightarrow> False
   | Inr (ok, cfg) \<Rightarrow>
       ok \<and> post_order cfg = [2] \<and> visit_order cfg 3 = None \<and>
       edges_of (succeeding_edges cfg) 2 = [3] \<and> edges_of (preceding_edges cfg) 3 = [2]"
  by (simp add: cfg_eval endless_loop_blocks_def endless_loop_entered_def)

lemma endless_loop_header_visit:
  "post_order_visit 9 endless_loop_blocks endless_loop_entered 2 =
     Inr (True, endless_loop_header_done)"
  using endless_loop_header_eval
  by (auto simp: endless_loop_header_done_def split: sum.splits prod.splits)

lemma endless_loop_header_facts:
  "post_order endless_loop_header_done = [2]"
  "visit_order endless_loop_header_done 3 = None"
  "edges_of (succeeding_edges endless_loop_header_done) 2 = [3]"
  "edges_of (preceding_edges endless_loop_header_done) 3 = [2]"
  using endless_loop_header_eval unfolding endless_loop_header_visit by simp_all

lemma do_while_branch_eval:
  "case CFG_build 15 do_while_branch_blocks 1 of
     Inl e \<Rightarrow> False
   | Inr cfg \<Rightarrow>
       post_order cfg = [6, 7, 4, 5, 3, 2, 1] \<and>
       map (get_immediate_dominator cfg) [1, 2, 3, 4, 5, 7, 6] = [1, 1, 2, 3, 3, 3, 2] \<and>
       map (edges_of (preceding_edges cfg)) [1, 2, 3, 4, 5, 7, 6] =
         [[], [1], [2], [3], [3], [4, 5], [7, 2]]"
  by (simp add: cfg_eval do_while_branch_blocks_def)

lemma do_while_branch_built:
  "CFG_build 15 do_while_branch_blocks 1 = Inr do_while_branch_cfg"
  using do_while_branch_eval by (simp add: do_while_branch_cfg_def split: sum.splits)

lemma do_while_branch_facts:
  "post_order do_while_branch_cfg = [6, 7, 4, 5, 3, 2, 1]"
  "map (get_immediate_dominator do_while_branch_cfg) [1, 2, 3, 4, 5, 7, 6] = [1, 1, 2, 3, 3, 3, 2]"
  "map (edges_of (preceding_edges do_while_branch_cfg)) [1, 2, 3, 4, 5, 7, 6] =
     [[], [1], [2], [3], [3], [4, 5], [7, 2]]"
  using do_while_branch_eval unfolding do_while_branch_built by simp_all

lemmas store_eval =
  get_block_def make_block_def branch_targets_def target_edge_def flow_edge_def is_loop_edge_def

lemma do_while_branch_store:
  "get_block do_while_branch_blocks 2 = Some (make_block Direct MergeLoop 3 6 0 0)"
  "dom do_while_branch_blocks = {1, 2, 3, 4, 5, 6, 7}"
  "closed_store do_while_branch_blocks"
proof -
  show "get_block do_while_branch_blocks 2 = Some (make_block Direct MergeLoop 3 6 0 0)"
    by (simp add: get_block_def do_while_branch_blocks_def)
  show d: "dom do_while_branch_blocks = {1, 2, 3, 4, 5, 6, 7}"
    by (auto simp: do_while_branch_blocks_def)
  have "\<forall>t \<in> set (branch_targets block). get_block do_while_branch_blocks t \<noteq> None"
    if "get_block do_while_branch_blocks b = Some block" for b block
    using that
    by (auto simp: get_block_def do_while_branch_blocks_def make_block_def branch_targets_def
             split: if_splits)
  with d show "closed_store do_while_branch_blocks"
    by (simp add: closed_store_def)
qed

lemma do_while_branch_reaches: "reaches do_while_branch_blocks 1 6"
  unfolding reaches_def
  by (rule exI [of _ "[1, 2, 3, 4, 7, 6]"])
     (simp add: store_eval do_while_branch_blocks_def)

lemma do_while_branch_dominates: "dominates do_while_branch_blocks 1 2 6"
proof (rule dominates_region [of 1 "{1}"])
  show "(1 :: nat) \<in> {1}" by simp
  show "(6 :: nat) \<notin> {1}" by simp
  show "\<forall>a \<in> {1}. \<forall>b. flow_edge do_while_branch_blocks a b \<longrightarrow> b = 2 \<or> b \<in> {1}"
    by (simp add: store_eval do_while_branch_blocks_def)
qed

lemma do_while_branch_structured: "structured_loops do_while_branch_blocks 1"
  unfolding structured_loops_def
proof (intro allI impI)
  fix h m
  assume "reaches do_while_branch_blocks 1 h \<and> reaches do_while_branch_blocks 1 m \<and>
    is_loop_edge do_while_branch_blocks h m"
  then have "is_loop_edge do_while_branch_blocks h m" by simp
  then have "h = 2 \<and> m = 6"
    by (auto simp: is_loop_edge_def get_block_def do_while_branch_blocks_def make_block_def
             split: if_splits)
  with do_while_branch_dominates show "h \<noteq> m \<and> dominates do_while_branch_blocks 1 h m"
    by simp
qed

lemma do_while_values [simp]:
  "get_visit_order do_while_cfg 1 = Inr 4" "get_visit_order do_while_cfg 2 = Inr 3"
  "get_visit_order do_while_cfg 3 = Inr 2" "get_visit_order do_while_cfg 4 = Inr 1"
  "get_immediate_dominator do_while_cfg 1 = 1" "get_immediate_dominator do_while_cfg 2 = 1"
  "get_immediate_dominator do_while_cfg 3 = 2" "get_immediate_dominator do_while_cfg 4 = 2"
  "get_immediate_dominator do_while_cfg 7 = 0"
  using do_while_facts(2,3) by simp_all

section \<open>Visit orders along the dominator tree\<close>

text \<open>
  Claim C1 as stated fails. In the do/while example block 4 is visited, its immediate
  dominator is block 2, and the visit order of block 2 (3) is not less than or equal to
  the visit order of block 4 (1): blocks are numbered as they finish, so a dominator,
  which finishes after the blocks it dominates, has the larger number.
\<close>

theorem dominator_visit_order_counterexample:
  "CFG_build 10 do_while_blocks 1 = Inr do_while_cfg \<and>
   4 \<in> set (post_order do_while_cfg) \<and>
   get_immediate_dominator do_while_cfg 4 = 2 \<and>
   get_immediate_dominator do_while_cfg 4 \<noteq> 4 \<and>
   \<not> order_of do_while_cfg (get_immediate_dominator do_while_cfg 4) \<le> order_of do_while_cfg 4"
  using do_while_built do_while_facts(1) by (simp add: order_of_def)

text \<open>
  Claim C1, amended. For every block B in \<open>post_order\<close> of a constructed CFG whose
  immediate dominator D is not B itself, both visit orders are recorded and the visit
  order of B is strictly less than the visit order of D.
\<close>

theorem dominator_finishes_later:
  assumes "CFG_build fuel compiler entry_block = Inr cfg"
    and "b \<in> set (post_order cfg)"
    and "get_immediate_dominator cfg b \<noteq> b"
  shows "\<exists>vb vd. get_visit_order cfg b = Inr vb \<and>
           get_visit_order cfg (get_immediate_dominator cfg b) = Inr vd \<and> vb < vd"
proof -
  have built: "cfg_done compiler entry_block cfg" by (rule CFG_build_done [OF assms(1)])
  from built_dominator [OF built assms(2)] obtain q where
    q: "immediate_dominators cfg b = Some q" "0 < order_of cfg q"
    "q = b \<or> order_of cfg b < order_of cfg q" by blast
  have g: "get_immediate_dominator cfg b = q" using q(1) by (simp add: get_immediate_dominator_def)
  with assms(3) q(3) have lt: "order_of cfg b < order_of cfg q" by simp
  have pos: "0 < order_of cfg b" by (rule built_finished [OF built assms(2)])
  show ?thesis
    using g lt pos q(2) by (simp add: get_visit_order_order_of)
qed

theorem dominator_finishes_later_witness:
  "CFG_build 10 do_while_blocks 1 = Inr do_while_cfg \<and>
   4 \<in> set (post_order do_while_cfg) \<and>
   get_immediate_dominator do_while_cfg 4 \<noteq> 4 \<and>
   get_visit_order do_while_cfg 4 = Inr 1 \<and>
   get_visit_order do_while_cfg (get_immediate_dominator do_while_cfg 4) = Inr 3"
proof -
  have h2: "4 \<in> set (post_order do_while_cfg)" by (simp add: do_while_facts(1))
  have h3: "get_immediate_dominator do_while_cfg 4 \<noteq> 4" by simp
  from dominator_finishes_later [OF do_while_built h2 h3] do_while_built h2
  show ?thesis by simp
qed

section \<open>The root of the dominator tree\<close>

text \<open>
  Claim C5. Whenever the constructor returns a CFG, the immediate dominator of the entry
  block is the entry block itself: the dominator pass leaves the entry that
  \<open>build_immediate_dominators\<close> starts with in place.
\<close>

theorem entry_is_own_dominator:
  assumes "CFG_build fuel compiler entry_block = Inr cfg"
  shows "get_immediate_dominator cfg entry_block = entry_block"
  using CFG_build_done [OF assms] by (simp add: cfg_done_def get_immediate_dominator_def)

theorem entry_is_own_dominator_witness:
  "CFG_build 10 do_while_blocks 1 = Inr do_while_cfg \<and>
   get_immediate_dominator do_while_cfg 1 = 1"
  using entry_is_own_dominator [OF do_while_built] do_while_built by simp

section \<open>Predecessors and the assert of the dominator pass\<close>





section \<open>The implied edge of a loop header\<close>

text \<open>
  Claim C3. In a constructed CFG, for every visited block whose merge kind is
  \<open>MergeLoop\<close>, the merge block is in \<open>succeeding_edges\<close> of the block and the block is in
  \<open>preceding_edges\<close> of the merge block; nothing is asked of the merge block. The edge is
  added without a test and without a visit: when the visit of a new loop header \<open>b\<close>
  returns, it has worked through the targets of the terminator (leaving state \<open>c3\<close>),
  added the edge to the merge block whatever the state of that block, and numbered \<open>b\<close>;
  from \<open>c3\<close> on, \<open>post_order\<close> has grown by \<open>b\<close> alone and \<open>visit_order\<close> has changed for \<open>b\<close>
  alone. So in a constructed CFG the visited blocks are exactly the blocks that paths of
  terminator targets reach from the entry block: the implied edge makes no block visited.
\<close>

theorem loop_header_merge_edge:
  "(CFG_build fuel compiler entry_block = Inr cfg \<and> b \<in> set (post_order cfg) \<and>
    get_block compiler b = Some block \<and> merge block = MergeLoop \<longrightarrow>
      merge_block block \<in> set (edges_of (succeeding_edges cfg) b) \<and>
      b \<in> set (edges_of (preceding_edges cfg) (merge_block block))) \<and>
   (visit_order_or_default c b < 0 \<and> get_block compiler b = Some block \<and>
    merge block = MergeLoop \<and> post_order_visit (Suc n) compiler c b = Inr (ok, c') \<longrightarrow>
      (\<exists>c3. visit_targets n compiler (mark_block c b) b (branch_targets block) = Inr c3 \<and>
         c' = finish_block (add_branch c3 b (merge_block block)) b \<and>
         post_order c' = post_order c3 @ [b] \<and>
         (\<forall>x. x \<noteq> b \<longrightarrow> visit_order c' x = visit_order c3 x) \<and>
         merge_block block \<in> set (edges_of (succeeding_edges c') b) \<and>
         b \<in> set (edges_of (preceding_edges c') (merge_block block)))) \<and>
   (CFG_build fuel compiler entry_block = Inr cfg \<longrightarrow>
      (x \<in> set (post_order cfg) \<longleftrightarrow> reaches compiler entry_block x))"
proof -
  have p1: "CFG_build fuel compiler entry_block = Inr cfg \<and> b \<in> set (post_order cfg) \<and>
    get_block compiler b = Some block \<and> merge block = MergeLoop \<longrightarrow>
      merge_block block \<in> set (edges_of (succeeding_edges cfg) b) \<and>
      b \<in> set (edges_of (preceding_edges cfg) (merge_block block))"
  proof
    assume a: "CFG_build fuel compiler entry_block = Inr cfg \<and> b \<in> set (post_order cfg) \<and>
      get_block compiler b = Some block \<and> merge block = MergeLoop"
    then have dd: "dfs_done compiler entry_block cfg"
      using CFG_build_done [of fuel compiler entry_block cfg] by (simp add: cfg_done_def)
    have "is_loop_edge compiler b (merge_block block)"
      using a by (simp add: is_loop_edge_def)
    with dd a have "merge_block block \<in> set (edges_of (succeeding_edges cfg) b)"
      by (auto simp: dfs_done_def dfs_inv_def loops_ok_def)
    with built_symmetric [OF dd]
    show "merge_block block \<in> set (edges_of (succeeding_edges cfg) b) \<and>
        b \<in> set (edges_of (preceding_edges cfg) (merge_block block))" by blast
  qed
  have p2: "visit_order_or_default c b < 0 \<and> get_block compiler b = Some block \<and>
    merge block = MergeLoop \<and> post_order_visit (Suc n) compiler c b = Inr (ok, c') \<longrightarrow>
      (\<exists>c3. visit_targets n compiler (mark_block c b) b (branch_targets block) = Inr c3 \<and>
         c' = finish_block (add_branch c3 b (merge_block block)) b \<and>
         post_order c' = post_order c3 @ [b] \<and>
         (\<forall>x. x \<noteq> b \<longrightarrow> visit_order c' x = visit_order c3 x) \<and>
         merge_block block \<in> set (edges_of (succeeding_edges c') b) \<and>
         b \<in> set (edges_of (preceding_edges c') (merge_block block)))"
  proof
    assume a: "visit_order_or_default c b < 0 \<and> get_block compiler b = Some block \<and>
      merge block = MergeLoop \<and> post_order_visit (Suc n) compiler c b = Inr (ok, c')"
    then obtain c3 where
      c3: "visit_targets n compiler (mark_block c b) b (branch_targets block) = Inr c3"
      and c': "c' = finish_block (loop_merge_edge c3 b block) b"
      by (auto simp: post_order_visit_fresh simp del: post_order_visit.simps split: sum.splits)
    from a have l: "loop_merge_edge c3 b block = add_branch c3 b (merge_block block)"
      by (simp add: loop_merge_edge_def)
    show "\<exists>c3. visit_targets n compiler (mark_block c b) b (branch_targets block) = Inr c3 \<and>
           c' = finish_block (add_branch c3 b (merge_block block)) b \<and>
           post_order c' = post_order c3 @ [b] \<and>
           (\<forall>x. x \<noteq> b \<longrightarrow> visit_order c' x = visit_order c3 x) \<and>
           merge_block block \<in> set (edges_of (succeeding_edges c') b) \<and>
           b \<in> set (edges_of (preceding_edges c') (merge_block block))"
      using c3 unfolding c' l by (intro exI [of _ c3]) simp
  qed
  have p3: "CFG_build fuel compiler entry_block = Inr cfg \<longrightarrow>
      (x \<in> set (post_order cfg) \<longleftrightarrow> reaches compiler entry_block x)"
  proof
    assume "CFG_build fuel compiler entry_block = Inr cfg"
    from visited_reaches [OF CFG_build_full [OF this]]
    show "x \<in> set (post_order cfg) \<longleftrightarrow> reaches compiler entry_block x" .
  qed
  show ?thesis by (rule conjI [OF p1 conjI [OF p2 p3]])
qed

theorem loop_header_merge_edge_witness:
  "CFG_build 10 endless_loop_blocks 1 = Inr endless_loop_cfg \<and>
   2 \<in> set (post_order endless_loop_cfg) \<and>
   get_block endless_loop_blocks 2 = Some (make_block Direct MergeLoop 2 3 0 0) \<and>
   merge (make_block Direct MergeLoop 2 3 0 0) = MergeLoop \<and>
   merge_block (make_block Direct MergeLoop 2 3 0 0) = 3 \<and>
   3 \<in> set (edges_of (succeeding_edges endless_loop_cfg) 2) \<and>
   2 \<in> set (edges_of (preceding_edges endless_loop_cfg) 3) \<and>
   visit_order_or_default endless_loop_entered 2 < 0 \<and>
   post_order_visit (Suc 8) endless_loop_blocks endless_loop_entered 2 =
     Inr (True, endless_loop_header_done) \<and>
   (\<exists>c3. visit_targets 8 endless_loop_blocks (mark_block endless_loop_entered 2) 2
            (branch_targets (make_block Direct MergeLoop 2 3 0 0)) = Inr c3 \<and>
      endless_loop_header_done = finish_block (add_branch c3 2 3) 2 \<and>
      post_order endless_loop_header_done = post_order c3 @ [2] \<and>
      visit_order endless_loop_header_done 3 = visit_order c3 3) \<and>
   visit_order endless_loop_header_done 3 = None \<and>
   3 \<in> set (edges_of (succeeding_edges endless_loop_header_done) 2) \<and>
   3 \<notin> set (post_order endless_loop_cfg) \<and>
   \<not> reaches endless_loop_blocks 1 3"
proof -
  have h2: "2 \<in> set (post_order endless_loop_cfg)" by (simp add: endless_loop_facts(1))
  have h3: "get_block endless_loop_blocks 2 = Some (make_block Direct MergeLoop 2 3 0 0)"
    by (simp add: get_block_def endless_loop_blocks_def)
  have h4: "merge (make_block Direct MergeLoop 2 3 0 0) = MergeLoop"
    "merge_block (make_block Direct MergeLoop 2 3 0 0) = 3"
    by (simp_all add: make_block_def)
  have h5: "visit_order_or_default endless_loop_entered 2 < 0"
    by (simp add: visit_order_or_default_def endless_loop_entered_def empty_CFG_def)
  have h6: "post_order_visit (Suc 8) endless_loop_blocks endless_loop_entered 2 =
      Inr (True, endless_loop_header_done)"
    using endless_loop_header_visit by (simp add: eval_nat_numeral)
  have n3: "3 \<notin> set (post_order endless_loop_cfg)" by (simp add: endless_loop_facts(1))
  from loop_header_merge_edge [of 10 endless_loop_blocks 1 endless_loop_cfg 2
      "make_block Direct MergeLoop 2 3 0 0" endless_loop_entered 8 True
      endless_loop_header_done 3]
    endless_loop_built h2 h3 h4 h5 h6 n3 endless_loop_header_facts
  show ?thesis by auto
qed

section \<open>Symmetric, duplicate-free adjacency\<close>

text \<open>
  Claim C6. In a constructed CFG, for all blocks X and Y, Y is in \<open>succeeding_edges[X]\<close>
  if and only if X is in \<open>preceding_edges[Y]\<close>, and no list of either map holds an
  identifier twice.
\<close>

theorem edges_symmetric_duplicate_free:
  assumes "CFG_build fuel compiler entry_block = Inr cfg"
  shows "(y \<in> set (edges_of (succeeding_edges cfg) x) \<longleftrightarrow>
            x \<in> set (edges_of (preceding_edges cfg) y)) \<and>
         distinct (edges_of (succeeding_edges cfg) x) \<and>
         distinct (edges_of (preceding_edges cfg) x)"
  using CFG_build_done [OF assms]
  by (simp add: cfg_done_def dfs_done_def dfs_inv_def edges_ok_def)

theorem edges_symmetric_duplicate_free_witness:
  "CFG_build 10 do_while_blocks 1 = Inr do_while_cfg \<and>
   4 \<in> set (edges_of (succeeding_edges do_while_cfg) 2) \<and>
   2 \<in> set (edges_of (preceding_edges do_while_cfg) 4) \<and>
   distinct (edges_of (succeeding_edges do_while_cfg) 2) \<and>
   distinct (edges_of (preceding_edges do_while_cfg) 2)"
  using edges_symmetric_duplicate_free [OF do_while_built, of 4 2] do_while_built
    do_while_facts(4)
  by simp

section \<open>find\_common\_dominator is symmetric\<close>

lemma fcd_symmetric:
  assumes inj: "\<And>x y. 0 < order_of cfg x \<Longrightarrow> order_of cfg x = order_of cfg y \<Longrightarrow> x = y"
  shows "find_common_dominator n cfg a b = find_common_dominator n cfg b a"
proof (induction n arbitrary: a b)
  case 0
  then show ?case by auto
next
  case (Suc n)
  show ?case
  proof (cases "a = b")
    case True
    then show ?thesis by simp
  next
    case False
    then have ba: "b \<noteq> a" by simp
    show ?thesis
    proof (cases "order_of cfg a = 0 \<or> order_of cfg b = 0")
      case True
      then show ?thesis
        using False ba by (auto simp: fcd_Suc simp del: find_common_dominator.simps)
    next
      case pos: False
      with inj [of a b] False have ne: "order_of cfg a \<noteq> order_of cfg b" by auto
      show ?thesis
      proof (cases "order_of cfg a < order_of cfg b")
        case True
        with pos False ba Suc.IH [of "get_immediate_dominator cfg a" b] show ?thesis
          by (simp add: fcd_Suc del: find_common_dominator.simps)
      next
        case nlt: False
        with ne have "order_of cfg b < order_of cfg a" by simp
        with pos False ba nlt Suc.IH [of a "get_immediate_dominator cfg b"] show ?thesis
          by (simp add: fcd_Suc del: find_common_dominator.simps)
      qed
    qed
  qed
qed

text \<open>
  Claim C9. On a constructed CFG, \<open>find_common_dominator\<close> gives the same result for
  (a, b) and for (b, a), for all blocks and with any amount of fuel (a failed assert and
  an exhausted walk included), and on equal arguments it returns that argument. For
  visited blocks a and b the walk returns a visited block as soon as the fuel covers
  twice the number of visited blocks: every dominator chain leads up to the entry block.
\<close>

theorem find_common_dominator_symmetric:
  assumes "CFG_build fuel compiler entry_block = Inr cfg"
  shows "find_common_dominator n cfg a b = find_common_dominator n cfg b a \<and>
         find_common_dominator n cfg a a = Inr a \<and>
         (a \<in> set (post_order cfg) \<and> b \<in> set (post_order cfg) \<and>
          2 * length (post_order cfg) \<le> n \<longrightarrow>
            (\<exists>r. find_common_dominator n cfg a b = Inr r \<and> r \<in> set (post_order cfg)))"
proof -
  have dd: "dfs_done compiler entry_block cfg"
    using CFG_build_done [OF assms] by (simp add: cfg_done_def)
  have "find_common_dominator n cfg a b = find_common_dominator n cfg b a"
    using fcd_symmetric [of cfg n a b] done_inj [OF dd] by simp
  moreover have "find_common_dominator n cfg a a = Inr a" by (rule fcd_same)
  ultimately show ?thesis using CFG_build_walk_returns [OF assms, of a b n] by blast
qed

theorem find_common_dominator_symmetric_witness:
  "CFG_build 10 do_while_blocks 1 = Inr do_while_cfg \<and>
   3 \<in> set (post_order do_while_cfg) \<and> 4 \<in> set (post_order do_while_cfg) \<and>
   2 * length (post_order do_while_cfg) \<le> Suc (Suc (Suc (Suc (Suc (Suc (Suc (Suc 0))))))) \<and>
   find_common_dominator (Suc (Suc (Suc (Suc (Suc (Suc (Suc (Suc 0)))))))) do_while_cfg 3 4 = Inr 2 \<and>
   find_common_dominator (Suc (Suc (Suc (Suc (Suc (Suc (Suc (Suc 0)))))))) do_while_cfg 4 3 = Inr 2 \<and>
   find_common_dominator (Suc (Suc (Suc (Suc (Suc (Suc (Suc (Suc 0)))))))) do_while_cfg 3 3 = Inr 3 \<and>
   2 \<in> set (post_order do_while_cfg)"
proof -
  have "find_common_dominator (Suc (Suc (Suc (Suc (Suc (Suc (Suc (Suc 0)))))))) do_while_cfg 3 4 = Inr 2"
    by simp
  with find_common_dominator_symmetric [OF do_while_built,
      of "Suc (Suc (Suc (Suc (Suc (Suc (Suc (Suc 0)))))))" 3 4] do_while_built do_while_facts(1)
  show ?thesis by simp
qed

section \<open>Back edges\<close>




section \<open>The do/while scenario\<close>

text \<open>
  Claim C2. Let H be a loop header with merge block M, another block than H, such that M
  is reachable from the entry block through terminators and H dominates M: every path
  from the entry block to M in the flow graph of the function passes through H. This is
  the shape of a function whose loop is entered at H and left to M only, whatever the
  body between them is, and whether or not the terminator of H branches to M (by
  \<open>dominates_region\<close> it is enough that the blocks before the loop form a region around
  the entry block that flow edges leave through H only, and M is not among them). Then in
  every CFG the constructor returns the immediate dominator of M is H. And the
  constructor does return, with fuel for twice the number of blocks plus one, when each
  branch target is a block of the finite store and every reachable loop header with a
  reachable merge block dominates that merge block.
\<close>

theorem do_while_merge_dominated_by_header:
  assumes "get_block compiler h = Some header"
    and "merge header = MergeLoop" and "merge_block header = m"
    and "h \<noteq> m"
    and "reaches compiler entry_block m"
    and "dominates compiler entry_block h m"
  shows "(CFG_build fuel compiler entry_block = Inr cfg \<longrightarrow>
            get_immediate_dominator cfg m = h) \<and>
         (closed_store compiler \<and> structured_loops compiler entry_block \<longrightarrow>
            (\<exists>cfg'. CFG_build (2 * card (dom compiler) + 1) compiler entry_block = Inr cfg' \<and>
               get_immediate_dominator cfg' m = h))"
proof -
  have loop: "is_loop_edge compiler h m" using assms(1-3) by (simp add: is_loop_edge_def)
  have idom: "get_immediate_dominator c m = h"
    if built: "CFG_build n compiler entry_block = Inr c" for n c
  proof -
    from visited_reaches [OF CFG_build_full [OF built]] assms(5)
    have "m \<in> set (post_order c)" by simp
    from merge_dominated_by_header [OF built loop assms(4) this assms(6)] show ?thesis .
  qed
  have me: "m \<noteq> entry_block"
  proof
    assume "m = entry_block"
    with dominates_entry [of compiler entry_block h] assms(4,6) show False by simp
  qed
  have e: "get_block compiler entry_block \<noteq> None"
    by (rule reaches_entry_block [OF assms(5) me])
  have "\<exists>cfg'. CFG_build (2 * card (dom compiler) + 1) compiler entry_block = Inr cfg' \<and>
      get_immediate_dominator cfg' m = h"
    if "closed_store compiler \<and> structured_loops compiler entry_block"
  proof -
    from that CFG_build_returns_structured [OF _ e] obtain cfg' where
      "CFG_build (2 * card (dom compiler) + 1) compiler entry_block = Inr cfg'" by blast
    with idom show ?thesis by blast
  qed
  with idom show ?thesis by blast
qed

theorem do_while_merge_dominated_by_header_witness:
  "get_block do_while_branch_blocks 2 = Some (make_block Direct MergeLoop 3 6 0 0) \<and>
   merge (make_block Direct MergeLoop 3 6 0 0) = MergeLoop \<and>
   merge_block (make_block Direct MergeLoop 3 6 0 0) = 6 \<and>
   6 \<notin> set (branch_targets (make_block Direct MergeLoop 3 6 0 0)) \<and>
   reaches do_while_branch_blocks 1 6 \<and>
   dominates do_while_branch_blocks 1 2 6 \<and>
   CFG_build 15 do_while_branch_blocks 1 = Inr do_while_branch_cfg \<and>
   get_immediate_dominator do_while_branch_cfg 6 = 2 \<and>
   closed_store do_while_branch_blocks \<and>
   structured_loops do_while_branch_blocks 1 \<and>
   2 * card (dom do_while_branch_blocks) + 1 = 15 \<and>
   (\<exists>cfg'. CFG_build (2 * card (dom do_while_branch_blocks) + 1) do_while_branch_blocks 1 =
              Inr cfg' \<and>
      get_immediate_dominator cfg' 6 = 2)"
proof -
  have h: "merge (make_block Direct MergeLoop 3 6 0 0) = MergeLoop"
    "merge_block (make_block Direct MergeLoop 3 6 0 0) = 6"
    "6 \<notin> set (branch_targets (make_block Direct MergeLoop 3 6 0 0))"
    by (simp_all add: make_block_def branch_targets_def)
  have ne: "(2 :: nat) \<noteq> 6" by simp
  have c: "2 * card (dom do_while_branch_blocks) + 1 = 15"
    by (simp add: do_while_branch_store(2))
  from do_while_merge_dominated_by_header [OF do_while_branch_store(1) h(1,2) ne
      do_while_branch_reaches do_while_branch_dominates, of 15 do_while_branch_cfg]
    do_while_branch_built do_while_branch_store do_while_branch_structured
    do_while_branch_reaches do_while_branch_dominates h c
  show ?thesis by simp
qed

section \<open>Visited blocks have their branch targets visited\<close>

lemma built_targets_visited:
  assumes "CFG_build fuel compiler entry_block = Inr cfg"
    and "b \<in> set (post_order cfg)"
  shows "\<exists>block order. get_block compiler b = Some block \<and> get_visit_order cfg b = Inr order \<and>
           (\<forall>t \<in> set (branch_targets block). \<exists>v. get_visit_order cfg t = Inr v)"
proof -
  have built: "cfg_done compiler entry_block cfg" by (rule CFG_build_done [OF assms(1)])
  then have dd: "dfs_done compiler entry_block cfg" by (simp add: cfg_done_def)
  have pos: "0 < order_of cfg b" by (rule built_finished [OF built assms(2)])
  then have "visit_order cfg b \<noteq> None"
    by (auto simp: order_of_def get_visit_order_def split: option.splits)
  with dd obtain block where blk: "get_block compiler b = Some block"
    by (auto simp: dfs_done_def dfs_inv_def blocks_ok_def)
  have "\<exists>v. get_visit_order cfg t = Inr v" if "t \<in> set (branch_targets block)" for t
  proof -
    from dd have "\<forall>x \<in> set (post_order cfg). \<forall>block. get_block compiler x = Some block \<longrightarrow>
        (\<forall>t \<in> set (branch_targets block). visit_order cfg t \<noteq> None)"
      by (simp add: dfs_done_def)
    with assms(2) blk that obtain w where w: "visit_order cfg t = Some w"
      by blast
    with dd have "w \<noteq> 0" by (auto simp: dfs_done_def)
    moreover from dd w have "w = 0 \<or> t \<in> set (post_order cfg)"
      by (auto simp: dfs_done_def dfs_inv_def numbering_ok_def)
    ultimately have "0 < order_of cfg t"
      using built_finished [OF built] by auto
    then show ?thesis by (simp add: get_visit_order_order_of)
  qed
  with blk pos show ?thesis by (simp add: get_visit_order_order_of)
qed

section \<open>The dominator a builder accumulates is a visited block\<close>

lemma built_dom_tree:
  assumes "cfg_done compiler e cfg"
  shows "dom_tree cfg"
  using assms unfolding cfg_done_def loop_inv_def dom_tree_def by blast

lemma built_has_dominator:
  assumes "cfg_done compiler e cfg"
  shows "immediate_dominators cfg b \<noteq> None \<longleftrightarrow> b \<in> set (post_order cfg)"
proof
  assume "immediate_dominators cfg b \<noteq> None"
  with assms have "0 < order_of cfg b" unfolding cfg_done_def loop_inv_def by fastforce
  with assms show "b \<in> set (post_order cfg)" by (auto simp: cfg_done_def intro: done_visited)
next
  assume "b \<in> set (post_order cfg)"
  from built_dominator [OF assms this] show "immediate_dominators cfg b \<noteq> None" by auto
qed

lemma add_block_keeps_visited:
  assumes built: "CFG_build fuel compiler e = Inr cfg"
    and d: "dominator builder = 0 \<or> dominator builder \<in> set (post_order cfg)"
    and run: "add_block n cfg builder b = Inr builder'"
  shows "dominator builder' = 0 \<or> dominator builder' \<in> set (post_order cfg)"
proof -
  have cd: "cfg_done compiler e cfg" by (rule CFG_build_done [OF built])
  show ?thesis
  proof (cases "get_immediate_dominator cfg b = 0")
    case True
    with run d show ?thesis by (simp add: add_block_def)
  next
    case False
    then have bd: "immediate_dominators cfg b \<noteq> None"
      by (auto simp: get_immediate_dominator_def split: option.splits)
    then have bp: "b \<in> set (post_order cfg)" using built_has_dominator [OF cd] by simp
    show ?thesis
    proof (cases "dominator builder = 0")
      case True
      with run False bp show ?thesis by (auto simp: add_block_def)
    next
      case nz: False
      with d have dp: "dominator builder \<in> set (post_order cfg)" by simp
      then have dd: "immediate_dominators cfg (dominator builder) \<noteq> None"
        using built_has_dominator [OF cd] by simp
      show ?thesis
      proof (cases "b = dominator builder")
        case True
        with run False nz dp show ?thesis by (auto simp: add_block_def)
      next
        case ne: False
        with run False nz obtain r where
          r: "find_common_dominator n cfg b (dominator builder) = Inr r"
          and b': "builder' = builder\<lparr>dominator := r\<rparr>"
          by (auto simp: add_block_def split: sum.splits)
        from walk_up [OF built_dom_tree [OF cd] bd dd r]
        have "immediate_dominators cfg r \<noteq> None" by simp
        with built_has_dominator [OF cd] b' show ?thesis by simp
      qed
    qed
  qed
qed

lemma add_block_returns:
  assumes built: "CFG_build fuel compiler e = Inr cfg"
    and d: "dominator builder = 0 \<or> dominator builder \<in> set (post_order cfg)"
    and n: "2 * length (post_order cfg) \<le> n"
  shows "\<exists>builder'. add_block n cfg builder b = Inr builder'"
proof (cases "get_immediate_dominator cfg b \<noteq> 0 \<and> dominator builder \<noteq> 0 \<and>
    b \<noteq> dominator builder")
  case True
  have cd: "cfg_done compiler e cfg" by (rule CFG_build_done [OF built])
  from True have "immediate_dominators cfg b \<noteq> None"
    by (auto simp: get_immediate_dominator_def split: option.splits)
  then have bp: "b \<in> set (post_order cfg)" using built_has_dominator [OF cd] by simp
  from True d have dp: "dominator builder \<in> set (post_order cfg)" by simp
  from CFG_build_walk_returns [OF built bp dp n] True show ?thesis
    by (auto simp: add_block_def)
next
  case False
  then show ?thesis by (auto simp: add_block_def)
qed

section \<open>DominatorBuilder::add_block on an unreachable block\<close>

text \<open>
  Claim C8. For every builder state and every block identifier whose immediate dominator
  in the CFG is none (0, the block was never visited), \<open>add_block\<close> returns normally and
  leaves the builder, and so its \<open>dominator\<close> field, exactly as it was.
\<close>

theorem add_block_unreachable_noop:
  assumes "get_immediate_dominator cfg block_id = 0"
  shows "add_block fuel cfg builder block_id = Inr builder"
  using assms by (simp add: add_block_def)

theorem add_block_unreachable_noop_witness:
  "CFG_build 10 do_while_blocks 1 = Inr do_while_cfg \<and>
   get_immediate_dominator do_while_cfg 7 = 0 \<and>
   add_block 10 do_while_cfg \<lparr>dominator = 3\<rparr> 7 = Inr \<lparr>dominator = 3\<rparr>"
proof -
  have d: "get_immediate_dominator do_while_cfg 7 = 0" by simp
  from add_block_unreachable_noop [OF d, of 10 "\<lparr>dominator = 3\<rparr>"] do_while_built d
  show ?thesis by simp
qed

section \<open>DominatorBuilder::lift_continue_block_dominator\<close>

lemma lift_cases_result:
  assumes "\<forall>t \<in> set cs. \<exists>v. get_visit_order cfg (snd t) = Inr v"
  shows "lift_cases cfg order flag cs =
           Inr (flag \<or> (\<exists>t \<in> set cs. order < order_of cfg (snd t)))"
  using assms
proof (induction cs arbitrary: flag)
  case Nil
  then show ?case by simp
next
  case (Cons c cs)
  from Cons.prems obtain v where v: "get_visit_order cfg (snd c) = Inr v" by auto
  have rest: "\<forall>t \<in> set cs. \<exists>v. get_visit_order cfg (snd t) = Inr v"
    using Cons.prems by simp
  show ?case
    using Cons.IH [OF rest] v by (auto simp: order_of_def)
qed

text \<open>
  Claim C7. When \<open>lift_continue_block_dominator\<close> is called with a dominator other than
  none, on a block whose own visit order and whose branch targets' visit orders are all
  recorded, it returns normally, and the dominator becomes the function's entry block
  exactly when some branch target of the dominator's terminator has a visit order
  strictly greater than the dominator's own; otherwise the builder is left unchanged.
\<close>

theorem lift_continue_block_dominator_result:
  assumes "dominator builder \<noteq> 0"
    and "get_block compiler (dominator builder) = Some block"
    and "get_visit_order cfg (dominator builder) = Inr order"
    and "\<forall>t \<in> set (branch_targets block). \<exists>v. get_visit_order cfg t = Inr v"
  shows "lift_continue_block_dominator compiler entry_block cfg builder =
           Inr (if \<exists>t \<in> set (branch_targets block). order < order_of cfg t
                then builder\<lparr>dominator := entry_block\<rparr> else builder)"
proof (cases "terminator block")
  case Direct
  then show ?thesis
    using assms
    by (auto simp: lift_continue_block_dominator_def branch_targets_def order_of_def)
next
  case Select
  then show ?thesis
    using assms
    by (auto simp: lift_continue_block_dominator_def branch_targets_def order_of_def)
next
  case MultiSelect
  have cs: "\<forall>t \<in> set (cases block). \<exists>v. get_visit_order cfg (snd t) = Inr v"
    using assms(4) MultiSelect by (auto simp: branch_targets_def)
  show ?thesis
  proof (cases "default_block block = 0")
    case True
    then show ?thesis
      using assms(1-3) MultiSelect lift_cases_result [OF cs, of order False]
      by (auto simp: lift_continue_block_dominator_def branch_targets_def)
  next
    case False
    then obtain v where "get_visit_order cfg (default_block block) = Inr v"
      using assms(4) MultiSelect by (auto simp: branch_targets_def)
    then show ?thesis
      using False assms(1-3) MultiSelect lift_cases_result [OF cs, of order False]
      by (auto simp: lift_continue_block_dominator_def branch_targets_def order_of_def)
  qed
next
  case OtherTerminator
  then show ?thesis
    using assms
    by (auto simp: lift_continue_block_dominator_def branch_targets_def)
qed

theorem lift_continue_block_dominator_result_witness:
  "CFG_build 10 do_while_blocks 1 = Inr do_while_cfg \<and>
   dominator \<lparr>dominator = 3\<rparr> \<noteq> 0 \<and>
   get_block do_while_blocks 3 = Some (make_block Select MergeNone 0 0 2 4) \<and>
   branch_targets (make_block Select MergeNone 0 0 2 4) = [2, 4] \<and>
   get_visit_order do_while_cfg 3 = Inr 2 \<and>
   get_visit_order do_while_cfg 2 = Inr 3 \<and>
   get_visit_order do_while_cfg 4 = Inr 1 \<and>
   lift_continue_block_dominator do_while_blocks 1 do_while_cfg \<lparr>dominator = 3\<rparr> =
     Inr \<lparr>dominator = 1\<rparr>"
proof -
  have h1: "dominator \<lparr>dominator = 3\<rparr> \<noteq> 0" by simp
  have h2: "get_block do_while_blocks (dominator \<lparr>dominator = 3\<rparr>) =
              Some (make_block Select MergeNone 0 0 2 4)"
    by (simp add: get_block_def do_while_blocks_def)
  have h3: "get_visit_order do_while_cfg (dominator \<lparr>dominator = 3\<rparr>) = Inr 2"
    by simp
  have h4: "\<forall>t \<in> set (branch_targets (make_block Select MergeNone 0 0 2 4)).
              \<exists>v. get_visit_order do_while_cfg t = Inr v"
    by (simp add: branch_targets_def make_block_def)
  from lift_continue_block_dominator_result [OF h1 h2 h3 h4, of 1] h2 do_while_built
  show ?thesis
    by (simp add: branch_targets_def make_block_def order_of_def)
qed

end
